(* ===== verification/Prelude.thy ===== *)
theory Prelude
  imports Main "HOL-Library.Word"
begin

unbundle bit_operations_syntax

text \<open>
  Shared vocabulary of the development: the machine types of the C sources, the collections that
  the component theories feed and use, and the generic lemmas on words, lists and folds that more
  than one component needs. Nothing in this theory models code.

  Types: \<open>uint8_t\<close>, \<open>uint16_t\<close>, \<open>uint32_t\<close>, \<open>uint64_t\<close> (and \<open>size_t\<close>, \<open>uintptr_t\<close>, object
  pointers) are words of that width, so that C's unsigned wrap-around is the word operation itself.
  \<open>off_t\<close> and \<open>ssize_t\<close> are 64-bit words read with \<open>sint\<close> where the code reads them signed.
  A null pointer is the word 0.
\<close>

type_synonym u8 = "8 word"
type_synonym u16 = "16 word"
type_synonym u32 = "32 word"
type_synonym u64 = "64 word"
type_synonym ptr = "64 word"

named_theorems word_nat \<open>equations that read a word operation as a nat operation\<close>
named_theorems code_cases \<open>splits of the option, sum and product results of the operations\<close>

lemmas results_split [code_cases] =
  option.splits sum.splits prod.splits if_splits

section \<open>Words read as natural numbers\<close>

lemma unat_and_mask [word_nat]:
  fixes x :: "'a::len word"
  shows "unat (x AND mask k) = unat x mod 2 ^ k"
proof -
  have "unat (x AND mask k) = unat (take_bit k x)"
    by (simp only: take_bit_eq_mask)
  also have "\<dots> = take_bit k (unat x)"
    by (rule unsigned_take_bit_eq)
  finally show ?thesis
    by (simp only: take_bit_eq_mod)
qed

lemma unat_and_pow2_minus_1 [word_nat]:
  fixes x :: "'a::len word"
  shows "unat (x AND (2 ^ k - 1)) = unat x mod 2 ^ k"
  using unat_and_mask [of x k] by (simp add: mask_eq_exp_minus_1)

lemma unat_and_le: "unat (x AND y) \<le> unat (y :: 'a :: len word)"
  using word_and_le1 [of x y] by (simp add: word_le_nat_alt)

lemma unat_drop_bit_div [word_nat]:
  fixes x :: "'a::len word"
  shows "unat (drop_bit k x) = unat x div 2 ^ k"
proof -
  have "unat (drop_bit k x) = drop_bit k (take_bit LENGTH('a) (unat x))"
    by (rule unsigned_drop_bit_eq)
  also have "take_bit LENGTH('a) (unat x) = unat x"
    by (simp only: unsigned_word_eqI take_bit_eq_mod unsigned_less mod_less)
  finally show ?thesis
    by (simp only: drop_bit_eq_div)
qed

lemma unat_pow2 [word_nat]:
  assumes "k < LENGTH('a)"
  shows "unat (2 ^ k :: 'a::len word) = 2 ^ k"
proof -
  have "(2::nat) ^ k < 2 ^ LENGTH('a)"
    using assms by (simp add: power_strict_increasing)
  moreover have "unat (of_nat (2 ^ k) :: 'a word) = 2 ^ k mod 2 ^ LENGTH('a)"
    by (rule unat_of_nat)
  ultimately show ?thesis by simp
qed

lemma unat_u32_bound: "unat (x :: u32) < 4294967296"
  using unsigned_less [of x, where 'a = nat] by simp

lemma unat_u64_bound: "unat (x :: u64) < 18446744073709551616"
  using unsigned_less [of x, where 'a = nat] by simp

lemma unat_ucast_u32_u64 [simp]: "unat (ucast (x :: u32) :: u64) = unat x"
  using unat_u32_bound [of x] by (simp add: unsigned_ucast_eq take_bit_eq_mod)

lemma ucast_mask_u32_u64: "k \<le> 32 \<Longrightarrow> ucast (mask k :: u32) = (mask k :: u64)"
  by (rule bit_word_eqI) (auto simp: bit_ucast_iff bit_mask_iff)

lemma unat_add_noof:
  fixes x y :: "'a::len word"
  assumes "unat x + unat y < 2 ^ LENGTH('a)"
  shows "unat (x + y) = unat x + unat y"
  using assms by (simp add: unat_word_ariths)

lemma unat_mult_noof:
  fixes x y :: "'a::len word"
  assumes "unat x * unat y < 2 ^ LENGTH('a)"
  shows "unat (x * y) = unat x * unat y"
  using assms by (simp add: unat_word_ariths)

lemma unat_sub_noof:
  fixes x y :: "'a::len word"
  assumes "y \<le> x"
  shows "unat (x - y) = unat x - unat y"
  using assms by (simp add: unat_sub)

lemma unat_Suc_less:
  fixes x y :: "'a::len word"
  assumes "x < y"
  shows "unat (x + 1) = Suc (unat x)"
proof -
  have "unat x < unat y"
    using assms by (simp add: word_less_nat_alt)
  moreover have "unat y < 2 ^ LENGTH('a)"
    by (rule unsigned_less)
  ultimately have "Suc (unat x) < 2 ^ LENGTH('a)"
    by linarith
  then show ?thesis
    by (simp add: unat_word_ariths)
qed

lemma result_word:
  assumes "0 \<le> r" "nat r < 2 ^ 63"
  shows "sint (of_int r :: u64) = r" "unat (of_int r :: u64) = nat r"
  using assms by (simp_all add: signed_of_int signed_take_bit_int_eq_self unsigned_of_int take_bit_int_eq_self)

section \<open>Lists\<close>

lemma sum_list_split: "sum_list (take n xs) + sum_list (drop n xs) = sum_list (xs :: nat list)"
  by (metis append_take_drop_id sum_list_append)

lemma length_filter_update:
  assumes "i < length xs" "P (xs ! i)" "\<not> P x"
  shows "length (filter P xs) = Suc (length (filter P (xs[i := x])))"
proof -
  have "filter P xs = filter P (take i xs @ xs ! i # drop (Suc i) xs)"
    using assms(1) by (simp only: id_take_nth_drop [symmetric])
  moreover have "filter P (xs[i := x]) = filter P (take i xs @ x # drop (Suc i) xs)"
    using assms(1) by (simp add: upd_conv_take_nth_drop)
  ultimately show ?thesis
    using assms(2,3) by simp
qed

lemma remove_nth_filter_length:
  assumes "i < length xs"
  shows "length (filter P (take i xs @ drop (Suc i) xs)) + (if P (xs ! i) then 1 else 0)
         = length (filter P xs)"
proof -
  have "xs = take i xs @ xs ! i # drop (Suc i) xs"
    using assms by (rule id_take_nth_drop)
  then have "length (filter P xs) = length (filter P (take i xs @ xs ! i # drop (Suc i) xs))"
    by simp
  then show ?thesis by simp
qed

end
