(* ===== verification/Status.thy ===== *)
theory Status
  imports Prelude
begin

text \<open>
  The status codes of include/opends.h, the constructors of \<open>opends_error_t\<close> from
  src/opends_internal.h and the message table of src/opends_common.c. The enumeration is a datatype
  whose numeric values are \<open>op_code\<close>; an \<open>opends_op_error_t\<close> that was cast from an arbitrary
  integer is an \<open>int\<close>, which is what the message function takes.
\<close>

datatype opends_op_error =
    OPENDS_SUCCESS
  | OPENDS_DRIVER_NOT_INITIALIZED
  | OPENDS_DRIVER_INVALID_PROPS
  | OPENDS_DRIVER_UNSUPPORTED_LIMIT
  | OPENDS_DRIVER_VERSION_MISMATCH
  | OPENDS_DRIVER_VERSION_READ_ERROR
  | OPENDS_DRIVER_CLOSING
  | OPENDS_PLATFORM_NOT_SUPPORTED
  | OPENDS_IO_NOT_SUPPORTED
  | OPENDS_DEVICE_NOT_SUPPORTED
  | OPENDS_FS_DRIVER_ERROR
  | OPENDS_DEVICE_DRIVER_ERROR
  | OPENDS_POINTER_INVALID
  | OPENDS_MEMORY_TYPE_INVALID
  | OPENDS_POINTER_RANGE_ERROR
  | OPENDS_CONTEXT_MISMATCH
  | OPENDS_INVALID_MAPPING_SIZE
  | OPENDS_INVALID_MAPPING_RANGE
  | OPENDS_INVALID_FILE_TYPE
  | OPENDS_INVALID_FILE_OPEN_FLAG
  | OPENDS_DIO_NOT_SET
  | OPENDS_INVALID_VALUE
  | OPENDS_MEMORY_ALREADY_REGISTERED
  | OPENDS_MEMORY_NOT_REGISTERED
  | OPENDS_PERMISSION_DENIED
  | OPENDS_DRIVER_ALREADY_OPEN
  | OPENDS_HANDLE_NOT_REGISTERED
  | OPENDS_HANDLE_ALREADY_REGISTERED
  | OPENDS_DEVICE_NOT_FOUND
  | OPENDS_INTERNAL_ERROR
  | OPENDS_GETNEWFD_FAILED
  | OPENDS_FS_SETUP_ERROR
  | OPENDS_IO_DISABLED
  | OPENDS_BATCH_SUBMIT_FAILED
  | OPENDS_MEMORY_PINNING_FAILED
  | OPENDS_BATCH_FULL
  | OPENDS_ASYNC_NOT_SUPPORTED
  | OPENDS_IO_MAX_ERROR

definition all_op_errors :: "opends_op_error list" where
  "all_op_errors = [
     OPENDS_SUCCESS, OPENDS_DRIVER_NOT_INITIALIZED,
     OPENDS_DRIVER_INVALID_PROPS, OPENDS_DRIVER_UNSUPPORTED_LIMIT,
     OPENDS_DRIVER_VERSION_MISMATCH, OPENDS_DRIVER_VERSION_READ_ERROR,
     OPENDS_DRIVER_CLOSING, OPENDS_PLATFORM_NOT_SUPPORTED,
     OPENDS_IO_NOT_SUPPORTED, OPENDS_DEVICE_NOT_SUPPORTED,
     OPENDS_FS_DRIVER_ERROR, OPENDS_DEVICE_DRIVER_ERROR,
     OPENDS_POINTER_INVALID, OPENDS_MEMORY_TYPE_INVALID,
     OPENDS_POINTER_RANGE_ERROR, OPENDS_CONTEXT_MISMATCH,
     OPENDS_INVALID_MAPPING_SIZE, OPENDS_INVALID_MAPPING_RANGE,
     OPENDS_INVALID_FILE_TYPE, OPENDS_INVALID_FILE_OPEN_FLAG,
     OPENDS_DIO_NOT_SET, OPENDS_INVALID_VALUE,
     OPENDS_MEMORY_ALREADY_REGISTERED, OPENDS_MEMORY_NOT_REGISTERED,
     OPENDS_PERMISSION_DENIED, OPENDS_DRIVER_ALREADY_OPEN,
     OPENDS_HANDLE_NOT_REGISTERED, OPENDS_HANDLE_ALREADY_REGISTERED,
     OPENDS_DEVICE_NOT_FOUND, OPENDS_INTERNAL_ERROR,
     OPENDS_GETNEWFD_FAILED, OPENDS_FS_SETUP_ERROR,
     OPENDS_IO_DISABLED, OPENDS_BATCH_SUBMIT_FAILED,
     OPENDS_MEMORY_PINNING_FAILED, OPENDS_BATCH_FULL,
     OPENDS_ASYNC_NOT_SUPPORTED, OPENDS_IO_MAX_ERROR]"

fun op_code :: "opends_op_error \<Rightarrow> int" where
  "op_code OPENDS_SUCCESS = 0"
| "op_code OPENDS_DRIVER_NOT_INITIALIZED = 5001"
| "op_code OPENDS_DRIVER_INVALID_PROPS = 5002"
| "op_code OPENDS_DRIVER_UNSUPPORTED_LIMIT = 5003"
| "op_code OPENDS_DRIVER_VERSION_MISMATCH = 5004"
| "op_code OPENDS_DRIVER_VERSION_READ_ERROR = 5005"
| "op_code OPENDS_DRIVER_CLOSING = 5006"
| "op_code OPENDS_PLATFORM_NOT_SUPPORTED = 5007"
| "op_code OPENDS_IO_NOT_SUPPORTED = 5008"
| "op_code OPENDS_DEVICE_NOT_SUPPORTED = 5009"
| "op_code OPENDS_FS_DRIVER_ERROR = 5010"
| "op_code OPENDS_DEVICE_DRIVER_ERROR = 5011"
| "op_code OPENDS_POINTER_INVALID = 5012"
| "op_code OPENDS_MEMORY_TYPE_INVALID = 5013"
| "op_code OPENDS_POINTER_RANGE_ERROR = 5014"
| "op_code OPENDS_CONTEXT_MISMATCH = 5015"
| "op_code OPENDS_INVALID_MAPPING_SIZE = 5016"
| "op_code OPENDS_INVALID_MAPPING_RANGE = 5017"
| "op_code OPENDS_INVALID_FILE_TYPE = 5018"
| "op_code OPENDS_INVALID_FILE_OPEN_FLAG = 5019"
| "op_code OPENDS_DIO_NOT_SET = 5020"
| "op_code OPENDS_INVALID_VALUE = 5022"
| "op_code OPENDS_MEMORY_ALREADY_REGISTERED = 5023"
| "op_code OPENDS_MEMORY_NOT_REGISTERED = 5024"
| "op_code OPENDS_PERMISSION_DENIED = 5025"
| "op_code OPENDS_DRIVER_ALREADY_OPEN = 5026"
| "op_code OPENDS_HANDLE_NOT_REGISTERED = 5027"
| "op_code OPENDS_HANDLE_ALREADY_REGISTERED = 5028"
| "op_code OPENDS_DEVICE_NOT_FOUND = 5029"
| "op_code OPENDS_INTERNAL_ERROR = 5030"
| "op_code OPENDS_GETNEWFD_FAILED = 5031"
| "op_code OPENDS_FS_SETUP_ERROR = 5033"
| "op_code OPENDS_IO_DISABLED = 5034"
| "op_code OPENDS_BATCH_SUBMIT_FAILED = 5035"
| "op_code OPENDS_MEMORY_PINNING_FAILED = 5036"
| "op_code OPENDS_BATCH_FULL = 5037"
| "op_code OPENDS_ASYNC_NOT_SUPPORTED = 5038"
| "op_code OPENDS_IO_MAX_ERROR = 5039"

text \<open>The enumerators of an integer: \<open>None\<close> when the switch of the C code takes its default.\<close>

definition op_of_code :: "int \<Rightarrow> opends_op_error option" where
  "op_of_code c = find (\<lambda>e. op_code e = c) all_op_errors"

fun op_message :: "opends_op_error \<Rightarrow> string" where
  "op_message OPENDS_SUCCESS = ''opends success''"
| "op_message OPENDS_DRIVER_NOT_INITIALIZED = ''driver is not loaded''"
| "op_message OPENDS_DRIVER_INVALID_PROPS = ''invalid property''"
| "op_message OPENDS_DRIVER_UNSUPPORTED_LIMIT = ''property range error''"
| "op_message OPENDS_DRIVER_VERSION_MISMATCH = ''driver version mismatch''"
| "op_message OPENDS_DRIVER_VERSION_READ_ERROR = ''driver version read error''"
| "op_message OPENDS_DRIVER_CLOSING = ''driver shutdown in progress''"
| "op_message OPENDS_PLATFORM_NOT_SUPPORTED = ''direct storage not supported on current platform''"
| "op_message OPENDS_IO_NOT_SUPPORTED = ''direct storage not supported on current file''"
| "op_message OPENDS_DEVICE_NOT_SUPPORTED = ''direct storage not supported on current device''"
| "op_message OPENDS_FS_DRIVER_ERROR = ''filesystem driver ioctl error''"
| "op_message OPENDS_DEVICE_DRIVER_ERROR = ''device driver API error''"
| "op_message OPENDS_POINTER_INVALID = ''invalid device pointer''"
| "op_message OPENDS_MEMORY_TYPE_INVALID = ''invalid pointer memory type''"
| "op_message OPENDS_POINTER_RANGE_ERROR = ''pointer range exceeds allocated address range''"
| "op_message OPENDS_CONTEXT_MISMATCH = ''device context mismatch''"
| "op_message OPENDS_INVALID_MAPPING_SIZE = ''access beyond maximum pinned size''"
| "op_message OPENDS_INVALID_MAPPING_RANGE = ''access beyond mapped size''"
| "op_message OPENDS_INVALID_FILE_TYPE = ''unsupported file type''"
| "op_message OPENDS_INVALID_FILE_OPEN_FLAG = ''unsupported file open flags''"
| "op_message OPENDS_DIO_NOT_SET = ''fd direct IO not set''"
| "op_message OPENDS_INVALID_VALUE = ''invalid arguments''"
| "op_message OPENDS_MEMORY_ALREADY_REGISTERED = ''device pointer already registered''"
| "op_message OPENDS_MEMORY_NOT_REGISTERED = ''device pointer lookup failure''"
| "op_message OPENDS_PERMISSION_DENIED = ''driver or file access error''"
| "op_message OPENDS_DRIVER_ALREADY_OPEN = ''driver is already open''"
| "op_message OPENDS_HANDLE_NOT_REGISTERED = ''file descriptor is not registered''"
| "op_message OPENDS_HANDLE_ALREADY_REGISTERED = ''file descriptor is already registered''"
| "op_message OPENDS_DEVICE_NOT_FOUND = ''device not found''"
| "op_message OPENDS_INTERNAL_ERROR = ''internal error''"
| "op_message OPENDS_GETNEWFD_FAILED = ''failed to obtain new file descriptor''"
| "op_message OPENDS_FS_SETUP_ERROR = ''filesystem driver initialization error''"
| "op_message OPENDS_IO_DISABLED = ''direct storage disabled by config on current file''"
| "op_message OPENDS_BATCH_SUBMIT_FAILED = ''failed to submit batch operation''"
| "op_message OPENDS_MEMORY_PINNING_FAILED = ''failed to allocate pinned device memory''"
| "op_message OPENDS_BATCH_FULL = ''queue full for batch operation''"
| "op_message OPENDS_ASYNC_NOT_SUPPORTED = ''async I/O not supported by this backend''"
| "op_message OPENDS_IO_MAX_ERROR = ''max error''"

definition opends_op_status_error :: "int \<Rightarrow> string" where
  "opends_op_status_error c =
     (case op_of_code c of Some e \<Rightarrow> op_message e | None \<Rightarrow> ''unknown opends error'')"

record opends_error =
  err :: opends_op_error
  dev_err :: int

definition opends_ok :: opends_error where
  "opends_ok = \<lparr>err = OPENDS_SUCCESS, dev_err = 0\<rparr>"

definition opends_err :: "opends_op_error \<Rightarrow> opends_error" where
  "opends_err e = \<lparr>err = e, dev_err = 0\<rparr>"

definition opends_err_dev :: "opends_op_error \<Rightarrow> int \<Rightarrow> opends_error" where
  "opends_err_dev e rc = \<lparr>err = e, dev_err = rc\<rparr>"

text \<open>The macros \<open>OPENDS_BASE_ERR\<close>, \<open>IS_OPENDS_ERR\<close> and \<open>OPENDS_ERRSTR\<close> of include/opends.h.\<close>

definition OPENDS_BASE_ERR :: int where
  "OPENDS_BASE_ERR = 5000"

definition IS_OPENDS_ERR :: "int \<Rightarrow> bool" where
  "IS_OPENDS_ERR e = (\<bar>e\<bar> > OPENDS_BASE_ERR)"

definition OPENDS_ERRSTR :: "int \<Rightarrow> string" where
  "OPENDS_ERRSTR e = opends_op_status_error \<bar>e\<bar>"

section \<open>The codes name the enumerators uniquely\<close>

lemma all_op_errors_complete [simp]: "e \<in> set all_op_errors"
  by (cases e) (simp_all add: all_op_errors_def)

lemma distinct_codes: "distinct (map op_code all_op_errors)"
  by (simp add: all_op_errors_def)

lemma op_code_inject [simp]: "op_code a = op_code b \<longleftrightarrow> a = b"
  using distinct_codes by (auto simp: distinct_map dest: inj_onD)

lemma op_of_code_op_code [simp]: "op_of_code (op_code e) = Some e"
proof -
  obtain e' where "op_of_code (op_code e) = Some e'"
    unfolding op_of_code_def
    by (cases "find (\<lambda>x. op_code x = op_code e) all_op_errors") (auto simp: find_None_iff)
  moreover from this have "op_code e' = op_code e"
    by (auto simp: op_of_code_def find_Some_iff)
  ultimately show ?thesis by simp
qed

lemma op_of_code_Some_iff: "op_of_code c = Some e \<longleftrightarrow> op_code e = c"
proof
  assume "op_of_code c = Some e"
  then show "op_code e = c"
    by (auto simp: op_of_code_def find_Some_iff)
next
  assume "op_code e = c"
  then show "op_of_code c = Some e"
    using op_of_code_op_code [of e] by simp
qed

lemma op_code_range: "op_code e = 0 \<or> 5001 \<le> op_code e \<and> op_code e \<le> 5039"
  by (cases e) simp_all

lemma op_code_zero_iff [simp]: "op_code e = 0 \<longleftrightarrow> e = OPENDS_SUCCESS"
  by (cases e) simp_all

lemma op_code_nonneg [simp]: "0 \<le> op_code e"
  using op_code_range [of e] by auto

text \<open>Length and eighth character already tell all messages apart.\<close>

definition message_key :: "string \<Rightarrow> nat \<times> nat" where
  "message_key m = (length m, if 7 < length m then of_char (m ! 7) else 0)"

lemma distinct_message_keys: "distinct (map (\<lambda>e. message_key (op_message e)) all_op_errors)"
  by (simp add: all_op_errors_def message_key_def)

lemma distinct_messages: "distinct (map op_message all_op_errors)"
  using distinct_message_keys
  by (metis (no_types, lifting) distinct_map inj_on_def list.map_comp comp_apply map_eq_conv)

lemma unknown_not_a_message: "op_message e \<noteq> ''unknown opends error''"
  by (cases e) simp_all

lemma op_message_inject: "op_message a = op_message b \<longleftrightarrow> a = b"
  using distinct_messages by (auto simp: distinct_map dest: inj_onD)

text \<open>The order of the codes, so that error sets and maps over them are the library's.\<close>

instantiation opends_op_error :: linorder
begin

definition less_eq_opends_op_error :: "opends_op_error \<Rightarrow> opends_op_error \<Rightarrow> bool" where
  "less_eq_opends_op_error a b \<longleftrightarrow> op_code a \<le> op_code b"

definition less_opends_op_error :: "opends_op_error \<Rightarrow> opends_op_error \<Rightarrow> bool" where
  "less_opends_op_error a b \<longleftrightarrow> op_code a < op_code b"

instance
  by standard (auto simp: less_eq_opends_op_error_def less_opends_op_error_def)

end

section \<open>Values of the result constructors\<close>

lemma result_fields [simp]:
  "err opends_ok = OPENDS_SUCCESS" "dev_err opends_ok = 0"
  "err (opends_err e) = e" "dev_err (opends_err e) = 0"
  "err (opends_err_dev e rc) = e" "dev_err (opends_err_dev e rc) = rc"
  by (simp_all add: opends_ok_def opends_err_def opends_err_dev_def)

lemma ok_not_err [simp]: "opends_ok = opends_err e \<longleftrightarrow> e = OPENDS_SUCCESS"
  by (auto simp: opends_ok_def opends_err_def)

lemma err_inject [simp]: "opends_err a = opends_err b \<longleftrightarrow> a = b"
  by (simp add: opends_err_def)

lemma err_not_ok [simp]: "opends_err e = opends_ok \<longleftrightarrow> e = OPENDS_SUCCESS"
  by (auto simp: opends_ok_def opends_err_def)

text \<open>
  The negated code that a read or write returns for a failure is recognised by
  \<open>IS_OPENDS_ERR\<close> exactly when it is a failure, and \<open>OPENDS_ERRSTR\<close> of it is the message of that
  enumerator, which no other enumerator and no unknown code has.
\<close>

theorem errstr_identifies_status:
  "(IS_OPENDS_ERR (- op_code e) \<longleftrightarrow> e \<noteq> OPENDS_SUCCESS) \<and>
   (OPENDS_ERRSTR (- op_code e) = op_message e) \<and>
   (opends_op_status_error c = op_message e \<longleftrightarrow> c = op_code e)"
proof (intro conjI)
  show "IS_OPENDS_ERR (- op_code e) \<longleftrightarrow> e \<noteq> OPENDS_SUCCESS"
    using op_code_range [of e] by (auto simp: IS_OPENDS_ERR_def OPENDS_BASE_ERR_def)
  show "OPENDS_ERRSTR (- op_code e) = op_message e"
    by (simp add: OPENDS_ERRSTR_def opends_op_status_error_def)
  show "opends_op_status_error c = op_message e \<longleftrightarrow> c = op_code e"
    by (cases "op_of_code c")
       (auto simp: opends_op_status_error_def op_message_inject op_of_code_Some_iff
             dest: unknown_not_a_message [symmetric, THEN notE])
qed

end
