(* ===== verification/Stream_Map.thy ===== *)
theory Stream_Map
  imports Prelude
begin

text \<open>
  The open-addressing map from GPU streams to indices of src/ds_stream_map.h: entry, hash, lookup
  and insertion as the C loops have them, over the caller's entry array. The invariant says that
  every stored key is found by its own probe sequence before any empty slot; the lookup then
  implements a finite map, insertion extends it by one binding, and a lookup that runs
  concurrently with insertions still finds a key that was stored before it began. The laws are
  stated as the interface \<open>index_table\<close>, which the stream registry of the driver relies on.
\<close>

section \<open>The code\<close>

record ds_stream_map_entry =
  key :: ptr
  idx :: int

definition hash_multiplier :: u64 where
  "hash_multiplier = 0x9E3779B97F4A7C15"

definition ds_stream_map_hash :: "ptr \<Rightarrow> u32 \<Rightarrow> u32" where
  "ds_stream_map_hash s m = (let v = s * hash_multiplier in ucast (drop_bit 32 v) AND m)"

text \<open>The loop of the lookup from probe \<open>p\<close> on.\<close>

function ds_stream_map_get_loop ::
  "ds_stream_map_entry list \<Rightarrow> u32 \<Rightarrow> ptr \<Rightarrow> u32 \<Rightarrow> u32 \<Rightarrow> int" where
  "ds_stream_map_get_loop e m stream h p =
     (if p < m + 1 then
        (let s = e ! unat ((h + p) AND m) in
         if key s = stream then idx s
         else if key s = 0 then -1
         else ds_stream_map_get_loop e m stream h (p + 1))
      else -1)"
  by pat_completeness auto
termination
  by (relation "measure (\<lambda>(e, m, stream, h, p). unat (m + 1) - unat p)")
     (auto simp: unat_Suc_less word_less_nat_alt)

definition ds_stream_map_get :: "ds_stream_map_entry list \<Rightarrow> u32 \<Rightarrow> ptr \<Rightarrow> int" where
  "ds_stream_map_get e m stream =
     ds_stream_map_get_loop e m stream (ds_stream_map_hash stream m) 0"

text \<open>The loop of the insertion; the result is the array after it and the return code.\<close>

function ds_stream_map_put_loop ::
  "ds_stream_map_entry list \<Rightarrow> u32 \<Rightarrow> ptr \<Rightarrow> int \<Rightarrow> u32 \<Rightarrow> u32
    \<Rightarrow> ds_stream_map_entry list \<times> int" where
  "ds_stream_map_put_loop e m stream i h p =
     (if p < m + 1 then
        (let j = unat ((h + p) AND m) in
         if key (e ! j) = 0
         then (e[j := (e ! j)\<lparr>idx := i, key := stream\<rparr>], 0)
         else ds_stream_map_put_loop e m stream i h (p + 1))
      else (e, -1))"
  by pat_completeness auto
termination
  by (relation "measure (\<lambda>(e, m, stream, i, h, p). unat (m + 1) - unat p)")
     (auto simp: unat_Suc_less word_less_nat_alt)

definition ds_stream_map_put ::
  "ds_stream_map_entry list \<Rightarrow> u32 \<Rightarrow> ptr \<Rightarrow> int \<Rightarrow> ds_stream_map_entry list \<times> int" where
  "ds_stream_map_put e m stream i =
     ds_stream_map_put_loop e m stream i (ds_stream_map_hash stream m) 0"

declare ds_stream_map_get_loop.simps [simp del] ds_stream_map_put_loop.simps [simp del]

section \<open>Probe sequences\<close>

text \<open>A table of \<open>2 ^ k\<close> slots with its mask; \<open>probe\<close> is the slot the loops look at.\<close>

definition table_shape :: "nat \<Rightarrow> ds_stream_map_entry list \<Rightarrow> u32 \<Rightarrow> bool" where
  "table_shape k e m \<longleftrightarrow> k < 32 \<and> m = mask k \<and> length e = 2 ^ k"

definition home :: "nat \<Rightarrow> ptr \<Rightarrow> nat" where
  "home k s = unat (ds_stream_map_hash s (mask k))"

definition probe :: "nat \<Rightarrow> ptr \<Rightarrow> nat \<Rightarrow> nat" where
  "probe k s p = (home k s + p) mod 2 ^ k"

lemma probe_less [simp]: "probe k s p < 2 ^ k"
  by (simp add: probe_def)

lemma probe_index:
  assumes "k < 32"
  shows "unat ((ds_stream_map_hash s (mask k) + p) AND mask k) = probe k s (unat p)"
proof -
  have "(2::nat) ^ k dvd 2 ^ 32"
    using assms by (intro le_imp_power_dvd) simp
  then show ?thesis
    by (simp add: unat_and_mask probe_def home_def unat_word_ariths mod_mod_cancel)
qed

lemma mask_plus_1: "k < 32 \<Longrightarrow> unat (mask k + 1 :: u32) = 2 ^ k"
  by (simp add: mask_eq_exp_minus_1 unat_pow2)

lemma probe_surj:
  assumes "i < 2 ^ k"
  shows "\<exists>p < 2 ^ k. probe k s p = i"
proof -
  let ?n = "2 ^ k :: nat" and ?h = "home k s mod 2 ^ k"
  have h: "?h < ?n" by simp
  let ?p = "(i + ?n - ?h) mod ?n"
  have "(home k s + ?p) mod ?n = (?h + (i + ?n - ?h)) mod ?n"
    by (metis mod_add_left_eq mod_add_right_eq)
  also have "?h + (i + ?n - ?h) = i + ?n"
    using h by linarith
  also have "(i + ?n) mod ?n = i"
    using assms by simp
  finally show ?thesis
    by (auto simp: probe_def intro!: exI [of _ ?p])
qed

lemma probe_inj:
  assumes "p < 2 ^ k" "q < 2 ^ k" "probe k s p = probe k s q"
  shows "p = q"
proof -
  have "(p mod 2 ^ k) = q mod 2 ^ k"
    using assms(3) unfolding probe_def by (simp add: nat_mod_eq_iff)
  with assms(1,2) show ?thesis by simp
qed

section \<open>The loops follow the probe sequence\<close>

lemma get_loop_step:
  assumes "table_shape k e m"
  shows "ds_stream_map_get_loop e m s (ds_stream_map_hash s m) p =
     (if unat p < 2 ^ k then
        (if key (e ! probe k s (unat p)) = s then idx (e ! probe k s (unat p))
         else if key (e ! probe k s (unat p)) = 0 then -1
         else ds_stream_map_get_loop e m s (ds_stream_map_hash s m) (p + 1))
      else -1)"
  using assms
  by (subst ds_stream_map_get_loop.simps)
     (simp add: table_shape_def probe_index word_less_nat_alt mask_plus_1 Let_def)

lemma put_loop_step:
  assumes "table_shape k e m"
  shows "ds_stream_map_put_loop e m s i (ds_stream_map_hash s m) p =
     (if unat p < 2 ^ k then
        (if key (e ! probe k s (unat p)) = 0
         then (e[probe k s (unat p) := \<lparr>key = s, idx = i\<rparr>], 0)
         else ds_stream_map_put_loop e m s i (ds_stream_map_hash s m) (p + 1))
      else (e, -1))"
proof -
  have upd: "\<And>x :: ds_stream_map_entry. x\<lparr>idx := i, key := s\<rparr> = \<lparr>key = s, idx = i\<rparr>"
    by simp
  show ?thesis
    using assms
    by (subst ds_stream_map_put_loop.simps)
       (simp add: table_shape_def probe_index word_less_nat_alt mask_plus_1 Let_def upd)
qed

lemma probe_number_Suc:
  assumes "k < 32" "p < 2 ^ k"
  shows "unat (of_nat p :: u32) = p" "(of_nat p :: u32) + 1 = of_nat (Suc p)"
proof -
  have "p < 2 ^ 32"
    using power_strict_increasing [OF assms(1), of "2::nat"] assms(2) by linarith
  then show "unat (of_nat p :: u32) = p"
    by (simp add: unat_of_nat)
qed simp

lemma get_loop_skip:
  assumes shape: "table_shape k e m" and n: "n < 2 ^ k"
    and skip: "\<And>q. q < n \<Longrightarrow> key (e ! probe k s q) \<noteq> s \<and> key (e ! probe k s q) \<noteq> 0"
  shows "ds_stream_map_get e m s = ds_stream_map_get_loop e m s (ds_stream_map_hash s m) (of_nat n)"
  using n skip
proof (induction n)
  case 0
  then show ?case by (simp add: ds_stream_map_get_def)
next
  case (Suc n)
  note num = probe_number_Suc [of k n]
  have "ds_stream_map_get e m s =
        ds_stream_map_get_loop e m s (ds_stream_map_hash s m) (of_nat n)"
    using Suc by simp
  also have "\<dots> = ds_stream_map_get_loop e m s (ds_stream_map_hash s m) (of_nat n + 1)"
    using Suc.prems num shape
    by (subst get_loop_step [OF shape]) (simp add: table_shape_def)
  finally show ?case
    using Suc.prems num(2) shape by (simp add: table_shape_def add.commute)
qed

lemma put_loop_skip:
  assumes shape: "table_shape k e m" and n: "n < 2 ^ k"
    and skip: "\<And>q. q < n \<Longrightarrow> key (e ! probe k s q) \<noteq> 0"
  shows "ds_stream_map_put e m s i =
         ds_stream_map_put_loop e m s i (ds_stream_map_hash s m) (of_nat n)"
  using n skip
proof (induction n)
  case 0
  then show ?case by (simp add: ds_stream_map_put_def)
next
  case (Suc n)
  note num = probe_number_Suc [of k n]
  have "ds_stream_map_put e m s i =
        ds_stream_map_put_loop e m s i (ds_stream_map_hash s m) (of_nat n)"
    using Suc by simp
  also have "\<dots> = ds_stream_map_put_loop e m s i (ds_stream_map_hash s m) (of_nat n + 1)"
    using Suc.prems num shape
    by (subst put_loop_step [OF shape]) (simp add: table_shape_def)
  finally show ?case
    using Suc.prems num(2) shape by (simp add: table_shape_def add.commute)
qed

lemma get_loop_absent:
  assumes shape: "table_shape k e m" and "\<And>i. i < 2 ^ k \<Longrightarrow> key (e ! i) \<noteq> s"
  shows "ds_stream_map_get_loop e m s h p = -1"
  using assms
proof (induction e m s h p rule: ds_stream_map_get_loop.induct)
  case (1 e m stream h p)
  have "unat ((h + p) AND m) < 2 ^ k"
    using "1.prems" by (simp add: table_shape_def unat_and_mask)
  then show ?case
    using 1 by (subst ds_stream_map_get_loop.simps) (simp add: Let_def)
qed

lemma put_loop_full:
  assumes shape: "table_shape k e m" and "\<And>i. i < 2 ^ k \<Longrightarrow> key (e ! i) \<noteq> 0"
  shows "ds_stream_map_put_loop e m s i h p = (e, -1)"
  using assms
proof (induction e m s i h p rule: ds_stream_map_put_loop.induct)
  case (1 e m stream i h p)
  have "unat ((h + p) AND m) < 2 ^ k"
    using "1.prems" by (simp add: table_shape_def unat_and_mask)
  then show ?case
    using 1 by (subst ds_stream_map_put_loop.simps) (simp add: Let_def)
qed

section \<open>The invariant and the map it represents\<close>

text \<open>
  Every stored key is reached by its own probe sequence after \<open>p\<close> slots that are occupied by
  other keys. An empty slot is one whose key is null.
\<close>

definition reached :: "nat \<Rightarrow> ds_stream_map_entry list \<Rightarrow> nat \<Rightarrow> bool" where
  "reached k e i \<longleftrightarrow>
     (\<exists>p < 2 ^ k. probe k (key (e ! i)) p = i \<and>
        (\<forall>q < p. key (e ! probe k (key (e ! i)) q) \<noteq> 0 \<and>
                 key (e ! probe k (key (e ! i)) q) \<noteq> key (e ! i)))"

definition stream_map_inv :: "nat \<Rightarrow> ds_stream_map_entry list \<Rightarrow> bool" where
  "stream_map_inv k e \<longleftrightarrow>
     k < 32 \<and> length e = 2 ^ k \<and> (\<forall>i < 2 ^ k. key (e ! i) \<noteq> 0 \<longrightarrow> reached k e i)"

definition stream_map_view :: "ds_stream_map_entry list \<Rightarrow> ptr \<Rightarrow> int option" where
  "stream_map_view e s =
     (if s = 0 then None else map_option idx (find (\<lambda>x. key x = s) e))"

definition free_slots :: "ds_stream_map_entry list \<Rightarrow> nat" where
  "free_slots e = length (filter (\<lambda>x. key x = 0) e)"

definition empty_stream_map :: "nat \<Rightarrow> ds_stream_map_entry list" where
  "empty_stream_map k = replicate (2 ^ k) \<lparr>key = 0, idx = 0\<rparr>"

lemma inv_shape: "stream_map_inv k e \<Longrightarrow> table_shape k e (mask k)"
  by (simp add: stream_map_inv_def table_shape_def)

lemma stream_map_inv_empty: "k < 32 \<Longrightarrow> stream_map_inv k (empty_stream_map k)"
  by (simp add: stream_map_inv_def empty_stream_map_def)

lemma stream_map_view_empty [simp]: "stream_map_view (empty_stream_map k) = Map.empty"
  by (auto simp: stream_map_view_def empty_stream_map_def fun_eq_iff find_None_iff)

lemma free_slots_empty [simp]: "free_slots (empty_stream_map k) = 2 ^ k"
  by (simp add: free_slots_def empty_stream_map_def)

lemma stream_map_key_unique:
  assumes inv: "stream_map_inv k e" and i: "i < 2 ^ k" and j: "j < 2 ^ k"
    and same: "key (e ! i) = key (e ! j)" and ne: "key (e ! i) \<noteq> 0"
  shows "i = j"
proof -
  let ?s = "key (e ! i)"
  obtain p where p: "probe k ?s p = i" "\<forall>q < p. key (e ! probe k ?s q) \<noteq> ?s"
    using inv i ne unfolding stream_map_inv_def reached_def by blast
  obtain q where q: "probe k ?s q = j" "\<forall>r < q. key (e ! probe k ?s r) \<noteq> ?s"
    using inv j ne same unfolding stream_map_inv_def reached_def by metis
  have "\<not> p < q" "\<not> q < p"
    using p q same by auto
  then show ?thesis
    using p(1) q(1) by (metis nat_neq_iff)
qed

lemma stream_map_view_slot:
  assumes inv: "stream_map_inv k e" and i: "i < 2 ^ k" and ne: "key (e ! i) \<noteq> 0"
  shows "stream_map_view e (key (e ! i)) = Some (idx (e ! i))"
proof -
  have len: "length e = 2 ^ k"
    using inv by (simp add: stream_map_inv_def)
  obtain x where x: "find (\<lambda>x. key x = key (e ! i)) e = Some x"
    using nth_mem [of i e] i unfolding len
    by (cases "find (\<lambda>x. key x = key (e ! i)) e") (auto simp: find_None_iff)
  then obtain j where "j < 2 ^ k" "x = e ! j" "key (e ! j) = key (e ! i)"
    using len by (auto simp: find_Some_iff)
  moreover from this have "j = i"
    using stream_map_key_unique [OF inv] i ne by metis
  ultimately show ?thesis
    using x ne by (simp add: stream_map_view_def)
qed

lemma stream_map_view_absent:
  assumes "stream_map_view e s = None" "s \<noteq> 0" "i < length e"
  shows "key (e ! i) \<noteq> s"
  using assms by (auto simp: stream_map_view_def find_None_iff dest: nth_mem)

lemma stream_map_view_None_iff:
  "stream_map_view e s = None \<longleftrightarrow> s = 0 \<or> (\<forall>i < length e. key (e ! i) \<noteq> s)"
  by (auto simp: stream_map_view_def find_None_iff in_set_conv_nth)

section \<open>Lookup and insertion implement the map\<close>

lemma stream_map_get_correct:
  assumes inv: "stream_map_inv k e" and s: "s \<noteq> 0"
  shows "ds_stream_map_get e (mask k) s =
         (case stream_map_view e s of None \<Rightarrow> -1 | Some i \<Rightarrow> i)"
proof (cases "\<exists>i < 2 ^ k. key (e ! i) = s")
  case True
  then obtain i where i: "i < 2 ^ k" "key (e ! i) = s" by blast
  obtain p where p: "p < 2 ^ k" "probe k s p = i"
    "\<And>q. q < p \<Longrightarrow> key (e ! probe k s q) \<noteq> s \<and> key (e ! probe k s q) \<noteq> 0"
    using inv i s unfolding stream_map_inv_def reached_def by blast
  have "k < 32"
    using inv by (simp add: stream_map_inv_def)
  have "ds_stream_map_get e (mask k) s = idx (e ! i)"
    by (subst get_loop_skip [OF inv_shape [OF inv] p(1,3)], assumption,
        subst get_loop_step [OF inv_shape [OF inv]])
       (simp add: probe_number_Suc [OF \<open>k < 32\<close> p(1)] p(1,2) i)
  then show ?thesis
    using stream_map_view_slot [OF inv i(1)] i(2) s by simp
next
  case False
  have "length e = 2 ^ k"
    using inv by (simp add: stream_map_inv_def)
  then have "stream_map_view e s = None"
    using False by (simp add: stream_map_view_None_iff)
  then show ?thesis
    using False get_loop_absent [OF inv_shape [OF inv]]
    by (auto simp: ds_stream_map_get_def)
qed

lemma stream_map_view_Some_iff:
  assumes inv: "stream_map_inv k e"
  shows "stream_map_view e s = Some v \<longleftrightarrow>
         s \<noteq> 0 \<and> (\<exists>i < 2 ^ k. key (e ! i) = s \<and> idx (e ! i) = v)"
proof -
  have "length e = 2 ^ k"
    using inv by (simp add: stream_map_inv_def)
  then show ?thesis
    using stream_map_view_slot [OF inv]
    by (auto simp: stream_map_view_def find_Some_iff) 
qed

text \<open>The first empty slot of the probe sequence is where an insertion goes.\<close>

lemma first_empty_slot:
  assumes inv: "stream_map_inv k e" and room: "0 < free_slots e"
  obtains n where "n < 2 ^ k" "key (e ! probe k s n) = 0"
    "\<And>q. q < n \<Longrightarrow> key (e ! probe k s q) \<noteq> 0"
proof -
  have len: "length e = 2 ^ k"
    using inv by (simp add: stream_map_inv_def)
  obtain j where "j < 2 ^ k" "key (e ! j) = 0"
    using room len by (auto simp: free_slots_def filter_empty_conv in_set_conv_nth)
  then obtain p where "p < 2 ^ k \<and> key (e ! probe k s p) = 0"
    using probe_surj [of j k s] by metis
  then have "\<exists>n. (n < 2 ^ k \<and> key (e ! probe k s n) = 0) \<and>
      (\<forall>q < n. \<not> (q < 2 ^ k \<and> key (e ! probe k s q) = 0))"
    by (rule exists_least_iff [THEN iffD1, OF exI])
  then show thesis
    using that by (meson less_trans)
qed

lemma insert_keeps_reached:
  assumes inv: "stream_map_inv k e" and n: "n < 2 ^ k" "key (e ! probe k s n) = 0"
    "\<And>q. q < n \<Longrightarrow> key (e ! probe k s q) \<noteq> 0"
    and s: "s \<noteq> 0" "stream_map_view e s = None"
  shows "stream_map_inv k (e[probe k s n := \<lparr>key = s, idx = i\<rparr>])" (is "stream_map_inv k ?e'")
proof -
  have len: "length e = 2 ^ k" and k: "k < 32"
    using inv by (auto simp: stream_map_inv_def)
  have absent: "\<And>j. j < 2 ^ k \<Longrightarrow> key (e ! j) \<noteq> s"
    using s len by (simp add: stream_map_view_None_iff)
  have "reached k ?e' j" if j: "j < 2 ^ k" "key (?e' ! j) \<noteq> 0" for j
  proof (cases "j = probe k s n")
    case True
    have "key (?e' ! probe k s q) \<noteq> 0 \<and> key (?e' ! probe k s q) \<noteq> s" if "q < n" for q
      using n(2) n(3) [OF that] absent [OF probe_less [of k s q]] len
      by (metis nth_list_update_neq)
    then show ?thesis
      using True n(1) len by (auto simp: reached_def intro!: exI [of _ n])
  next
    case False
    then have same: "?e' ! j = e ! j" by simp
    then obtain p where p: "p < 2 ^ k" "probe k (key (e ! j)) p = j"
      "\<And>q. q < p \<Longrightarrow> key (e ! probe k (key (e ! j)) q) \<noteq> 0 \<and>
                       key (e ! probe k (key (e ! j)) q) \<noteq> key (e ! j)"
      using inv j unfolding stream_map_inv_def reached_def by metis
    then have "?e' ! probe k (key (e ! j)) q = e ! probe k (key (e ! j)) q" if "q < p" for q
      using n(2) that by (metis nth_list_update_neq)
    then show ?thesis
      using p same unfolding reached_def by metis
  qed
  then show ?thesis
    using len k by (simp add: stream_map_inv_def)
qed

lemma stream_map_put_correct:
  assumes inv: "stream_map_inv k e" and s: "s \<noteq> 0" "stream_map_view e s = None"
    and room: "0 < free_slots e"
  obtains e' where "ds_stream_map_put e (mask k) s i = (e', 0)" "stream_map_inv k e'"
    "stream_map_view e' = (stream_map_view e)(s \<mapsto> i)" "free_slots e = Suc (free_slots e')"
proof -
  have len: "length e = 2 ^ k" and k: "k < 32"
    using inv by (auto simp: stream_map_inv_def)
  obtain n where n: "n < 2 ^ k" "key (e ! probe k s n) = 0"
    "\<And>q. q < n \<Longrightarrow> key (e ! probe k s q) \<noteq> 0"
    using first_empty_slot [OF inv room, of s] by blast
  define e' where "e' = e[probe k s n := \<lparr>key = s, idx = i\<rparr>]"
  have inv': "stream_map_inv k e'"
    unfolding e'_def by (rule insert_keeps_reached [OF inv n s])
  have put: "ds_stream_map_put e (mask k) s i = (e', 0)"
    by (subst put_loop_skip [OF inv_shape [OF inv] n(1,3)], assumption,
        subst put_loop_step [OF inv_shape [OF inv]])
       (simp add: probe_number_Suc [OF k n(1)] n e'_def)
  have other: "stream_map_view e' s' = Some v \<longleftrightarrow> ((stream_map_view e)(s \<mapsto> i)) s' = Some v"
    for s' v
  proof (cases "s' = s")
    case True
    have "e' ! probe k s n = \<lparr>key = s, idx = i\<rparr>"
      using len by (simp add: e'_def)
    then show ?thesis
      using True stream_map_view_slot [OF inv' probe_less [of k s n]] s(1) by auto
  next
    case False
    have "(j < 2 ^ k \<and> key (e' ! j) = s' \<and> idx (e' ! j) = v) \<longleftrightarrow>
          (j < 2 ^ k \<and> key (e ! j) = s' \<and> idx (e ! j) = v)" if "s' \<noteq> 0" for j
      using False that n(2) len by (auto simp: e'_def nth_list_update)
    then show ?thesis
      using False by (auto simp: stream_map_view_Some_iff [OF inv] stream_map_view_Some_iff [OF inv'])
  qed
  have "stream_map_view e' = (stream_map_view e)(s \<mapsto> i)"
  proof
    fix s'
    show "stream_map_view e' s' = ((stream_map_view e)(s \<mapsto> i)) s'"
      using other [of s'] by (metis option.exhaust)
  qed
  moreover have "free_slots e = Suc (free_slots e')"
    unfolding free_slots_def e'_def using n(2) len s(1)
    by (intro length_filter_update) simp_all
  ultimately show thesis
    using that put inv' by blast
qed

lemma stream_map_put_full:
  assumes inv: "stream_map_inv k e" and full: "free_slots e = 0"
  shows "ds_stream_map_put e (mask k) s i = (e, -1)"
proof -
  have "length e = 2 ^ k"
    using inv by (simp add: stream_map_inv_def)
  then have "\<And>i. i < 2 ^ k \<Longrightarrow> key (e ! i) \<noteq> 0"
    using full by (auto simp: free_slots_def filter_empty_conv)
  then show ?thesis
    unfolding ds_stream_map_put_def by (rule put_loop_full [OF inv_shape [OF inv]])
qed

section \<open>The interface the stream registry relies on\<close>

text \<open>
  A bounded table from keys to indices: what a lookup returns, what an insertion of a fresh key
  does while there is room, and what it does in a full table.
\<close>

locale index_table =
  fixes lookup :: "'t \<Rightarrow> 'k \<Rightarrow> int"
    and store :: "'t \<Rightarrow> 'k \<Rightarrow> int \<Rightarrow> 't \<times> int"
    and valid_key :: "'k \<Rightarrow> bool"
    and table_ok :: "'t \<Rightarrow> bool"
    and view :: "'t \<Rightarrow> 'k \<Rightarrow> int option"
    and room :: "'t \<Rightarrow> nat"
  assumes lookup_view:
      "table_ok t \<Longrightarrow> valid_key x \<Longrightarrow> lookup t x = (case view t x of None \<Rightarrow> -1 | Some i \<Rightarrow> i)"
    and store_fresh:
      "table_ok t \<Longrightarrow> valid_key x \<Longrightarrow> view t x = None \<Longrightarrow> 0 < room t \<Longrightarrow>
       snd (store t x i) = 0 \<and> table_ok (fst (store t x i)) \<and>
       view (fst (store t x i)) = (view t)(x \<mapsto> i) \<and> room t = Suc (room (fst (store t x i)))"
    and store_full:
      "table_ok t \<Longrightarrow> room t = 0 \<Longrightarrow> store t x i = (t, -1)"
begin

lemma lookup_hit_iff:
  assumes "table_ok t" "valid_key x" "\<forall>i \<in> ran (view t). 0 \<le> i"
  shows "0 \<le> lookup t x \<longleftrightarrow> x \<in> dom (view t)"
  using assms lookup_view [of t x] by (auto simp: ran_def split: option.splits)

lemma lookup_after_store:
  assumes "table_ok t" "valid_key x" "view t x = None" "0 < room t" "valid_key y"
  shows "lookup (fst (store t x i)) y = (if y = x then i else lookup t y)"
proof -
  have st: "table_ok (fst (store t x i))"
    "view (fst (store t x i)) = (view t)(x \<mapsto> i)"
    using store_fresh [OF assms(1-4), of i] by auto
  show ?thesis
    using lookup_view [OF st(1) assms(5)] lookup_view [OF assms(1,5)] by (simp add: st(2))
qed

end

definition valid_stream :: "ptr \<Rightarrow> bool" where
  "valid_stream s \<longleftrightarrow> s \<noteq> 0"

interpretation stream_table: index_table
  "\<lambda>e. ds_stream_map_get e (mask k)" "\<lambda>e. ds_stream_map_put e (mask k)"
  valid_stream "stream_map_inv k" stream_map_view free_slots
proof unfold_locales
  fix e s
  assume "stream_map_inv k e" "valid_stream s"
  then show "ds_stream_map_get e (mask k) s =
      (case stream_map_view e s of None \<Rightarrow> -1 | Some i \<Rightarrow> i)"
    by (simp add: stream_map_get_correct valid_stream_def)
next
  fix e s i
  assume "stream_map_inv k e" "valid_stream s" "stream_map_view e s = None" "0 < free_slots e"
  then obtain e' where "ds_stream_map_put e (mask k) s i = (e', 0)" "stream_map_inv k e'"
    "stream_map_view e' = (stream_map_view e)(s \<mapsto> i)" "free_slots e = Suc (free_slots e')"
    unfolding valid_stream_def by (rule stream_map_put_correct)
  then show "snd (ds_stream_map_put e (mask k) s i) = 0 \<and>
      stream_map_inv k (fst (ds_stream_map_put e (mask k) s i)) \<and>
      stream_map_view (fst (ds_stream_map_put e (mask k) s i)) = (stream_map_view e)(s \<mapsto> i) \<and>
      free_slots e = Suc (free_slots (fst (ds_stream_map_put e (mask k) s i)))"
    by simp
next
  fix e s i
  assume "stream_map_inv k e" "free_slots e = 0"
  then show "ds_stream_map_put e (mask k) s i = (e, -1)"
    by (rule stream_map_put_full)
qed

section \<open>A lookup that runs while other threads insert\<close>

text \<open>
  The lookup takes no lock. One step is one shared access: of the reader, the acquire load of a
  key and, on a match, the load of the index; of a writer, the store of the index and then the
  release store of the key into a slot that is still empty. Writers may store into any empty slot.
\<close>

datatype reader = Probing u32 | Hit nat | Returned int

inductive map_step ::
  "u32 \<Rightarrow> ptr \<Rightarrow> ds_stream_map_entry list \<times> reader \<Rightarrow> ds_stream_map_entry list \<times> reader \<Rightarrow> bool"
  for m :: u32 and s :: ptr where
  store_idx: "i < length e \<Longrightarrow> key (e ! i) = 0 \<Longrightarrow>
     map_step m s (e, r) (e[i := (e ! i)\<lparr>idx := v\<rparr>], r)"
| store_key: "i < length e \<Longrightarrow> key (e ! i) = 0 \<Longrightarrow> s' \<noteq> 0 \<Longrightarrow>
     map_step m s (e, r) (e[i := (e ! i)\<lparr>key := s'\<rparr>], r)"
| load_hit: "p < m + 1 \<Longrightarrow> j = unat ((ds_stream_map_hash s m + p) AND m) \<Longrightarrow> key (e ! j) = s \<Longrightarrow>
     map_step m s (e, Probing p) (e, Hit j)"
| load_empty: "p < m + 1 \<Longrightarrow> j = unat ((ds_stream_map_hash s m + p) AND m) \<Longrightarrow>
     key (e ! j) \<noteq> s \<Longrightarrow> key (e ! j) = 0 \<Longrightarrow>
     map_step m s (e, Probing p) (e, Returned (-1))"
| load_next: "p < m + 1 \<Longrightarrow> j = unat ((ds_stream_map_hash s m + p) AND m) \<Longrightarrow>
     key (e ! j) \<noteq> s \<Longrightarrow> key (e ! j) \<noteq> 0 \<Longrightarrow>
     map_step m s (e, Probing p) (e, Probing (p + 1))"
| load_end: "\<not> p < m + 1 \<Longrightarrow> map_step m s (e, Probing p) (e, Returned (-1))"
| load_idx: "map_step m s (e, Hit j) (e, Returned (idx (e ! j)))"

text \<open>What every interleaving keeps: the key's slot and the occupied slots before it.\<close>

fun reader_ok :: "nat \<Rightarrow> ptr \<Rightarrow> int \<Rightarrow> nat \<Rightarrow> ds_stream_map_entry list \<times> reader \<Rightarrow> bool" where
  "reader_ok k s v n (e, r) \<longleftrightarrow>
     length e = 2 ^ k \<and> key (e ! probe k s n) = s \<and> idx (e ! probe k s n) = v \<and>
     (\<forall>q < n. key (e ! probe k s q) \<noteq> 0 \<and> key (e ! probe k s q) \<noteq> s) \<and>
     (case r of Probing p \<Rightarrow> unat p \<le> n | Hit j \<Rightarrow> j = probe k s n | Returned w \<Rightarrow> w = v)"

lemma reader_ok_update:
  assumes ok: "reader_ok k s v n (e, r)" and s: "s \<noteq> 0" and i: "key (e ! i) = 0"
  shows "reader_ok k s v n (e[i := x], r)"
proof -
  have "e[i := x] ! probe k s q = e ! probe k s q" if "q \<le> n" for q
  proof -
    have "key (e ! probe k s q) \<noteq> 0"
      using ok s that by (cases "q = n") auto
    then have "probe k s q \<noteq> i"
      using i by auto
    then show ?thesis by simp
  qed
  then show ?thesis
    using ok by (auto simp: less_imp_le)
qed

lemma reader_ok_step:
  assumes step: "map_step (mask k) s (e, r) (e', r')" and ok: "reader_ok k s v n (e, r)"
    and s: "s \<noteq> 0" and k: "k < 32" and n: "n < 2 ^ k"
  shows "reader_ok k s v n (e', r')"
  using step
proof cases
  case (load_next p j)
  then have j: "j = probe k s (unat p)"
    by (simp add: probe_index [OF k])
  have "unat p \<noteq> n"
    using ok load_next j by auto
  then have "unat p < n"
    using ok load_next by simp
  moreover have "unat (p + 1) = Suc (unat p)"
    using load_next by (auto intro: unat_Suc_less)
  ultimately show ?thesis
    using ok load_next by simp
next
  case (load_empty p j)
  then have "j = probe k s (unat p)"
    by (simp add: probe_index [OF k])
  then have False
    using ok load_empty s by (cases "unat p = n") auto
  then show ?thesis ..
next
  case (load_hit p j)
  then have j: "j = probe k s (unat p)"
    by (simp add: probe_index [OF k])
  then have "unat p = n"
    using ok load_hit by (cases "unat p = n") auto
  then show ?thesis
    using ok load_hit j by simp
next
  case (load_end p)
  then have False
    using ok n by (simp add: word_less_nat_alt mask_plus_1 [OF k])
  then show ?thesis ..
next
  case (store_idx i v')
  then show ?thesis
    using reader_ok_update [OF ok s] by simp
next
  case (store_key i s')
  then show ?thesis
    using reader_ok_update [OF ok s] by simp
next
  case (load_idx j)
  then show ?thesis
    using ok by simp
qed

lemma reader_ok_start:
  assumes inv: "stream_map_inv k e" and s: "s \<noteq> 0" and v: "stream_map_view e s = Some v"
  obtains n where "n < 2 ^ k" "reader_ok k s v n (e, Probing 0)"
proof -
  obtain i where i: "i < 2 ^ k" "key (e ! i) = s" "idx (e ! i) = v"
    using v by (auto simp: stream_map_view_Some_iff [OF inv])
  obtain n where "n < 2 ^ k" "probe k s n = i"
    "\<forall>q < n. key (e ! probe k s q) \<noteq> 0 \<and> key (e ! probe k s q) \<noteq> s"
    using inv i s unfolding stream_map_inv_def reached_def by blast
  then show thesis
    using that inv i by (simp add: stream_map_inv_def)
qed

lemma reader_ok_steps:
  assumes "(map_step (mask k) s)\<^sup>*\<^sup>* (e, r) (e', r')" "reader_ok k s v n (e, r)"
    and "s \<noteq> 0" "k < 32" "n < 2 ^ k"
  shows "reader_ok k s v n (e', r')"
  using assms(1,2)
proof (induction rule: rtranclp_induct2)
  case refl
  then show ?case .
next
  case (step e1 r1 e2 r2)
  then show ?case
    using reader_ok_step [OF _ _ assms(3-5)] by blast
qed

section \<open>Properties\<close>

text \<open>
  C15: an insertion of a fresh stream into a table with a free slot succeeds; afterwards a lookup of
  that stream returns the stored index, a lookup of every other stream returns what it returned
  before, and one slot less is free; in a full table the insertion fails and changes nothing.
\<close>

theorem stream_map_put_get:
  assumes "stream_map_inv k e" "s \<noteq> 0" "stream_map_view e s = None"
  shows "if 0 < free_slots e
         then \<exists>e'. ds_stream_map_put e (mask k) s i = (e', 0) \<and> stream_map_inv k e' \<and>
                free_slots e = Suc (free_slots e') \<and>
                ds_stream_map_get e' (mask k) s = i \<and>
                (\<forall>y. y \<noteq> 0 \<and> y \<noteq> s \<longrightarrow>
                   ds_stream_map_get e' (mask k) y = ds_stream_map_get e (mask k) y)
         else ds_stream_map_put e (mask k) s i = (e, -1)"
proof (cases "0 < free_slots e")
  case True
  have vs: "valid_stream s"
    using assms(2) by (simp add: valid_stream_def)
  note st = stream_table.store_fresh [OF assms(1) vs assms(3) True, of i]
  note get = stream_table.lookup_after_store [OF assms(1) vs assms(3) True, of _ i]
  show ?thesis
    using True st get vs
    by (intro if_P [THEN iffD2] exI [of _ "fst (ds_stream_map_put e (mask k) s i)"])
       (auto simp: prod_eq_iff valid_stream_def)
next
  case False
  then show ?thesis
    using stream_table.store_full [OF assms(1)] by simp
qed

theorem stream_map_put_get_witness:
  "\<exists>e'. ds_stream_map_put (empty_stream_map 2) (mask 2) 0x10 7 = (e', 0) \<and>
        ds_stream_map_get e' (mask 2) 0x10 = 7 \<and> ds_stream_map_get e' (mask 2) 0x20 = -1"
proof -
  have "ds_stream_map_get (empty_stream_map 2) (mask 2) 0x20 = -1"
    using stream_map_get_correct [OF stream_map_inv_empty [of 2], of "0x20"] by simp
  then show ?thesis
    using stream_map_put_get [OF stream_map_inv_empty [of 2], of "0x10" 7] by force
qed

text \<open>
  C8: a lookup of a stream that was stored before the lookup began returns that stream's index in
  every interleaving with insertions by other threads, although it takes no lock and reads key and
  index in separate accesses; it never runs past the table and always can take a next step.
\<close>

theorem lock_free_get:
  assumes "stream_map_inv k e" "s \<noteq> 0" "stream_map_view e s = Some v"
    and "(map_step (mask k) s)\<^sup>*\<^sup>* (e, Probing 0) (e', r)"
  shows "case r of Probing p \<Rightarrow> unat p < 2 ^ k \<and> (\<exists>r'. map_step (mask k) s (e', r) (e', r'))
         | Hit j \<Rightarrow> key (e' ! j) = s \<and> map_step (mask k) s (e', r) (e', Returned v)
         | Returned w \<Rightarrow> w = v"
proof -
  obtain n where n: "n < 2 ^ k" "reader_ok k s v n (e, Probing 0)"
    using reader_ok_start assms(1-3) by blast
  have k: "k < 32"
    using assms(1) by (simp add: stream_map_inv_def)
  have ok: "reader_ok k s v n (e', r)"
    using reader_ok_steps [OF assms(4) n(2) assms(2) k n(1)] .
  show ?thesis
  proof (cases r)
    case (Probing p)
    then have "unat p < 2 ^ k"
      using ok n(1) by simp
    moreover from this have "p < mask k + 1"
      by (simp add: word_less_nat_alt mask_plus_1 [OF k])
    ultimately show ?thesis
      using Probing map_step.load_hit map_step.load_empty map_step.load_next by fastforce
  next
    case (Hit j)
    then show ?thesis
      using ok map_step.load_idx [of "mask k" s e' j] by auto
  next
    case (Returned w)
    then show ?thesis
      using ok by simp
  qed
qed

definition one_stream :: "ds_stream_map_entry list" where
  "one_stream = [\<lparr>key = 0, idx = 0\<rparr>, \<lparr>key = 0, idx = 0\<rparr>, \<lparr>key = 0, idx = 0\<rparr>, \<lparr>key = 0x10, idx = 7\<rparr>]"

lemma one_stream_inv: "stream_map_inv 2 one_stream"
proof -
  have "home 2 0x10 = 3"
    by (simp add: home_def ds_stream_map_hash_def hash_multiplier_def mask_eq_exp_minus_1)
  then have "reached 2 one_stream 3"
    by (auto simp: reached_def one_stream_def probe_def intro!: exI [of _ 0])
  moreover have "i = 3" if "i < 4" "key (one_stream ! i) \<noteq> 0" for i
    using that by (auto simp: one_stream_def less_Suc_eq eval_nat_numeral)
  ultimately show ?thesis
    by (auto simp: stream_map_inv_def) (simp add: one_stream_def)
qed

theorem lock_free_get_witness:
  "(map_step (mask 2) 0x10)\<^sup>*\<^sup>* (one_stream, Probing 0)
      (one_stream[0 := \<lparr>key = 0x20, idx = 1\<rparr>], Hit 3) \<and>
   map_step (mask 2) 0x10 (one_stream[0 := \<lparr>key = 0x20, idx = 1\<rparr>], Hit 3)
      (one_stream[0 := \<lparr>key = 0x20, idx = 1\<rparr>], Returned 7)"
proof -
  let ?e1 = "one_stream[0 := \<lparr>key = 0, idx = 1\<rparr>]" and ?e2 = "one_stream[0 := \<lparr>key = 0x20, idx = 1\<rparr>]"
  have 1: "map_step (mask 2) 0x10 (one_stream, Probing 0) (?e1, Probing 0)"
    using map_step.store_idx [of 0 one_stream "mask 2" "0x10" "Probing 0" 1]
    by (simp add: one_stream_def)
  have 2: "map_step (mask 2) 0x10 (?e1, Probing 0) (?e2, Probing 0)"
    using map_step.store_key [of 0 ?e1 "0x20" "mask 2" "0x10" "Probing 0"]
    by (simp add: one_stream_def)
  have 3: "map_step (mask 2) 0x10 (?e2, Probing 0) (?e2, Hit 3)"
    by (rule map_step.load_hit)
       (simp_all add: one_stream_def ds_stream_map_hash_def hash_multiplier_def mask_eq_exp_minus_1)
  have run: "(map_step (mask 2) 0x10)\<^sup>*\<^sup>* (one_stream, Probing 0) (?e2, Hit 3)"
    using 1 2 3 by (meson converse_rtranclp_into_rtranclp rtranclp.rtrancl_refl)
  have "stream_map_view one_stream 0x10 = Some 7"
    by (simp add: stream_map_view_def one_stream_def)
  then show ?thesis
    using run lock_free_get [OF one_stream_inv _ _ run, of 7] by simp
qed

end
