(* ===== verification/Aisio_Types.thy ===== *)
theory Aisio_Types
  imports Status
begin

text \<open>
  The data of the aisio backend, src/opends_aisio.c, with the descriptor of src/ds_bounce_kernel.h
  and the extent triple of src/ds_extent.h.

  Pointers into memory that hardware or other components write are 64-bit words; a pointer to a
  structure that only this backend owns is the structure itself or its index in the array that
  holds it: a file operation's handle is the registered file it points to, which is immutable after
  registration, and its stream is the index in the driver's stream array. The gate word of a
  stream, one word of the mapped array with the stream's own index, is a field of the stream. The
  mode tag of an operation and the union it selects are one datatype. The \<open>int\<close> counters count
  in-flight commands, of which there are at most as many as the queue is deep, so \<open>int\<close> is
  unbounded here.
\<close>

definition BOUNCE_SLOTS :: nat where "BOUNCE_SLOTS = 2"
definition NVME_MAX_NLB :: u64 where "NVME_MAX_NLB = 65536"
definition NVME_PRP_OFFSET_ALIGN :: u64 where "NVME_PRP_OFFSET_ALIGN = 4"
definition DEFAULT_BOUNCE_SIZE :: u32 where "DEFAULT_BOUNCE_SIZE = 128 * 1024"
definition MAX_STREAMS :: nat where "MAX_STREAMS = 8192"
definition FILE_OP_QUEUE_SIZE :: u32 where "FILE_OP_QUEUE_SIZE = 1024"
definition FILE_OP_QUEUE_MASK :: u32 where "FILE_OP_QUEUE_MASK = FILE_OP_QUEUE_SIZE - 1"

datatype file_op_state = FILE_OP_FREE | FILE_OP_PENDING | FILE_OP_IN_FLIGHT

record ds_extent =
  file_offset :: u64
  slba :: u64
  ext_length :: u64

record registered_file =
  fd :: int
  oflags :: u32

record ds_bounce_copy =
  desc_dst :: u64
  desc_src :: u64
  desc_n_bytes :: u32

record opends_stream =
  gate :: u32
  next_seq :: u32
  stream_bounce_buf :: ptr
  bounce_desc :: ds_bounce_copy

record opends_async_future =
  fut_done :: bool
  fut_result :: u64

record file_op_stream =
  size_p :: ptr
  file_offset_p :: ptr
  buf_offset_p :: ptr
  bytes_read_p :: ptr
  op_stream :: nat
  seq :: u32

record file_op_async =
  req_size :: u64
  req_file_offset :: u64
  req_buf_offset :: u64
  future :: ptr

datatype file_op_mode = FILE_OP_STREAM file_op_stream | FILE_OP_ASYNC file_op_async

record bounce_slot =
  slot_dst :: ptr
  slot_src :: ptr
  slot_nbytes :: u64

record file_op =
  op_mode :: file_op_mode
  is_write :: bool
  op_state :: file_op_state
  op_file :: registered_file
  buf_base :: ptr
  chunks_remaining :: int
  bounces_outstanding :: int
  bytes_acc :: u64
  op_err :: opends_op_error
  bounces :: "bounce_slot list"
  n_bounces :: nat
  op_bounce_buf :: ptr

text \<open>The fields of \<open>struct driver\<close> that describe the device and the read mode.\<close>

record nvme_geo =
  lba_size :: u32
  lba_shift :: u32
  mdts_nbytes :: u32
  assume_aligned_only :: bool

record read_cursor =
  cur_slba :: u64
  abs_dst :: ptr
  remaining :: u64

section \<open>The device's geometry\<close>

text \<open>
  The geometry part of \<open>open_device\<close>: what it takes from the structure that xNVMe returns and the
  two geometries it refuses (\<open>None\<close>, reported as \<open>-EIO\<close>). \<open>ctz32\<close> is \<open>__builtin_ctz\<close>.
\<close>

definition ctz32 :: "u32 \<Rightarrow> nat" where
  "ctz32 w = length (takeWhile (\<lambda>i. \<not> bit w i) [0..<32])"

record xnvme_geo =
  geo_lba_nbytes :: u32
  geo_nbytes :: u32
  geo_mdts_nbytes :: u32

definition open_device_geometry :: "bool \<Rightarrow> xnvme_geo \<Rightarrow> nvme_geo option" where
  "open_device_geometry aligned x =
     (let lba = (if geo_lba_nbytes x \<noteq> 0 then geo_lba_nbytes x else geo_nbytes x);
          mdts = (if geo_mdts_nbytes x \<noteq> 0 then geo_mdts_nbytes x else DEFAULT_BOUNCE_SIZE)
      in if lba = 0 then None
         else if lba AND (lba - 1) \<noteq> 0 then None
         else Some \<lparr>lba_size = lba, lba_shift = of_nat (ctz32 lba), mdts_nbytes = mdts,
                    assume_aligned_only = aligned\<rparr>)"

definition geo_ok :: "nvme_geo \<Rightarrow> bool" where
  "geo_ok g \<longleftrightarrow> unat (lba_shift g) < 32 \<and> lba_size g = 2 ^ unat (lba_shift g)"

end
