(* ===== verification/Read_Engine.thy ===== *)
theory Read_Engine
  imports Aisio_Types
begin

text \<open>
  The read path of one file operation in src/opends_aisio.c, from the request to the NVMe commands
  and bounce slots: \<open>chunk_cb\<close>, \<open>bounce_cb\<close>, \<open>submit_read_middle\<close>, \<open>submit_bounce_read\<close>,
  \<open>submit_stream_bounce\<close>, \<open>submit_host_bounce\<close>, \<open>submit_partial\<close> and \<open>start_read_op\<close>.

  xNVMe is not under src/, so what it answers is an argument: an \<open>attempt\<close> list says what each turn
  of a submission loop meets, in order. \<open>No_Ctx\<close>: no command context is free and the queue is
  poked; \<open>Busy\<close>: \<open>xnvme_nvm_read\<close> returns \<open>-EBUSY\<close>, the context goes back and the queue is poked;
  \<open>Reject\<close>: it returns another error; \<open>Accept\<close>: it takes the command. A poke runs the callbacks of
  the completions it lists, each the position of an in-flight command of this operation and whether
  its status is an error; completions of other operations touch only those. When the list ends
  inside a submission loop the loop is still waiting for the queue, which is the result \<open>None\<close>.
\<close>

datatype cmd_kind = Chunk | Bounce

record nvme_cmd =
  cmd_kind :: cmd_kind
  cmd_slba :: u64
  cmd_nlb :: u16
  cmd_dst :: ptr

datatype attempt =
    No_Ctx "(nat \<times> bool) list"
  | Busy "(nat \<times> bool) list"
  | Reject
  | Accept

text \<open>An operation with its stream, its in-flight commands and all commands accepted so far.\<close>

record qop =
  q_op :: file_op
  q_stream :: opends_stream
  q_inflight :: "nvme_cmd list"
  q_log :: "nvme_cmd list"

definition upd_op :: "(file_op \<Rightarrow> file_op) \<Rightarrow> qop \<Rightarrow> qop" where
  "upd_op f q = q\<lparr>q_op := f (q_op q)\<rparr>"

definition set_err :: "opends_op_error \<Rightarrow> qop \<Rightarrow> qop" where
  "set_err e = upd_op (\<lambda>op. op\<lparr>op_err := e\<rparr>)"

definition accept_cmd :: "nvme_cmd \<Rightarrow> qop \<Rightarrow> qop" where
  "accept_cmd c q = q\<lparr>q_inflight := q_inflight q @ [c], q_log := q_log q @ [c]\<rparr>"

section \<open>Completion callbacks\<close>

definition chunk_cb :: "u32 \<Rightarrow> nvme_cmd \<Rightarrow> bool \<Rightarrow> file_op \<Rightarrow> file_op" where
  "chunk_cb lba c failed op =
     (let op1 = (if failed then op\<lparr>op_err := OPENDS_DEVICE_DRIVER_ERROR\<rparr>
                 else op\<lparr>bytes_acc := bytes_acc op + (ucast (cmd_nlb c) + 1) * ucast lba\<rparr>)
      in op1\<lparr>chunks_remaining := chunks_remaining op1 - 1\<rparr>)"

definition bounce_cb :: "bool \<Rightarrow> file_op \<Rightarrow> file_op" where
  "bounce_cb failed op =
     (let op1 = (if failed \<and> op_err op = OPENDS_SUCCESS
                 then op\<lparr>op_err := OPENDS_DEVICE_DRIVER_ERROR\<rparr> else op)
      in op1\<lparr>bounces_outstanding := bounces_outstanding op1 - 1\<rparr>)"

definition complete_cmd :: "u32 \<Rightarrow> nvme_cmd \<Rightarrow> bool \<Rightarrow> file_op \<Rightarrow> file_op" where
  "complete_cmd lba c failed op =
     (case cmd_kind c of Chunk \<Rightarrow> chunk_cb lba c failed op | Bounce \<Rightarrow> bounce_cb failed op)"

fun deliver :: "u32 \<Rightarrow> nat \<times> bool \<Rightarrow> qop \<Rightarrow> qop" where
  "deliver lba (i, failed) q =
     (if i < length (q_inflight q)
      then q\<lparr>q_op := complete_cmd lba (q_inflight q ! i) failed (q_op q),
             q_inflight := take i (q_inflight q) @ drop (Suc i) (q_inflight q)\<rparr>
      else q)"

definition queue_poke :: "u32 \<Rightarrow> (nat \<times> bool) list \<Rightarrow> qop \<Rightarrow> qop" where
  "queue_poke lba cs q = fold (deliver lba) cs q"

section \<open>Submission\<close>

type_synonym 'a submitted = "('a \<times> attempt list \<times> qop) option"

definition max_chunk_lbas :: "nvme_geo \<Rightarrow> u64" where
  "max_chunk_lbas g = ucast (drop_bit (unat (lba_shift g)) (mdts_nbytes g))"

definition chunk_lbas :: "nvme_geo \<Rightarrow> u64 \<Rightarrow> u64" where
  "chunk_lbas g left = min (min left (max_chunk_lbas g)) NVME_MAX_NLB"

definition chunk_cmd :: "nvme_geo \<Rightarrow> read_cursor \<Rightarrow> u64 \<Rightarrow> u64 \<Rightarrow> nvme_cmd" where
  "chunk_cmd g c lbas_done n =
     \<lparr>cmd_kind = Chunk, cmd_slba = cur_slba c + lbas_done, cmd_nlb = ucast (n - 1),
      cmd_dst = abs_dst c + lbas_done * ucast (lba_size g)\<rparr>"

text \<open>The loop of \<open>submit_read_middle\<close>; the first component of the result is its return code.\<close>

fun submit_read_middle_loop ::
  "nvme_geo \<Rightarrow> read_cursor \<Rightarrow> u64 \<Rightarrow> attempt list \<Rightarrow> u64 \<Rightarrow> qop \<Rightarrow> int submitted" where
  "submit_read_middle_loop g c middle [] lbas_done q =
     (if lbas_done < middle then None else Some (0, [], q))"
| "submit_read_middle_loop g c middle (a # as) lbas_done q =
     (if lbas_done < middle then
        (let n = chunk_lbas g (middle - lbas_done);
             q1 = upd_op (\<lambda>op. op\<lparr>chunks_remaining := chunks_remaining op + 1\<rparr>) q;
             q2 = upd_op (\<lambda>op. op\<lparr>chunks_remaining := chunks_remaining op - 1\<rparr>) q1
         in case a of
              No_Ctx cs \<Rightarrow> submit_read_middle_loop g c middle as lbas_done (queue_poke (lba_size g) cs q)
            | Busy cs \<Rightarrow> submit_read_middle_loop g c middle as lbas_done (queue_poke (lba_size g) cs q2)
            | Reject \<Rightarrow> Some (-1, as, set_err OPENDS_DEVICE_DRIVER_ERROR q2)
            | Accept \<Rightarrow> submit_read_middle_loop g c middle as (lbas_done + n)
                          (accept_cmd (chunk_cmd g c lbas_done n) q1))
      else Some (0, a # as, q))"

text \<open>The cursor advances only when the loop ran to its end.\<close>

definition submit_read_middle ::
  "nvme_geo \<Rightarrow> read_cursor \<Rightarrow> u64 \<Rightarrow> attempt list \<Rightarrow> qop \<Rightarrow> (int \<times> read_cursor) submitted" where
  "submit_read_middle g c middle as q =
     (case submit_read_middle_loop g c middle as 0 q of
        None \<Rightarrow> None
      | Some (rc, as', q') \<Rightarrow>
          if rc < 0 then Some ((rc, c), as', q')
          else Some ((0, \<lparr>cur_slba = cur_slba c + middle,
                          abs_dst = abs_dst c + middle * ucast (lba_size g),
                          remaining = remaining c - middle * ucast (lba_size g)\<rparr>), as', q'))"

text \<open>The loops of \<open>submit_bounce_read\<close> that issue its one command.\<close>

fun submit_bounce_loop :: "nvme_geo \<Rightarrow> nvme_cmd \<Rightarrow> attempt list \<Rightarrow> qop \<Rightarrow> int submitted" where
  "submit_bounce_loop g c [] q = None"
| "submit_bounce_loop g c (a # as) q =
     (case a of
        No_Ctx cs \<Rightarrow> submit_bounce_loop g c as (queue_poke (lba_size g) cs q)
      | Busy cs \<Rightarrow> submit_bounce_loop g c as (queue_poke (lba_size g) cs q)
      | Reject \<Rightarrow> Some (-1, as, set_err OPENDS_DEVICE_DRIVER_ERROR q)
      | Accept \<Rightarrow> Some (0, as, accept_cmd c q))"

definition submit_bounce_read ::
  "nvme_geo \<Rightarrow> ptr \<Rightarrow> ptr \<Rightarrow> u64 \<Rightarrow> u64 \<Rightarrow> u64 \<Rightarrow> attempt list \<Rightarrow> qop \<Rightarrow> int submitted" where
  "submit_bounce_read g bounce_buf dst lba src_off nbytes as q =
     (if n_bounces (q_op q) \<ge> BOUNCE_SLOTS \<or> src_off + nbytes > ucast (lba_size g)
      then Some (-1, as, set_err OPENDS_INTERNAL_ERROR q)
      else
        let slot = n_bounces (q_op q);
            bounce = bounce_buf + of_nat slot * ucast (lba_size g);
            c = \<lparr>cmd_kind = Bounce, cmd_slba = lba, cmd_nlb = 0, cmd_dst = bounce\<rparr>
        in case submit_bounce_loop g c as q of
             None \<Rightarrow> None
           | Some (rc, as', q') \<Rightarrow>
               if rc < 0 then Some (-1, as', q')
               else Some (0, as', upd_op (\<lambda>op. op\<lparr>
                      bounces := (bounces op)[slot := \<lparr>slot_dst = dst, slot_src = bounce + src_off,
                                                       slot_nbytes = nbytes\<rparr>],
                      n_bounces := slot + 1,
                      bounces_outstanding := bounces_outstanding op + 1,
                      bytes_acc := bytes_acc op + nbytes\<rparr>) q'))"

definition submit_stream_bounce ::
  "nvme_geo \<Rightarrow> ptr \<Rightarrow> u64 \<Rightarrow> u64 \<Rightarrow> attempt list \<Rightarrow> qop \<Rightarrow> int submitted" where
  "submit_stream_bounce g dst lba nbytes as q =
     (if n_bounces (q_op q) \<noteq> 0 then Some (-1, as, set_err OPENDS_INTERNAL_ERROR q)
      else case submit_bounce_read g (stream_bounce_buf (q_stream q)) dst lba 0 nbytes as q of
             None \<Rightarrow> None
           | Some (rc, as', q') \<Rightarrow>
               if rc < 0 then Some (-1, as', q')
               else Some (0, as', q'\<lparr>q_stream := (q_stream q')\<lparr>bounce_desc :=
                      (bounce_desc (q_stream q'))\<lparr>desc_dst := dst,
                         desc_src := stream_bounce_buf (q_stream q')\<rparr>\<rparr>\<rparr>))"

text \<open>\<open>alloc\<close> is what \<open>xnvme_buf_alloc\<close> returns if the operation has no bounce buffer yet.\<close>

definition submit_host_bounce ::
  "nvme_geo \<Rightarrow> ptr \<Rightarrow> ptr \<Rightarrow> u64 \<Rightarrow> u64 \<Rightarrow> u64 \<Rightarrow> attempt list \<Rightarrow> qop \<Rightarrow> int submitted" where
  "submit_host_bounce g alloc dst lba src_off nbytes as q =
     (let q1 = (if op_bounce_buf (q_op q) = 0
                then upd_op (\<lambda>op. op\<lparr>op_bounce_buf := alloc\<rparr>) q else q)
      in if op_bounce_buf (q_op q1) = 0 then Some (-1, as, set_err OPENDS_INTERNAL_ERROR q1)
         else submit_bounce_read g (op_bounce_buf (q_op q1)) dst lba src_off nbytes as q1)"

definition submit_partial ::
  "nvme_geo \<Rightarrow> ptr \<Rightarrow> ptr \<Rightarrow> u64 \<Rightarrow> u64 \<Rightarrow> u64 \<Rightarrow> attempt list \<Rightarrow> qop \<Rightarrow> int submitted" where
  "submit_partial g alloc dst lba src_off nbytes as q =
     (if assume_aligned_only g then Some (-1, as, set_err OPENDS_INVALID_VALUE q)
      else case op_mode (q_op q) of
             FILE_OP_STREAM s \<Rightarrow>
               if src_off \<noteq> 0 then Some (-1, as, set_err OPENDS_INVALID_VALUE q)
               else submit_stream_bounce g dst lba nbytes as q
           | FILE_OP_ASYNC a \<Rightarrow> submit_host_bounce g alloc dst lba src_off nbytes as q)"

section \<open>One extent\<close>

text \<open>
  The body of the loop of \<open>start_read_op\<close> for an extent that the request overlaps, in its three
  parts. A negative return code is the \<open>goto out\<close> of the C code.
\<close>

definition lba_mask :: "nvme_geo \<Rightarrow> u64" where
  "lba_mask g = ucast (lba_size g - 1)"

definition head_bytes :: "nvme_geo \<Rightarrow> u64 \<Rightarrow> u64 \<Rightarrow> u64" where
  "head_bytes g head_off left =
     (if ucast (lba_size g) - head_off > left then left else ucast (lba_size g) - head_off)"

definition read_head ::
  "nvme_geo \<Rightarrow> ptr \<Rightarrow> u64 \<Rightarrow> read_cursor \<Rightarrow> attempt list \<Rightarrow> qop \<Rightarrow> (int \<times> read_cursor) submitted" where
  "read_head g alloc head_off c as q =
     (if head_off \<noteq> 0 then
        let hb = head_bytes g head_off (remaining c)
        in if remaining c - hb \<ge> ucast (lba_size g) \<and>
              hb AND (NVME_PRP_OFFSET_ALIGN - 1) \<noteq> 0
           then Some ((-1, c), as, set_err OPENDS_INVALID_VALUE q)
           else case submit_partial g alloc (abs_dst c) (cur_slba c) head_off hb as q of
                  None \<Rightarrow> None
                | Some (rc, as', q') \<Rightarrow>
                    if rc < 0 then Some ((-1, c), as', q')
                    else Some ((0, \<lparr>cur_slba = cur_slba c + 1, abs_dst = abs_dst c + hb,
                                    remaining = remaining c - hb\<rparr>), as', q')
      else Some ((0, c), as, q))"

definition read_tail ::
  "nvme_geo \<Rightarrow> ptr \<Rightarrow> u64 \<Rightarrow> read_cursor \<Rightarrow> attempt list \<Rightarrow> qop \<Rightarrow> int submitted" where
  "read_tail g alloc tail_bytes c as q =
     (if tail_bytes \<noteq> 0
      then case submit_partial g alloc (abs_dst c) (cur_slba c) 0 tail_bytes as q of
             None \<Rightarrow> None
           | Some (rc, as', q') \<Rightarrow> if rc < 0 then Some (-1, as', q') else Some (0, as', q')
      else Some (0, as, q))"

definition read_body ::
  "nvme_geo \<Rightarrow> ptr \<Rightarrow> read_cursor \<Rightarrow> attempt list \<Rightarrow> qop \<Rightarrow> int submitted" where
  "read_body g alloc c as q =
     (let tail_bytes = remaining c AND lba_mask g;
          middle_lbas = drop_bit (unat (lba_shift g)) (remaining c - tail_bytes)
      in if middle_lbas \<noteq> 0
         then case submit_read_middle g c middle_lbas as q of
                None \<Rightarrow> None
              | Some ((rc, c'), as', q') \<Rightarrow>
                  if rc < 0 then Some (-1, as', q') else read_tail g alloc tail_bytes c' as' q'
         else read_tail g alloc tail_bytes c as q)"

definition span_start :: "u64 \<Rightarrow> ds_extent \<Rightarrow> u64" where
  "span_start req_start e = max req_start (file_offset e)"

definition span_end :: "u64 \<Rightarrow> ds_extent \<Rightarrow> u64" where
  "span_end req_end e = min req_end (file_offset e + ext_length e)"

definition read_extent ::
  "nvme_geo \<Rightarrow> ptr \<Rightarrow> u64 \<Rightarrow> u64 \<Rightarrow> ptr \<Rightarrow> ds_extent \<Rightarrow> attempt list \<Rightarrow> qop \<Rightarrow> int submitted" where
  "read_extent g alloc req_start req_end dst_base e as q =
     (let off_in_ext = span_start req_start e - file_offset e;
          buf_off = span_start req_start e - req_start;
          c = \<lparr>cur_slba = slba e + drop_bit (unat (lba_shift g)) off_in_ext,
               abs_dst = dst_base + buf_off,
               remaining = span_end req_end e - span_start req_start e\<rparr>
      in case read_head g alloc (off_in_ext AND lba_mask g) c as q of
           None \<Rightarrow> None
         | Some ((rc, c'), as', q') \<Rightarrow>
             if rc < 0 then Some (-1, as', q') else read_body g alloc c' as' q')"

text \<open>The loop over the extents, with its \<open>break\<close> and \<open>continue\<close>.\<close>

fun read_extents ::
  "nvme_geo \<Rightarrow> ptr \<Rightarrow> u64 \<Rightarrow> u64 \<Rightarrow> ptr \<Rightarrow> ds_extent list \<Rightarrow> attempt list \<Rightarrow> qop
    \<Rightarrow> (attempt list \<times> qop) option" where
  "read_extents g alloc req_start req_end dst_base [] as q = Some (as, q)"
| "read_extents g alloc req_start req_end dst_base (e # es) as q =
     (if file_offset e \<ge> req_end then Some (as, q)
      else if span_start req_start e \<ge> span_end req_end e
      then read_extents g alloc req_start req_end dst_base es as q
      else case read_extent g alloc req_start req_end dst_base e as q of
             None \<Rightarrow> None
           | Some (rc, as', q') \<Rightarrow>
               if rc < 0 then Some (as', q')
               else read_extents g alloc req_start req_end dst_base es as' q')"

section \<open>Extents of a file\<close>

text \<open>
  \<open>resolve_extents\<close>. \<open>homic i\<close> is what \<open>homic_get_extents\<close> answers to attempt \<open>i\<close>: its return code
  and, with it, the extents. The error of the result is the negative errno.
\<close>

definition ESTALE :: int where "ESTALE = 116"
definition ENOMEM :: int where "ENOMEM = 12"
definition ESTALE_RETRIES :: nat where "ESTALE_RETRIES = 6000"

fun resolve_loop ::
  "(nat \<Rightarrow> int \<times> ds_extent list) \<Rightarrow> nat \<Rightarrow> nat \<Rightarrow> int \<times> ds_extent list \<Rightarrow> int \<times> ds_extent list" where
  "resolve_loop homic 0 i r = r"
| "resolve_loop homic (Suc n) i r =
     (let r' = homic i in if fst r' \<noteq> - ESTALE then r' else resolve_loop homic n (Suc i) r')"

definition resolve_extents ::
  "(nat \<Rightarrow> int \<times> ds_extent list) \<Rightarrow> bool \<Rightarrow> int + ds_extent list" where
  "resolve_extents homic calloc_ok =
     (let r = resolve_loop homic ESTALE_RETRIES 0 (- ESTALE, [])
      in if fst r < 0 then Inl (fst r)
         else if \<not> calloc_ok then Inl (- ENOMEM)
         else Inr (snd r))"

section \<open>A read operation\<close>

text \<open>
  The request of an operation: size, file offset and first destination address. A stream operation
  reads them through the caller's pointers, from \<open>cells\<close>, when it is dispatched.
\<close>

definition op_request :: "(ptr \<Rightarrow> u64) \<Rightarrow> file_op \<Rightarrow> u64 \<times> u64 \<times> ptr" where
  "op_request cells op =
     (case op_mode op of
        FILE_OP_STREAM s \<Rightarrow> (cells (size_p s), cells (file_offset_p s),
                             buf_base op + cells (buf_offset_p s))
      | FILE_OP_ASYNC a \<Rightarrow> (req_size a, req_file_offset a, buf_base op + req_buf_offset a))"

definition start_read_op ::
  "nvme_geo \<Rightarrow> (ptr \<Rightarrow> u64) \<Rightarrow> ptr \<Rightarrow> int + ds_extent list \<Rightarrow> attempt list \<Rightarrow> qop
    \<Rightarrow> (attempt list \<times> qop) option" where
  "start_read_op g cells alloc extents as q =
     (if lba_size g = 0 then Some (as, set_err OPENDS_INTERNAL_ERROR q)
      else if drop_bit (unat (lba_shift g)) (mdts_nbytes g) = 0
      then Some (as, set_err OPENDS_INVALID_VALUE q)
      else (case op_request cells (q_op q) of (len, req_start, dst_base) \<Rightarrow>
        if len > - 1 - req_start then Some (as, set_err OPENDS_INVALID_VALUE q)
        else (case extents of
               Inl rc \<Rightarrow> Some (as, set_err OPENDS_FS_SETUP_ERROR q)
             | Inr es \<Rightarrow> read_extents g alloc req_start (req_start + len) dst_base es as q)))"

end
