(* ===== verification/Read_Invariant.thy ===== *)
theory Read_Invariant
  imports Read_Engine
begin

text \<open>
  What every read operation keeps true while it submits commands and takes completions: its two
  counters count its in-flight commands of each kind, the bytes it has accounted for and those still
  in flight add up to the bytes of everything it submitted as long as no error is recorded, and the
  bounce commands it submitted line up with its bounce slots. The invariant is proved for each
  operation of the engine and holds for every sequence of answers of the device.
\<close>

section \<open>The invariant\<close>

definition is_bounce :: "nvme_cmd \<Rightarrow> bool" where
  "is_bounce c \<longleftrightarrow> cmd_kind c = Bounce"

definition chunks_of :: "nvme_cmd list \<Rightarrow> nvme_cmd list" where
  "chunks_of cs = filter (\<lambda>c. \<not> is_bounce c) cs"

definition bounces_of :: "nvme_cmd list \<Rightarrow> nvme_cmd list" where
  "bounces_of cs = filter is_bounce cs"

definition cmd_bytes :: "nvme_geo \<Rightarrow> nvme_cmd \<Rightarrow> u64" where
  "cmd_bytes g c = (ucast (cmd_nlb c) + 1) * ucast (lba_size g)"

definition chunk_bytes :: "nvme_geo \<Rightarrow> nvme_cmd list \<Rightarrow> u64" where
  "chunk_bytes g cs = sum_list (map (cmd_bytes g) (chunks_of cs))"

definition slots :: "file_op \<Rightarrow> bounce_slot list" where
  "slots op = take (n_bounces op) (bounces op)"

definition bounce_base :: "qop \<Rightarrow> ptr" where
  "bounce_base q = (case op_mode (q_op q) of
     FILE_OP_STREAM s \<Rightarrow> stream_bounce_buf (q_stream q) | FILE_OP_ASYNC a \<Rightarrow> op_bounce_buf (q_op q))"

text \<open>Slot \<open>i\<close> and its command: the command fills the slot, the copy reads inside it.\<close>

definition slot_ok :: "nvme_geo \<Rightarrow> ptr \<Rightarrow> nat \<Rightarrow> nvme_cmd \<Rightarrow> bounce_slot \<Rightarrow> bool" where
  "slot_ok g base i c b \<longleftrightarrow>
     cmd_nlb c = 0 \<and> cmd_dst c = base + of_nat i * ucast (lba_size g) \<and>
     (\<exists>off. slot_src b = cmd_dst c + off \<and> unat off + unat (slot_nbytes b) \<le> unat (lba_size g))"

definition slots_ok :: "nvme_geo \<Rightarrow> qop \<Rightarrow> bool" where
  "slots_ok g q \<longleftrightarrow>
     length (bounces (q_op q)) = BOUNCE_SLOTS \<and> n_bounces (q_op q) \<le> BOUNCE_SLOTS \<and>
     length (bounces_of (q_log q)) = n_bounces (q_op q) \<and>
     (0 < n_bounces (q_op q) \<and> op_bounce_buf (q_op q) = 0 \<longrightarrow>
        (\<exists>s. op_mode (q_op q) = FILE_OP_STREAM s)) \<and>
     (\<forall>i < n_bounces (q_op q). slot_ok g (bounce_base q) i (bounces_of (q_log q) ! i) (bounces (q_op q) ! i))"

definition counters_ok :: "qop \<Rightarrow> bool" where
  "counters_ok q \<longleftrightarrow>
     chunks_remaining (q_op q) = int (length (chunks_of (q_inflight q))) \<and>
     bounces_outstanding (q_op q) = int (length (bounces_of (q_inflight q)))"

definition bytes_ok :: "nvme_geo \<Rightarrow> qop \<Rightarrow> bool" where
  "bytes_ok g q \<longleftrightarrow>
     (op_err (q_op q) = OPENDS_SUCCESS \<longrightarrow>
      bytes_acc (q_op q) + chunk_bytes g (q_inflight q) =
      chunk_bytes g (q_log q) + sum_list (map slot_nbytes (slots (q_op q))))"

definition op_inv :: "nvme_geo \<Rightarrow> qop \<Rightarrow> bool" where
  "op_inv g q \<longleftrightarrow> counters_ok q \<and> bytes_ok g q \<and> slots_ok g q"

text \<open>An operation as \<open>dispatch_pending\<close> hands it to \<open>start_read_op\<close>.\<close>

definition fresh_op :: "qop \<Rightarrow> bool" where
  "fresh_op q \<longleftrightarrow>
     chunks_remaining (q_op q) = 0 \<and> bounces_outstanding (q_op q) = 0 \<and> bytes_acc (q_op q) = 0 \<and>
     op_err (q_op q) = OPENDS_SUCCESS \<and> n_bounces (q_op q) = 0 \<and>
     length (bounces (q_op q)) = BOUNCE_SLOTS \<and> q_inflight q = [] \<and> q_log q = []"

lemma fresh_op_inv: "fresh_op q \<Longrightarrow> op_inv g q"
  by (simp add: fresh_op_def op_inv_def counters_ok_def bytes_ok_def slots_ok_def chunk_bytes_def
      chunks_of_def bounces_of_def slots_def)

lemmas inv_defs = op_inv_def counters_ok_def bytes_ok_def slots_ok_def

lemma chunks_of_simps [simp]:
  "chunks_of [] = []"
  "chunks_of (xs @ ys) = chunks_of xs @ chunks_of ys"
  "chunks_of (c # cs) = (if is_bounce c then chunks_of cs else c # chunks_of cs)"
  by (simp_all add: chunks_of_def)

lemma bounces_of_simps [simp]:
  "bounces_of [] = []"
  "bounces_of (xs @ ys) = bounces_of xs @ bounces_of ys"
  "bounces_of (c # cs) = (if is_bounce c then c # bounces_of cs else bounces_of cs)"
  by (simp_all add: bounces_of_def)

lemma chunk_bytes_simps [simp]:
  "chunk_bytes g [] = 0"
  "chunk_bytes g (xs @ ys) = chunk_bytes g xs + chunk_bytes g ys"
  "chunk_bytes g (c # cs) = (if is_bounce c then 0 else cmd_bytes g c) + chunk_bytes g cs"
  by (simp_all add: chunk_bytes_def)

lemma upd_op_simps [simp]:
  "q_op (upd_op f q) = f (q_op q)" "q_stream (upd_op f q) = q_stream q"
  "q_inflight (upd_op f q) = q_inflight q" "q_log (upd_op f q) = q_log q"
  by (simp_all add: upd_op_def)

lemma accept_cmd_simps [simp]:
  "q_op (accept_cmd c q) = q_op q" "q_stream (accept_cmd c q) = q_stream q"
  "q_inflight (accept_cmd c q) = q_inflight q @ [c]" "q_log (accept_cmd c q) = q_log q @ [c]"
  by (simp_all add: accept_cmd_def)

lemma set_err_simps [simp]:
  "q_op (set_err e q) = (q_op q)\<lparr>op_err := e\<rparr>" "q_stream (set_err e q) = q_stream q"
  "q_inflight (set_err e q) = q_inflight q" "q_log (set_err e q) = q_log q"
  by (simp_all add: set_err_def)

section \<open>Completions\<close>

text \<open>What a poke leaves alone.\<close>

definition same_plan :: "qop \<Rightarrow> qop \<Rightarrow> bool" where
  "same_plan q q' \<longleftrightarrow>
     q_log q' = q_log q \<and> q_stream q' = q_stream q \<and> op_mode (q_op q') = op_mode (q_op q) \<and>
     bounces (q_op q') = bounces (q_op q) \<and> n_bounces (q_op q') = n_bounces (q_op q) \<and>
     op_bounce_buf (q_op q') = op_bounce_buf (q_op q) \<and> buf_base (q_op q') = buf_base (q_op q) \<and>
     op_state (q_op q') = op_state (q_op q) \<and> is_write (q_op q') = is_write (q_op q) \<and>
     op_file (q_op q') = op_file (q_op q) \<and>
     (op_err (q_op q) \<noteq> OPENDS_SUCCESS \<longrightarrow> op_err (q_op q') \<noteq> OPENDS_SUCCESS)"

lemma same_plan_refl [simp]: "same_plan q q"
  by (simp add: same_plan_def)

lemma same_plan_trans: "same_plan q q' \<Longrightarrow> same_plan q' q'' \<Longrightarrow> same_plan q q''"
  by (auto simp: same_plan_def)

lemma deliver_same_plan: "same_plan q (deliver lba x q)"
  by (cases x) (auto simp: same_plan_def complete_cmd_def chunk_cb_def bounce_cb_def Let_def
      split: cmd_kind.splits)

lemma poke_same_plan: "same_plan q (queue_poke lba cs q)"
  unfolding queue_poke_def
  by (induction cs arbitrary: q) (auto intro: same_plan_trans deliver_same_plan)

lemma filter_out_nth:
  assumes "i < length xs"
  shows "length (filter P xs) =
         length (filter P (take i xs @ drop (Suc i) xs)) + (if P (xs ! i) then 1 else 0)"
  using remove_nth_filter_length [OF assms, of P] by simp

lemma chunk_bytes_remove:
  assumes "i < length cs"
  shows "chunk_bytes g (take i cs @ drop (Suc i) cs) =
         chunk_bytes g cs - (if is_bounce (cs ! i) then 0 else cmd_bytes g (cs ! i))"
proof -
  have "chunk_bytes g cs = chunk_bytes g (take i cs @ cs ! i # drop (Suc i) cs)"
    using assms by (simp only: id_take_nth_drop [symmetric])
  then show ?thesis by simp
qed

lemma slots_cong:
  "bounces op' = bounces op \<Longrightarrow> n_bounces op' = n_bounces op \<Longrightarrow> slots op' = slots op"
  by (simp add: slots_def)

lemma slots_ok_same_plan: "same_plan q q' \<Longrightarrow> slots_ok g q' = slots_ok g q"
  by (simp add: same_plan_def slots_ok_def bounce_base_def cong: file_op_mode.case_cong)

lemma deliver_inv:
  assumes inv: "op_inv g q"
  shows "op_inv g (deliver (lba_size g) x q)"
proof (cases x)
  case (Pair i failed)
  let ?q' = "deliver (lba_size g) (i, failed) q"
  show ?thesis
  proof (cases "i < length (q_inflight q)")
    case True
    let ?c = "q_inflight q ! i"
    have cnt: "length (chunks_of (q_inflight q)) =
        length (chunks_of (take i (q_inflight q) @ drop (Suc i) (q_inflight q))) +
        (if is_bounce ?c then 0 else 1)"
      "length (bounces_of (q_inflight q)) =
        length (bounces_of (take i (q_inflight q) @ drop (Suc i) (q_inflight q))) +
        (if is_bounce ?c then 1 else 0)"
      using filter_out_nth [OF True, of "\<lambda>c. \<not> is_bounce c"] filter_out_nth [OF True, of is_bounce]
      by (auto simp: chunks_of_def bounces_of_def)
    have "counters_ok ?q'"
      using inv True cnt
      by (auto simp: op_inv_def counters_ok_def complete_cmd_def chunk_cb_def bounce_cb_def
          is_bounce_def split: cmd_kind.splits)
    moreover have "bytes_ok g ?q'"
      using inv True chunk_bytes_remove [OF True, of g]
      by (auto simp: op_inv_def bytes_ok_def complete_cmd_def chunk_cb_def bounce_cb_def
          is_bounce_def slots_def cmd_bytes_def Let_def algebra_simps split: cmd_kind.splits)
    moreover have "slots_ok g ?q'"
      using inv slots_ok_same_plan [OF deliver_same_plan] unfolding op_inv_def by blast
    ultimately show ?thesis
      using Pair by (simp add: op_inv_def)
  next
    case False
    with inv Pair show ?thesis by simp
  qed
qed

lemma poke_inv: "op_inv g q \<Longrightarrow> op_inv g (queue_poke (lba_size g) cs q)"
  unfolding queue_poke_def
  by (induction cs arbitrary: q) (auto intro: deliver_inv simp del: deliver.simps)

section \<open>Submissions\<close>

text \<open>Return codes: 0, or -1 with an error recorded.\<close>

definition rc_ok :: "int \<Rightarrow> qop \<Rightarrow> bool" where
  "rc_ok rc q \<longleftrightarrow> rc = 0 \<or> rc = -1 \<and> op_err (q_op q) \<noteq> OPENDS_SUCCESS"

lemma set_err_inv:
  assumes "op_inv g q" "e \<noteq> OPENDS_SUCCESS"
  shows "op_inv g (set_err e q)" "same_plan q (set_err e q)"
  using assms
  by (auto simp: inv_defs same_plan_def slots_def bounce_base_def slot_ok_def cong: file_op_mode.case_cong)

definition accept_chunk :: "nvme_cmd \<Rightarrow> qop \<Rightarrow> qop" where
  "accept_chunk c q =
     accept_cmd c (upd_op (\<lambda>op. op\<lparr>chunks_remaining := chunks_remaining op + 1\<rparr>) q)"

lemma accept_chunk_inv:
  assumes "op_inv g q" "cmd_kind c = Chunk"
  shows "op_inv g (accept_chunk c q)"
  using assms
  by (auto simp: inv_defs accept_chunk_def is_bounce_def slots_def bounce_base_def algebra_simps
      cong: file_op_mode.case_cong)

text \<open>The middle loop, one attempt at a time.\<close>

lemma chunk_counter_undo:
  "upd_op (\<lambda>op. op\<lparr>chunks_remaining := chunks_remaining op - 1\<rparr>)
     (upd_op (\<lambda>op. op\<lparr>chunks_remaining := chunks_remaining op + 1\<rparr>) q) = q"
  by (simp add: upd_op_def)

lemma middle_loop_done:
  "\<not> done < middle \<Longrightarrow> submit_read_middle_loop g c middle as done q = Some (0, as, q)"
  by (cases as) simp_all

lemma middle_loop_attempt:
  assumes "done < middle"
  shows "submit_read_middle_loop g c middle [] done q = None"
    "submit_read_middle_loop g c middle (No_Ctx cs # as) done q =
       submit_read_middle_loop g c middle as done (queue_poke (lba_size g) cs q)"
    "submit_read_middle_loop g c middle (Busy cs # as) done q =
       submit_read_middle_loop g c middle as done (queue_poke (lba_size g) cs q)"
    "submit_read_middle_loop g c middle (Reject # as) done q =
       Some (-1, as, set_err OPENDS_DEVICE_DRIVER_ERROR q)"
    "submit_read_middle_loop g c middle (Accept # as) done q =
       submit_read_middle_loop g c middle as (done + chunk_lbas g (middle - done))
         (accept_chunk (chunk_cmd g c done (chunk_lbas g (middle - done))) q)"
  using assms by (simp_all add: chunk_counter_undo accept_chunk_def Let_def)

declare submit_read_middle_loop.simps [simp del]

lemma middle_loop_inv:
  assumes "submit_read_middle_loop g c middle as done q = Some (rc, as', q')" "op_inv g q"
  shows "op_inv g q' \<and> rc_ok rc q'"
  using assms
proof (induction as arbitrary: "done" q)
  case Nil
  then show ?case
    by (cases "done < middle") (auto simp: middle_loop_done middle_loop_attempt rc_ok_def)
next
  case (Cons a as)
  show ?case
  proof (cases "done < middle")
    case True
    have "op_inv g (accept_chunk (chunk_cmd g c done n) q)" for n
      using Cons.prems(2) by (rule accept_chunk_inv) (simp add: chunk_cmd_def)
    then show ?thesis
      using Cons True poke_inv [OF Cons.prems(2)]
        set_err_inv(1) [OF Cons.prems(2), of OPENDS_DEVICE_DRIVER_ERROR]
      by (cases a) (auto simp: middle_loop_attempt rc_ok_def)
  next
    case False
    with Cons.prems show ?thesis
      by (simp add: middle_loop_done rc_ok_def)
  qed
qed

lemma submit_read_middle_inv:
  assumes "submit_read_middle g c middle as q = Some ((rc, c'), as', q')" "op_inv g q"
  shows "op_inv g q' \<and> rc_ok rc q'"
  using assms middle_loop_inv [of g c middle as 0 q]
  by (auto simp: submit_read_middle_def rc_ok_def split: option.splits if_splits)

text \<open>The bounce loop pokes until the command is accepted or refused.\<close>

lemma bounce_loop_result:
  assumes "submit_bounce_loop g c as q = Some (rc, as', q')" "op_inv g q"
  shows "\<exists>q1. same_plan q q1 \<and> op_inv g q1 \<and>
    (rc = 0 \<and> q' = accept_cmd c q1 \<or> rc = -1 \<and> q' = set_err OPENDS_DEVICE_DRIVER_ERROR q1)"
  using assms
proof (induction as arbitrary: q)
  case Nil
  then show ?case by simp
next
  case (Cons a as)
  have poked: "\<exists>q1. same_plan q q1 \<and> op_inv g q1 \<and>
      (rc = 0 \<and> q' = accept_cmd c q1 \<or> rc = -1 \<and> q' = set_err OPENDS_DEVICE_DRIVER_ERROR q1)"
    if "submit_bounce_loop g c as (queue_poke (lba_size g) cs q) = Some (rc, as', q')" for cs
    using Cons.IH [OF that poke_inv [OF Cons.prems(2)]] poke_same_plan same_plan_trans by blast
  show ?case
    using Cons.prems poked by (cases a) (auto intro!: exI [of _ q])
qed

definition add_slot :: "bounce_slot \<Rightarrow> qop \<Rightarrow> qop" where
  "add_slot b = upd_op (\<lambda>op. op\<lparr>bounces := (bounces op)[n_bounces op := b],
     n_bounces := n_bounces op + 1, bounces_outstanding := bounces_outstanding op + 1,
     bytes_acc := bytes_acc op + slot_nbytes b\<rparr>)"

lemma slots_snoc:
  assumes "n_bounces op < length (bounces op)"
  shows "take (n_bounces op + 1) ((bounces op)[n_bounces op := b]) = slots op @ [b]"
  using assms by (simp add: slots_def take_Suc_conv_app_nth)

lemma add_slot_inv:
  assumes inv: "op_inv g q" and n: "n_bounces (q_op q) < BOUNCE_SLOTS"
    and c: "cmd_kind c = Bounce" "slot_ok g (bounce_base q) (n_bounces (q_op q)) c b"
    and base: "op_bounce_buf (q_op q) = 0 \<longrightarrow> (\<exists>s. op_mode (q_op q) = FILE_OP_STREAM s)"
  shows "op_inv g (add_slot b (accept_cmd c q))"
proof -
  let ?q' = "add_slot b (accept_cmd c q)"
  have len: "n_bounces (q_op q) < length (bounces (q_op q))"
    using inv n by (simp add: op_inv_def slots_ok_def)
  have "counters_ok ?q'"
    using inv c by (simp add: op_inv_def counters_ok_def add_slot_def is_bounce_def)
  moreover have "bytes_ok g ?q'"
    using inv c slots_snoc [OF len, of b]
    by (auto simp: op_inv_def bytes_ok_def add_slot_def is_bounce_def slots_def algebra_simps)
  moreover have base': "bounce_base ?q' = bounce_base q"
    by (simp add: bounce_base_def add_slot_def cong: file_op_mode.case_cong)
  have "slots_ok g ?q'"
    using inv c n base len unfolding op_inv_def slots_ok_def base'
    by (auto simp: add_slot_def is_bounce_def nth_append nth_list_update less_Suc_eq)
  ultimately show ?thesis
    by (simp add: op_inv_def)
qed

text \<open>What a submission keeps of the operation, whatever its outcome.\<close>

definition kept :: "qop \<Rightarrow> qop \<Rightarrow> bool" where
  "kept q q' \<longleftrightarrow>
     op_mode (q_op q') = op_mode (q_op q) \<and> buf_base (q_op q') = buf_base (q_op q) \<and>
     op_state (q_op q') = op_state (q_op q) \<and> is_write (q_op q') = is_write (q_op q) \<and>
     op_file (q_op q') = op_file (q_op q) \<and>
     stream_bounce_buf (q_stream q') = stream_bounce_buf (q_stream q) \<and>
     (op_bounce_buf (q_op q) \<noteq> 0 \<longrightarrow> op_bounce_buf (q_op q') = op_bounce_buf (q_op q)) \<and>
     (op_err (q_op q) \<noteq> OPENDS_SUCCESS \<longrightarrow> op_err (q_op q') \<noteq> OPENDS_SUCCESS)"

lemma kept_refl [simp]: "kept q q"
  by (simp add: kept_def)

lemma kept_trans [trans]: "kept q q' \<Longrightarrow> kept q' q'' \<Longrightarrow> kept q q''"
  by (auto simp: kept_def)

lemma same_plan_kept: "same_plan q q' \<Longrightarrow> kept q q'"
  by (simp add: kept_def same_plan_def)

lemma same_plan_slots: "same_plan q q' \<Longrightarrow> slots (q_op q') = slots (q_op q)"
  by (simp add: slots_def same_plan_def)

lemma same_plan_base: "same_plan q q' \<Longrightarrow> bounce_base q' = bounce_base q"
  by (simp add: bounce_base_def same_plan_def cong: file_op_mode.case_cong)

text \<open>One more bounce command with its slot: what a partial read adds to an operation.\<close>

definition bounced :: "nvme_geo \<Rightarrow> ptr \<Rightarrow> u64 \<Rightarrow> u64 \<Rightarrow> u64 \<Rightarrow> qop \<Rightarrow> qop \<Rightarrow> bool" where
  "bounced g dst lba src_off nbytes q q' \<longleftrightarrow>
     (\<exists>c b. q_log q' = q_log q @ [c] \<and> slots (q_op q') = slots (q_op q) @ [b] \<and>
        cmd_kind c = Bounce \<and> cmd_slba c = lba \<and> cmd_nlb c = 0 \<and>
        b = \<lparr>slot_dst = dst, slot_src = cmd_dst c + src_off, slot_nbytes = nbytes\<rparr> \<and>
        unat src_off + unat nbytes \<le> unat (lba_size g))"

definition partial_result :: "nvme_geo \<Rightarrow> ptr \<Rightarrow> u64 \<Rightarrow> u64 \<Rightarrow> u64 \<Rightarrow> qop \<Rightarrow> int \<Rightarrow> qop \<Rightarrow> bool" where
  "partial_result g dst lba src_off nbytes q rc q' \<longleftrightarrow>
     op_inv g q' \<and> kept q q' \<and> rc_ok rc q' \<and> (rc = 0 \<longrightarrow> bounced g dst lba src_off nbytes q q')"

lemma partial_result_err:
  assumes "op_inv g q" "e \<noteq> OPENDS_SUCCESS"
  shows "partial_result g dst lba src_off nbytes q (-1) (set_err e q)"
  using assms set_err_inv same_plan_kept by (auto simp: partial_result_def rc_ok_def)

text \<open>A bounce command that was accepted, with its slot.\<close>

lemma slot_added_result:
  assumes q1: "same_plan q q1" "op_inv g q1" and n: "n_bounces (q_op q1) = n" "n < BOUNCE_SLOTS"
    and c: "c = \<lparr>cmd_kind = Bounce, cmd_slba = lba, cmd_nlb = 0, cmd_dst = bounce_base q + of_nat n * ucast (lba_size g)\<rparr>"
    and b: "b = \<lparr>slot_dst = dst, slot_src = cmd_dst c + src_off, slot_nbytes = nbytes\<rparr>"
    and fits: "unat src_off + unat nbytes \<le> unat (lba_size g)"
    and base: "op_bounce_buf (q_op q) = 0 \<longrightarrow> (\<exists>s. op_mode (q_op q) = FILE_OP_STREAM s)"
  shows "partial_result g dst lba src_off nbytes q 0 (add_slot b (accept_cmd c q1))"
proof -
  let ?q' = "add_slot b (accept_cmd c q1)"
  have "slot_ok g (bounce_base q1) n c b"
    using fits unfolding same_plan_base [OF q1(1)] slot_ok_def by (auto simp: c b)
  moreover have "op_bounce_buf (q_op q1) = 0 \<longrightarrow> (\<exists>s. op_mode (q_op q1) = FILE_OP_STREAM s)"
    using base q1(1) by (simp add: same_plan_def)
  ultimately have inv': "op_inv g ?q'"
    by (intro add_slot_inv q1(2)) (simp_all add: n c)
  have len: "n_bounces (q_op q1) < length (bounces (q_op q1))"
    using q1(2) n by (simp add: op_inv_def slots_ok_def)
  have "slots (q_op ?q') = slots (q_op q1) @ [b]"
    using slots_snoc [OF len, of b] by (simp add: add_slot_def slots_def)
  then have "bounced g dst lba src_off nbytes q ?q'"
    using q1(1) fits same_plan_slots [OF q1(1)]
    by (auto simp: bounced_def add_slot_def same_plan_def b c)
  moreover have "kept q ?q'"
    using same_plan_kept [OF q1(1)] by (simp add: kept_def add_slot_def)
  ultimately show ?thesis
    using inv' by (simp add: partial_result_def rc_ok_def)
qed

lemma submit_bounce_read_result:
  assumes res: "submit_bounce_read g buf dst lba src_off nbytes as q = Some (rc, as', q')"
    and inv: "op_inv g q" and buf: "buf = bounce_base q" and nw: "unat src_off + unat nbytes < 2 ^ 64"
    and base: "op_bounce_buf (q_op q) = 0 \<longrightarrow> (\<exists>s. op_mode (q_op q) = FILE_OP_STREAM s)"
  shows "partial_result g dst lba src_off nbytes q rc q'"
proof (cases "n_bounces (q_op q) \<ge> BOUNCE_SLOTS \<or> src_off + nbytes > ucast (lba_size g)")
  case True
  with res inv show ?thesis
    by (auto simp: submit_bounce_read_def intro!: partial_result_err)
next
  case False
  have "unat (src_off + nbytes) = unat src_off + unat nbytes"
    using nw by (intro unat_add_noof) simp
  then have fits: "unat src_off + unat nbytes \<le> unat (lba_size g)"
    using False by (auto simp: word_less_nat_alt)
  define n where "n = n_bounces (q_op q)"
  define c where "c = \<lparr>cmd_kind = Bounce, cmd_slba = lba, cmd_nlb = 0,
                       cmd_dst = bounce_base q + of_nat n * ucast (lba_size g)\<rparr>"
  define b where "b = \<lparr>slot_dst = dst, slot_src = cmd_dst c + src_off, slot_nbytes = nbytes\<rparr>"
  obtain rc1 q1' where loop: "submit_bounce_loop g c as q = Some (rc1, as', q1')"
    and out: "if rc1 < 0 then rc = -1 \<and> q' = q1' else rc = 0 \<and> q' = upd_op (\<lambda>op. op\<lparr>
        bounces := (bounces op)[n := b], n_bounces := n + 1,
        bounces_outstanding := bounces_outstanding op + 1, bytes_acc := bytes_acc op + nbytes\<rparr>) q1'"
    using res False unfolding submit_bounce_read_def Let_def c_def b_def n_def buf
    by (auto split: option.splits if_splits)
  obtain q1 where q1: "same_plan q q1" "op_inv g q1"
    "rc1 = 0 \<and> q1' = accept_cmd c q1 \<or> rc1 = -1 \<and> q1' = set_err OPENDS_DEVICE_DRIVER_ERROR q1"
    using bounce_loop_result [OF loop inv] by blast
  have n1: "n_bounces (q_op q1) = n" "n < BOUNCE_SLOTS"
    using q1(1) False by (simp_all add: same_plan_def n_def)
  show ?thesis
  proof (cases "rc1 = 0")
    case False
    then show ?thesis
      using q1 out set_err_inv [OF q1(2)] same_plan_kept [OF q1(1)]
      by (auto simp: partial_result_def rc_ok_def kept_def)
  next
    case True
    then have "rc = 0" "q' = add_slot b (accept_cmd c q1)"
      using out q1(3) n1(1) by (auto simp: add_slot_def upd_op_def b_def)
    then show ?thesis
      using slot_added_result [OF q1(1,2) n1 c_def b_def fits base] by simp
  qed
qed

lemma bounced_stream_upd [simp]:
  "bounced g dst lba src_off nbytes q (q'\<lparr>q_stream := s\<rparr>) = bounced g dst lba src_off nbytes q q'"
  by (simp add: bounced_def)

lemma op_inv_stream_upd:
  "op_inv g q \<Longrightarrow> stream_bounce_buf s = stream_bounce_buf (q_stream q) \<Longrightarrow> op_inv g (q\<lparr>q_stream := s\<rparr>)"
  by (simp add: inv_defs bounce_base_def cong: file_op_mode.case_cong)

lemma submit_stream_bounce_result:
  assumes res: "submit_stream_bounce g dst lba nbytes as q = Some (rc, as', q')"
    and inv: "op_inv g q" and mode: "op_mode (q_op q) = FILE_OP_STREAM s"
  shows "partial_result g dst lba 0 nbytes q rc q'"
proof (cases "n_bounces (q_op q) \<noteq> 0")
  case True
  with res inv show ?thesis
    by (auto simp: submit_stream_bounce_def intro!: partial_result_err)
next
  case False
  then obtain rc1 q1 where read: "submit_bounce_read g (stream_bounce_buf (q_stream q)) dst lba 0 nbytes as q =
      Some (rc1, as', q1)"
    and out: "if rc1 < 0 then rc = -1 \<and> q' = q1 else rc = 0 \<and> q' = q1\<lparr>q_stream :=
      (q_stream q1)\<lparr>bounce_desc := (bounce_desc (q_stream q1))\<lparr>desc_dst := dst,
        desc_src := stream_bounce_buf (q_stream q1)\<rparr>\<rparr>\<rparr>"
    using res unfolding submit_stream_bounce_def by (auto split: option.splits if_splits)
  have "partial_result g dst lba 0 nbytes q rc1 q1"
    by (rule submit_bounce_read_result [OF read inv]) (simp_all add: bounce_base_def mode unat_u64_bound)
  then show ?thesis
    using out by (auto simp: partial_result_def rc_ok_def kept_def op_inv_stream_upd split: if_splits)
qed

lemma alloc_bounce_inv:
  assumes inv: "op_inv g q" and mode: "op_mode (q_op q) = FILE_OP_ASYNC a"
    and null: "op_bounce_buf (q_op q) = 0"
  shows "op_inv g (upd_op (\<lambda>op. op\<lparr>op_bounce_buf := alloc\<rparr>) q)"
  using assms by (auto simp: inv_defs slots_def)

lemma submit_host_bounce_result:
  assumes res: "submit_host_bounce g alloc dst lba src_off nbytes as q = Some (rc, as', q')"
    and inv: "op_inv g q" and mode: "op_mode (q_op q) = FILE_OP_ASYNC a"
    and nw: "unat src_off + unat nbytes < 2 ^ 64"
  shows "partial_result g dst lba src_off nbytes q rc q'"
proof -
  define q1 where "q1 = (if op_bounce_buf (q_op q) = 0
    then upd_op (\<lambda>op. op\<lparr>op_bounce_buf := alloc\<rparr>) q else q)"
  have q1: "op_inv g q1" "kept q q1" "slots (q_op q1) = slots (q_op q)" "q_log q1 = q_log q"
    "op_mode (q_op q1) = FILE_OP_ASYNC a"
    using inv mode by (auto simp: q1_def alloc_bounce_inv kept_def slots_def)
  have step: "(if op_bounce_buf (q_op q1) = 0 then Some (-1, as, set_err OPENDS_INTERNAL_ERROR q1)
      else submit_bounce_read g (op_bounce_buf (q_op q1)) dst lba src_off nbytes as q1) = Some (rc, as', q')"
    using res unfolding submit_host_bounce_def Let_def q1_def .
  have "partial_result g dst lba src_off nbytes q1 rc q'"
  proof (cases "op_bounce_buf (q_op q1) = 0")
    case True
    with step q1(1) show ?thesis
      by (auto intro!: partial_result_err)
  next
    case False
    with step have "submit_bounce_read g (op_bounce_buf (q_op q1)) dst lba src_off nbytes as q1 =
        Some (rc, as', q')"
      by simp
    then show ?thesis
      by (rule submit_bounce_read_result [OF _ q1(1) _ nw]) (simp_all add: bounce_base_def q1(5) False)
  qed
  then show ?thesis
    using q1 by (auto simp: partial_result_def bounced_def intro: kept_trans)
qed

lemma submit_partial_result:
  assumes res: "submit_partial g alloc dst lba src_off nbytes as q = Some (rc, as', q')"
    and inv: "op_inv g q" and nw: "unat src_off + unat nbytes < 2 ^ 64"
  shows "partial_result g dst lba src_off nbytes q rc q'"
proof (cases "op_mode (q_op q)")
  case (FILE_OP_STREAM s)
  then show ?thesis
    using res inv submit_stream_bounce_result [OF _ inv FILE_OP_STREAM]
    by (cases "assume_aligned_only g"; cases "src_off = 0")
       (auto simp: submit_partial_def intro!: partial_result_err)
next
  case (FILE_OP_ASYNC a)
  then show ?thesis
    using res inv submit_host_bounce_result [OF _ inv FILE_OP_ASYNC nw]
    by (cases "assume_aligned_only g") (auto simp: submit_partial_def intro!: partial_result_err)
qed

section \<open>The whole operation\<close>

definition step_ok :: "nvme_geo \<Rightarrow> qop \<Rightarrow> int \<Rightarrow> qop \<Rightarrow> bool" where
  "step_ok g q rc q' \<longleftrightarrow> op_inv g q' \<and> kept q q' \<and> rc_ok rc q'"

lemma step_ok_err:
  "op_inv g q \<Longrightarrow> e \<noteq> OPENDS_SUCCESS \<Longrightarrow> step_ok g q (-1) (set_err e q)"
  using set_err_inv same_plan_kept by (auto simp: step_ok_def rc_ok_def)

lemma step_ok_refl: "op_inv g q \<Longrightarrow> step_ok g q 0 q"
  by (simp add: step_ok_def rc_ok_def)

lemma step_ok_trans: "step_ok g q rc q1 \<Longrightarrow> step_ok g q1 rc' q2 \<Longrightarrow> step_ok g q rc' q2"
  by (auto simp: step_ok_def intro: kept_trans)

lemma step_ok_inv: "step_ok g q rc q' \<Longrightarrow> op_inv g q'"
  by (simp add: step_ok_def)

lemma step_ok_neg: "step_ok g q rc q' \<Longrightarrow> rc < 0 \<Longrightarrow> step_ok g q (-1) q'"
  by (auto simp: step_ok_def rc_ok_def)

lemma step_ok_nonneg: "step_ok g q rc q' \<Longrightarrow> \<not> rc < 0 \<Longrightarrow> rc = 0"
  by (auto simp: step_ok_def rc_ok_def)

lemma partial_step_ok: "partial_result g dst lba src_off nbytes q rc q' \<Longrightarrow> step_ok g q rc q'"
  by (simp add: partial_result_def step_ok_def)

lemma kept_accept_chunk: "kept q q' \<Longrightarrow> kept q (accept_chunk c q')"
  by (simp add: kept_def accept_chunk_def)

lemma middle_loop_kept:
  "submit_read_middle_loop g c middle as done q = Some (rc, as', q') \<Longrightarrow> kept q q'"
proof (induction as arbitrary: "done" q)
  case Nil
  then show ?case
    by (cases "done < middle") (auto simp: middle_loop_done middle_loop_attempt)
next
  case (Cons a as)
  note poke = same_plan_kept [OF poke_same_plan]
  have err: "kept q (set_err OPENDS_DEVICE_DRIVER_ERROR q)"
    by (simp add: kept_def)
  show ?case
  proof (cases "done < middle")
    case True
    then show ?thesis
      using Cons poke kept_trans err kept_accept_chunk [OF kept_refl]
      by (cases a) (fastforce simp: middle_loop_attempt)+
  next
    case False
    with Cons.prems show ?thesis
      by (simp add: middle_loop_done)
  qed
qed

lemma submit_read_middle_step:
  assumes "submit_read_middle g c middle as q = Some ((rc, c'), as', q')" "op_inv g q"
  shows "step_ok g q rc q'"
  using assms submit_read_middle_inv [OF assms] middle_loop_kept [of g c middle as 0 q]
  by (auto simp: submit_read_middle_def step_ok_def split: option.splits if_splits)

lemma read_tail_step:
  assumes res: "read_tail g alloc n c as q = Some (rc, as', q')" and inv: "op_inv g q"
  shows "step_ok g q rc q'"
proof (cases "n = 0")
  case True
  with res inv show ?thesis
    by (auto simp: read_tail_def step_ok_refl)
next
  case False
  then obtain rc1 where sub: "submit_partial g alloc (abs_dst c) (cur_slba c) 0 n as q = Some (rc1, as', q')"
    and out: "if rc1 < 0 then rc = -1 else rc = 0"
    using res by (auto simp: read_tail_def split: option.splits if_splits)
  have "step_ok g q rc1 q'"
    by (rule partial_step_ok [OF submit_partial_result [OF sub inv]]) (simp add: unat_u64_bound)
  then show ?thesis
    using out by (auto dest: step_ok_neg step_ok_nonneg split: if_splits)
qed

text \<open>The head part either refuses the request, or submits the partial first block.\<close>

lemma read_head_cases:
  assumes res: "read_head g alloc n c as q = Some ((rc, c'), as', q')" and n: "n \<noteq> 0"
  shows "rc = -1 \<and> q' = set_err OPENDS_INVALID_VALUE q \<or>
    (\<exists>rc1. submit_partial g alloc (abs_dst c) (cur_slba c) n (head_bytes g n (remaining c)) as q =
        Some (rc1, as', q') \<and>
      (if rc1 < 0 then rc = -1
       else rc = 0 \<and> c' = \<lparr>cur_slba = cur_slba c + 1,
              abs_dst = abs_dst c + head_bytes g n (remaining c),
              remaining = remaining c - head_bytes g n (remaining c)\<rparr>))"
proof (cases "submit_partial g alloc (abs_dst c) (cur_slba c) n (head_bytes g n (remaining c)) as q")
  case None
  with res n show ?thesis
    by (simp add: read_head_def Let_def split: if_splits)
next
  case (Some r)
  obtain rc1 as1 q1 where "r = (rc1, as1, q1)"
    by (cases r)
  with Some res n show ?thesis
    by (simp add: read_head_def Let_def split: if_splits)
qed

lemma head_bytes_fit:
  assumes "unat n < unat (lba_size g)"
  shows "unat n + unat (head_bytes g n left) \<le> unat (lba_size g)"
proof -
  have "unat (ucast (lba_size g) - n) = unat (lba_size g) - unat n"
    using assms by (subst unat_sub_noof) (simp_all add: word_le_nat_alt)
  then show ?thesis
    using assms by (auto simp: head_bytes_def word_less_nat_alt)
qed

lemma masked_offset_less:
  assumes "lba_size g \<noteq> 0"
  shows "unat (x AND lba_mask g) < unat (lba_size g)"
proof -
  have "unat (lba_size g - 1) = unat (lba_size g) - 1" "0 < unat (lba_size g)"
    using assms by (simp_all add: unat_minus_one unat_gt_0)
  moreover have "unat (x AND lba_mask g) \<le> unat (lba_mask g)"
    by (rule unat_and_le)
  ultimately show ?thesis
    by (simp add: lba_mask_def)
qed

lemma read_head_step:
  assumes res: "read_head g alloc n c as q = Some ((rc, c'), as', q')" and inv: "op_inv g q"
    and h: "unat n < unat (lba_size g)"
  shows "step_ok g q rc q'"
proof (cases "n = 0")
  case True
  with res inv show ?thesis
    by (auto simp: read_head_def step_ok_refl)
next
  case False
  from read_head_cases [OF res False] show ?thesis
  proof (elim disjE exE conjE)
    assume "rc = -1" "q' = set_err OPENDS_INVALID_VALUE q"
    with inv show ?thesis by (simp add: step_ok_err)
  next
    fix rc1
    assume sub: "submit_partial g alloc (abs_dst c) (cur_slba c) n (head_bytes g n (remaining c)) as q =
        Some (rc1, as', q')"
      and out: "if rc1 < 0 then rc = -1
       else rc = 0 \<and> c' = \<lparr>cur_slba = cur_slba c + 1,
              abs_dst = abs_dst c + head_bytes g n (remaining c),
              remaining = remaining c - head_bytes g n (remaining c)\<rparr>"
    have "unat n + unat (head_bytes g n (remaining c)) < 2 ^ 64"
      using head_bytes_fit [OF h, of "remaining c"] unat_u32_bound [of "lba_size g"] by simp
    then have "step_ok g q rc1 q'"
      by (rule partial_step_ok [OF submit_partial_result [OF sub inv]])
    then show ?thesis
      using out by (auto dest: step_ok_neg step_ok_nonneg split: if_splits)
  qed
qed

lemma read_body_step:
  assumes res: "read_body g alloc c as q = Some (rc, as', q')" and inv: "op_inv g q"
  shows "step_ok g q rc q'"
proof -
  define m where "m = drop_bit (unat (lba_shift g)) (remaining c - (remaining c AND lba_mask g))"
  show ?thesis
  proof (cases "m = 0")
    case True
    then show ?thesis
      using res inv by (auto simp: read_body_def Let_def m_def intro: read_tail_step)
  next
    case False
    then obtain rc1 c1 as1 q1 where mid: "submit_read_middle g c m as q = Some ((rc1, c1), as1, q1)"
      and out: "(if rc1 < 0 then Some (-1, as1, q1)
                 else read_tail g alloc (remaining c AND lba_mask g) c1 as1 q1) = Some (rc, as', q')"
      using res by (auto simp: read_body_def Let_def m_def split: option.splits)
    note step = submit_read_middle_step [OF mid inv]
    show ?thesis
      using out step step_ok_trans [OF step read_tail_step [OF _ step_ok_inv [OF step]]]
      by (auto dest: step_ok_neg split: if_splits)
  qed
qed

lemma read_extent_step:
  assumes res: "read_extent g alloc rs re dst e as q = Some (rc, as', q')" and inv: "op_inv g q"
    and lba: "lba_size g \<noteq> 0"
  shows "step_ok g q rc q'"
proof -
  define n where "n = (span_start rs e - file_offset e) AND lba_mask g"
  have n: "unat n < unat (lba_size g)"
    unfolding n_def by (rule masked_offset_less [OF lba])
  obtain c rc1 c1 as1 q1 where head: "read_head g alloc n c as q = Some ((rc1, c1), as1, q1)"
    and out: "(if rc1 < 0 then Some (-1, as1, q1) else read_body g alloc c1 as1 q1) = Some (rc, as', q')"
    using res by (auto simp: read_extent_def Let_def n_def split: option.splits)
  note step = read_head_step [OF head inv n]
  show ?thesis
    using out step step_ok_trans [OF step read_body_step [OF _ step_ok_inv [OF step]]]
    by (auto dest: step_ok_neg split: if_splits)
qed

lemma read_extents_inv:
  assumes "read_extents g alloc rs re dst es as q = Some (as', q')" "op_inv g q" and lba: "lba_size g \<noteq> 0"
  shows "op_inv g q' \<and> kept q q'"
  using assms(1,2)
proof (induction es arbitrary: as q)
  case Nil
  then show ?case by simp
next
  case (Cons e es)
  show ?case
  proof (cases "file_offset e \<ge> re \<or> span_start rs e \<ge> span_end re e")
    case True
    then show ?thesis
      using Cons by (auto split: if_splits)
  next
    case False
    then obtain rc1 as1 q1 where one: "read_extent g alloc rs re dst e as q = Some (rc1, as1, q1)"
      and out: "(if rc1 < 0 then Some (as1, q1) else read_extents g alloc rs re dst es as1 q1) = Some (as', q')"
      using Cons.prems by (auto split: option.splits)
    have step: "step_ok g q rc1 q1"
      by (rule read_extent_step [OF one Cons.prems(2) lba])
    then show ?thesis
      using out Cons.IH [OF _ step_ok_inv [OF step]]
      by (auto simp: step_ok_def split: if_splits intro: kept_trans)
  qed
qed

lemma start_read_op_inv:
  assumes res: "start_read_op g cells alloc x as q = Some (as', q')" and inv: "op_inv g q"
  shows "op_inv g q' \<and> kept q q'"
proof -
  have err: "op_inv g (set_err e q) \<and> kept q (set_err e q)" if "e \<noteq> OPENDS_SUCCESS" for e
    using step_ok_err [OF inv that] by (simp add: step_ok_def)
  show ?thesis
    using res err read_extents_inv [OF _ inv]
    by (auto simp: start_read_op_def split: if_splits sum.splits prod.splits)
qed

end
