(* ===== verification/Read_Correct.thy ===== *)
theory Read_Correct
  imports Read_Invariant
begin

text \<open>
  Functional correctness of the read path: which bytes of the device the submitted commands and
  bounce slots bring to which addresses. A transfer is a triple of destination address, device byte
  address and length, all natural numbers; the operation's plan is the list of the transfers of
  what it has submitted. The code splits each overlap of the request with an extent into a partial
  head, whole-block chunks and a partial tail; the theorems say that every such split is exact.
\<close>

section \<open>Geometry as numbers\<close>

definition lba_bytes :: "nvme_geo \<Rightarrow> nat" where
  "lba_bytes g = 2 ^ unat (lba_shift g)"

lemma lba_bytes_pos [simp]: "0 < lba_bytes g"
  by (simp add: lba_bytes_def)

lemma geo_lba:
  assumes "geo_ok g"
  shows "unat (lba_size g) = lba_bytes g" "unat (ucast (lba_size g) :: u64) = lba_bytes g"
    "lba_size g \<noteq> 0"
proof -
  show 1: "unat (lba_size g) = lba_bytes g"
    using assms by (simp add: geo_ok_def lba_bytes_def unat_pow2)
  then show "unat (ucast (lba_size g) :: u64) = lba_bytes g"
    by simp
  show "lba_size g \<noteq> 0"
    using 1 lba_bytes_pos [of g] by (metis less_numeral_extra(3) unat_0)
qed

lemma geo_mask:
  assumes "geo_ok g"
  shows "unat (x AND lba_mask g) = unat x mod lba_bytes g"
proof -
  have "lba_mask g = ucast (mask (unat (lba_shift g)) :: u32)"
    using assms by (simp add: lba_mask_def geo_ok_def mask_eq_exp_minus_1)
  also have "\<dots> = (mask (unat (lba_shift g)) :: u64)"
    using assms by (simp add: geo_ok_def ucast_mask_u32_u64)
  finally show ?thesis
    by (simp add: unat_and_mask lba_bytes_def)
qed

lemma geo_shift: "unat (drop_bit (unat (lba_shift g)) (x :: u64)) = unat x div lba_bytes g"
  by (simp add: unat_drop_bit_div lba_bytes_def)

lemma geo_max_chunk: "unat (max_chunk_lbas g) = unat (mdts_nbytes g) div lba_bytes g"
  by (simp add: max_chunk_lbas_def unat_drop_bit_div lba_bytes_def)

lemma geo_chunk:
  "unat (chunk_lbas g left) = min (min (unat left) (unat (mdts_nbytes g) div lba_bytes g)) 65536"
  by (simp add: chunk_lbas_def NVME_MAX_NLB_def min_def geo_max_chunk word_le_nat_alt)

lemma nlb_count:
  fixes n :: u64
  assumes "0 < unat n" "unat n \<le> 65536"
  shows "Suc (unat (ucast (n - 1) :: u16)) = unat n"
proof -
  have "unat (n - 1) = unat n - 1"
    using assms by (intro unat_minus_one) auto
  then show ?thesis
    using assms by (simp add: unsigned_ucast_eq take_bit_eq_mod)
qed

section \<open>Transfers\<close>

type_synonym transfer = "nat \<times> nat \<times> nat"

fun transfers :: "nat \<Rightarrow> nvme_cmd list \<Rightarrow> bounce_slot list \<Rightarrow> transfer list" where
  "transfers L [] bs = []"
| "transfers L (c # cs) bs =
     (if is_bounce c then
        (case bs of
           [] \<Rightarrow> []
         | b # bs' \<Rightarrow> (unat (slot_dst b), unat (cmd_slba c) * L + unat (slot_src b - cmd_dst c),
                       unat (slot_nbytes b)) # transfers L cs bs')
      else (unat (cmd_dst c), unat (cmd_slba c) * L, Suc (unat (cmd_nlb c)) * L) # transfers L cs bs)"

definition plan :: "nvme_geo \<Rightarrow> qop \<Rightarrow> transfer list" where
  "plan g q = transfers (lba_bytes g) (q_log q) (slots (q_op q))"

text \<open>\<open>splits ts d s n\<close>: the transfers are consecutive pieces of one transfer of \<open>n\<close> bytes.\<close>

fun splits :: "transfer list \<Rightarrow> nat \<Rightarrow> nat \<Rightarrow> nat \<Rightarrow> bool" where
  "splits [] d s n \<longleftrightarrow> n = 0"
| "splits ((d', s', n') # ts) d s n \<longleftrightarrow>
     d' = d \<and> s' = s \<and> 0 < n' \<and> n' \<le> n \<and> splits ts (d + n') (s + n') (n - n')"

lemma transfers_append:
  "length (bounces_of cs) = length bs \<Longrightarrow>
   transfers L (cs @ cs') (bs @ bs') = transfers L cs bs @ transfers L cs' bs'"
  by (induction L cs bs rule: transfers.induct) (auto split: list.splits)

lemma splits_append:
  "splits ts d s n \<Longrightarrow> splits us (d + n) (s + n) m \<Longrightarrow> splits (ts @ us) d s (n + m)"
  by (induction ts d s n rule: splits.induct) auto

lemma splits_sum: "splits ts d s n \<Longrightarrow> sum_list (map (snd \<circ> snd) ts) = n"
  by (induction ts d s n rule: splits.induct) auto

lemma inv_log_slots: "op_inv g q \<Longrightarrow> length (bounces_of (q_log q)) = length (slots (q_op q))"
  by (simp add: op_inv_def slots_ok_def slots_def)

lemma plan_bounced:
  assumes inv: "op_inv g q" and b: "bounced g dst lba src_off nbytes q q'"
  shows "plan g q' = plan g q @ [(unat dst, unat lba * lba_bytes g + unat src_off, unat nbytes)]"
proof -
  obtain c b where "q_log q' = q_log q @ [c]" "slots (q_op q') = slots (q_op q) @ [b]"
    "cmd_kind c = Bounce" "cmd_slba c = lba"
    "b = \<lparr>slot_dst = dst, slot_src = cmd_dst c + src_off, slot_nbytes = nbytes\<rparr>"
    using b by (auto simp: bounced_def)
  then show ?thesis
    using transfers_append [OF inv_log_slots [OF inv], of "lba_bytes g" "[c]" "[b]"]
    by (simp add: plan_def is_bounce_def)
qed

lemma plan_accept_chunk:
  assumes inv: "op_inv g q" and c: "cmd_kind c = Chunk"
  shows "plan g (accept_chunk c q) =
         plan g q @ [(unat (cmd_dst c), unat (cmd_slba c) * lba_bytes g, Suc (unat (cmd_nlb c)) * lba_bytes g)]"
  using transfers_append [OF inv_log_slots [OF inv], of "lba_bytes g" "[c]" "[]"] c
  by (simp add: plan_def accept_chunk_def is_bounce_def slots_def)

lemma plan_same: "same_plan q q' \<Longrightarrow> plan g q' = plan g q"
  by (simp add: plan_def same_plan_def slots_def)

section \<open>Whole blocks\<close>

text \<open>One chunk of the middle loop, as a transfer.\<close>

lemma chunk_transfer:
  fixes middle "done" :: u64
  assumes geo: "geo_ok g" and mdts: "lba_bytes g \<le> unat (mdts_nbytes g)" and lt: "done < middle"
    and room: "unat (abs_dst c) + unat middle * lba_bytes g < 2 ^ 64"
      "unat (cur_slba c) + unat middle < 2 ^ 64"
  defines "n \<equiv> chunk_lbas g (middle - done)"
  shows "0 < unat n" "unat done + unat n \<le> unat middle" "unat (done + n) = unat done + unat n"
    "unat (cmd_dst (chunk_cmd g c done n)) = unat (abs_dst c) + unat done * lba_bytes g"
    "unat (cmd_slba (chunk_cmd g c done n)) = unat (cur_slba c) + unat done"
    "Suc (unat (cmd_nlb (chunk_cmd g c done n))) = unat n"
    "unat n * lba_bytes g \<le> unat (mdts_nbytes g)"
proof -
  have le: "unat done < unat middle"
    using lt by (simp add: word_less_nat_alt)
  have left: "unat (middle - done) = unat middle - unat done"
    using lt by (intro unat_sub_noof) simp
  have per: "0 < unat (mdts_nbytes g) div lba_bytes g"
    using mdts by (simp add: div_greater_zero_iff)
  have n: "unat n = min (min (unat middle - unat done) (unat (mdts_nbytes g) div lba_bytes g)) 65536"
    by (simp add: n_def geo_chunk left)
  show 1: "0 < unat n"
    using le per by (simp add: n)
  show 2: "unat done + unat n \<le> unat middle"
    using le by (simp add: n)
  show "unat (done + n) = unat done + unat n"
    using 2 unat_u64_bound [of middle] by (intro unat_add_noof) simp
  have "unat done * lba_bytes g \<le> unat middle * lba_bytes g"
    using le by (intro mult_le_mono1) simp
  then have d: "unat (abs_dst c) + unat done * lba_bytes g < 2 ^ 64"
    using room(1) by linarith
  then have "unat (done * ucast (lba_size g)) = unat done * lba_bytes g"
    using geo_lba(1) [OF geo] by (subst unat_mult_noof) simp_all
  then show "unat (cmd_dst (chunk_cmd g c done n)) = unat (abs_dst c) + unat done * lba_bytes g"
    using d by (simp add: chunk_cmd_def unat_add_noof)
  show "unat (cmd_slba (chunk_cmd g c done n)) = unat (cur_slba c) + unat done"
    using room(2) le by (simp add: chunk_cmd_def unat_add_noof)
  show "Suc (unat (cmd_nlb (chunk_cmd g c done n))) = unat n"
    using nlb_count [OF 1] n by (simp add: chunk_cmd_def)
  have "unat n \<le> unat (mdts_nbytes g) div lba_bytes g"
    by (simp add: n)
  then show "unat n * lba_bytes g \<le> unat (mdts_nbytes g)"
    by (meson div_times_less_eq_dividend le_trans mult_le_mono1)
qed

definition bounded_by :: "nat \<Rightarrow> transfer list \<Rightarrow> bool" where
  "bounded_by m ts \<longleftrightarrow> (\<forall>t \<in> set ts. snd (snd t) \<le> m)"

lemma bounded_by_simps [simp]:
  "bounded_by m []" "bounded_by m (t # ts) \<longleftrightarrow> snd (snd t) \<le> m \<and> bounded_by m ts"
  "bounded_by m (ts @ us) \<longleftrightarrow> bounded_by m ts \<and> bounded_by m us"
  by (auto simp: bounded_by_def)

text \<open>The whole blocks from \<open>done\<close> to \<open>middle\<close>, split into the transfers \<open>ts\<close>.\<close>

definition middle_split :: "nvme_geo \<Rightarrow> read_cursor \<Rightarrow> u64 \<Rightarrow> u64 \<Rightarrow> transfer list \<Rightarrow> bool" where
  "middle_split g c middle done ts \<longleftrightarrow> bounded_by (unat (mdts_nbytes g)) ts \<and>
     splits ts (unat (abs_dst c) + unat done * lba_bytes g)
       ((unat (cur_slba c) + unat done) * lba_bytes g) ((unat middle - unat done) * lba_bytes g)"

lemma middle_accept:
  assumes geo: "geo_ok g" and mdts: "lba_bytes g \<le> unat (mdts_nbytes g)" and lt: "done < middle"
    and room: "unat (abs_dst c) + unat middle * lba_bytes g < 2 ^ 64" "unat (cur_slba c) + unat middle < 2 ^ 64"
    and inv: "op_inv g q"
  defines "n \<equiv> chunk_lbas g (middle - done)"
  defines "q1 \<equiv> accept_chunk (chunk_cmd g c done n) q"
  shows "op_inv g q1" "done + n \<le> middle"
    "\<exists>t. plan g q1 = plan g q @ [t] \<and> (\<forall>ts. middle_split g c middle (done + n) ts \<longrightarrow> middle_split g c middle done (t # ts))"
proof -
  note chunk = chunk_transfer [OF geo mdts lt room, folded n_def]
  have kind: "cmd_kind (chunk_cmd g c done n) = Chunk"
    by (simp add: chunk_cmd_def)
  show "op_inv g q1"
    unfolding q1_def by (rule accept_chunk_inv [OF inv kind])
  show "done + n \<le> middle"
    using chunk(2,3) by (simp add: word_le_nat_alt)
  let ?t = "(unat (abs_dst c) + unat done * lba_bytes g,
             (unat (cur_slba c) + unat done) * lba_bytes g, unat n * lba_bytes g)"
  have "plan g q1 = plan g q @ [?t]"
    unfolding q1_def plan_accept_chunk [OF inv kind] chunk(4-6) ..
  moreover have "middle_split g c middle done (?t # ts)" if "middle_split g c middle (done + n) ts" for ts
    using that chunk mult_le_mono2 [OF chunk(2), of "lba_bytes g"]
    by (simp add: middle_split_def algebra_simps diff_mult_distrib)
  ultimately show "\<exists>t. plan g q1 = plan g q @ [t] \<and>
      (\<forall>ts. middle_split g c middle (done + n) ts \<longrightarrow> middle_split g c middle done (t # ts))"
    by blast
qed

lemma middle_loop_splits:
  assumes geo: "geo_ok g" and mdts: "lba_bytes g \<le> unat (mdts_nbytes g)"
    and room: "unat (abs_dst c) + unat middle * lba_bytes g < 2 ^ 64" "unat (cur_slba c) + unat middle < 2 ^ 64"
    and res: "submit_read_middle_loop g c middle as done q = Some (0, as', q')"
    and inv: "op_inv g q" and le: "done \<le> middle"
  shows "\<exists>ts. plan g q' = plan g q @ ts \<and> middle_split g c middle done ts"
  using res inv le
proof (induction as arbitrary: "done" q)
  case Nil
  then show ?case
    by (cases "done < middle") (auto simp: middle_loop_done middle_loop_attempt middle_split_def intro!: exI [of _ "[]"])
next
  case (Cons a as)
  show ?case
  proof (cases "done < middle")
    case False
    with Cons.prems show ?thesis
      by (auto simp: middle_loop_done middle_split_def intro!: exI [of _ "[]"])
  next
    case True
    note step = middle_loop_attempt [OF True, of g c]
    note acc = middle_accept [OF geo mdts True room Cons.prems(2)]
    have poked: "\<exists>ts. plan g q' = plan g q @ ts \<and> middle_split g c middle done ts"
      if "submit_read_middle_loop g c middle as done (queue_poke (lba_size g) cs q) = Some (0, as', q')" for cs
      using Cons.IH [OF that poke_inv [OF Cons.prems(2)] Cons.prems(3)]
      by (simp add: plan_same [OF poke_same_plan])
    show ?thesis
    proof (cases a)
      case Accept
      then show ?thesis
        using Cons.prems(1) step(5) Cons.IH [OF _ acc(1,2)] acc(3) by fastforce
    qed (use Cons.prems(1) poked step in auto)
  qed
qed

text \<open>
  The remaining bytes of an extent, from a block boundary on: whole blocks, then the tail. A cursor
  has room when the addresses and blocks it can still reach do not wrap around.
\<close>

definition cursor_room :: "nvme_geo \<Rightarrow> read_cursor \<Rightarrow> bool" where
  "cursor_room g c \<longleftrightarrow>
     unat (abs_dst c) + unat (remaining c) < 2 ^ 64 \<and>
     unat (cur_slba c) + unat (remaining c) div lba_bytes g + 1 < 2 ^ 64"

definition cursor_dev :: "nvme_geo \<Rightarrow> read_cursor \<Rightarrow> nat" where
  "cursor_dev g c = unat (cur_slba c) * lba_bytes g"

lemma middle_splits:
  assumes geo: "geo_ok g" and mdts: "lba_bytes g \<le> unat (mdts_nbytes g)" and room: "cursor_room g c"
    and m: "unat middle = unat (remaining c) div lba_bytes g"
    and res: "submit_read_middle g c middle as q = Some ((0, c'), as', q')" and inv: "op_inv g q"
  shows "\<exists>ts. plan g q' = plan g q @ ts \<and> bounded_by (unat (mdts_nbytes g)) ts \<and>
      splits ts (unat (abs_dst c)) (cursor_dev g c) (unat middle * lba_bytes g)"
    "unat (abs_dst c') = unat (abs_dst c) + unat middle * lba_bytes g"
    "cursor_dev g c' = cursor_dev g c + unat middle * lba_bytes g"
proof -
  have mL: "unat middle * lba_bytes g \<le> unat (remaining c)"
    by (simp add: m)
  have fit: "unat (abs_dst c) + unat middle * lba_bytes g < 2 ^ 64"
    "unat (cur_slba c) + unat middle < 2 ^ 64"
    using room mL unfolding cursor_room_def m by linarith+
  obtain rc1 q1 where loop: "submit_read_middle_loop g c middle as 0 q = Some (rc1, as', q')"
    and out: "\<not> rc1 < 0" "c' = \<lparr>cur_slba = cur_slba c + middle,
        abs_dst = abs_dst c + middle * ucast (lba_size g),
        remaining = remaining c - middle * ucast (lba_size g)\<rparr>"
    using res by (auto simp: submit_read_middle_def split: option.splits if_splits)
  have "rc1 = 0"
    using middle_loop_inv [OF loop inv] out(1) by (auto simp: rc_ok_def)
  with loop show "\<exists>ts. plan g q' = plan g q @ ts \<and> bounded_by (unat (mdts_nbytes g)) ts \<and>
      splits ts (unat (abs_dst c)) (cursor_dev g c) (unat middle * lba_bytes g)"
    using middle_loop_splits [OF geo mdts fit _ inv, of as 0] by (simp add: cursor_dev_def middle_split_def)
  have mult: "unat (middle * ucast (lba_size g)) = unat middle * lba_bytes g"
    using fit(1) geo_lba(1) [OF geo] by (subst unat_mult_noof) simp_all
  then show "unat (abs_dst c') = unat (abs_dst c) + unat middle * lba_bytes g"
    using fit(1) by (simp add: out unat_add_noof)
  have "unat (cur_slba c') = unat (cur_slba c) + unat middle"
    using fit(2) by (simp add: out unat_add_noof)
  then show "cursor_dev g c' = cursor_dev g c + unat middle * lba_bytes g"
    by (simp add: cursor_dev_def algebra_simps)
qed

lemma partial_plan:
  assumes res: "submit_partial g alloc dst lba src_off nbytes as q = Some (rc, as', q')"
    and inv: "op_inv g q" and rc: "\<not> rc < 0" and nw: "unat src_off + unat nbytes < 2 ^ 64"
  shows "plan g q' = plan g q @ [(unat dst, unat lba * lba_bytes g + unat src_off, unat nbytes)]"
proof -
  have "partial_result g dst lba src_off nbytes q rc q'"
    by (rule submit_partial_result [OF res inv nw])
  then have "bounced g dst lba src_off nbytes q q'"
    using rc by (auto simp: partial_result_def rc_ok_def)
  then show ?thesis
    by (rule plan_bounced [OF inv])
qed

lemma tail_splits:
  assumes res: "read_tail g alloc n c as q = Some (rc, as', q')" and inv: "op_inv g q" and rc: "\<not> rc < 0"
  shows "\<exists>ts. plan g q' = plan g q @ ts \<and> bounded_by (unat n) ts \<and>
      splits ts (unat (abs_dst c)) (cursor_dev g c) (unat n)"
proof (cases "n = 0")
  case True
  with res show ?thesis
    by (auto simp: read_tail_def intro!: exI [of _ "[]"])
next
  case False
  then obtain rc1 where sub: "submit_partial g alloc (abs_dst c) (cur_slba c) 0 n as q = Some (rc1, as', q')"
    and out: "\<not> rc1 < 0"
    using res rc by (auto simp: read_tail_def split: option.splits if_splits)
  let ?t = "(unat (abs_dst c), cursor_dev g c, unat n)"
  have "plan g q' = plan g q @ [?t]"
    using partial_plan [OF sub inv out] by (simp add: cursor_dev_def unat_u64_bound)
  moreover have "splits [?t] (unat (abs_dst c)) (cursor_dev g c) (unat n)"
    using False by (simp add: unat_gt_0)
  ultimately show ?thesis
    by (intro exI [of _ "[?t]"]) simp
qed

text \<open>The remaining bytes are the whole blocks and the tail.\<close>

lemma middle_tail:
  fixes r :: u64
  assumes "geo_ok g" "lba_bytes g \<le> unat (mdts_nbytes g)"
  defines "tail \<equiv> r AND lba_mask g"
  defines "m \<equiv> drop_bit (unat (lba_shift g)) (r - tail)"
  shows "unat m = unat r div lba_bytes g" "unat m * lba_bytes g + unat tail = unat r"
    "bounded_by (unat tail) ts \<Longrightarrow> bounded_by (unat (mdts_nbytes g)) ts"
proof -
  have t: "unat tail = unat r mod lba_bytes g"
    by (simp add: tail_def geo_mask [OF assms(1)])
  have "unat (r - tail) = unat r - unat r mod lba_bytes g"
    by (subst unat_sub_noof) (simp_all add: word_le_nat_alt t)
  then show m: "unat m = unat r div lba_bytes g"
    unfolding m_def geo_shift
    by (metis div_mult_self_is_m lba_bytes_pos minus_mod_eq_div_mult)
  show "unat m * lba_bytes g + unat tail = unat r"
    by (simp add: m t)
  have "unat tail \<le> unat (mdts_nbytes g)"
    using assms(2) mod_less_divisor [OF lba_bytes_pos, of "unat r" g] unfolding t by linarith
  then show "bounded_by (unat tail) ts \<Longrightarrow> bounded_by (unat (mdts_nbytes g)) ts"
    by (meson bounded_by_def le_trans)
qed

lemma body_splits:
  assumes geo: "geo_ok g" and mdts: "lba_bytes g \<le> unat (mdts_nbytes g)" and room: "cursor_room g c"
    and res: "read_body g alloc c as q = Some (rc, as', q')" and inv: "op_inv g q" and rc: "\<not> rc < 0"
  shows "\<exists>ts. plan g q' = plan g q @ ts \<and> bounded_by (unat (mdts_nbytes g)) ts \<and>
      splits ts (unat (abs_dst c)) (cursor_dev g c) (unat (remaining c))"
proof -
  define tail where "tail = remaining c AND lba_mask g"
  define m where "m = drop_bit (unat (lba_shift g)) (remaining c - tail)"
  note mt = middle_tail [OF geo mdts, of "remaining c", folded tail_def, folded m_def]
  have body: "(if m \<noteq> 0
     then case submit_read_middle g c m as q of
            None \<Rightarrow> None
          | Some ((rc, c'), as', q') \<Rightarrow> if rc < 0 then Some (-1, as', q') else read_tail g alloc tail c' as' q'
     else read_tail g alloc tail c as q) = Some (rc, as', q')"
    using res unfolding read_body_def Let_def m_def tail_def .
  show ?thesis
  proof (cases "m = 0")
    case True
    then show ?thesis
      using tail_splits [OF _ inv rc, of alloc tail c as as'] body mt(2,3) by auto
  next
    case False
    then obtain rc1 c1 as1 q1 where mid: "submit_read_middle g c m as q = Some ((rc1, c1), as1, q1)"
      and out: "(if rc1 < 0 then Some (-1, as1, q1) else read_tail g alloc tail c1 as1 q1) = Some (rc, as', q')"
      using body by (auto split: option.splits)
    have step: "step_ok g q rc1 q1"
      by (rule submit_read_middle_step [OF mid inv])
    have mid0: "submit_read_middle g c m as q = Some ((0, c1), as1, q1)"
      and tail1: "read_tail g alloc tail c1 as1 q1 = Some (rc, as', q')"
      using mid out rc step_ok_nonneg [OF step] by (auto split: if_splits)
    note ms = middle_splits [OF geo mdts room mt(1) mid0 inv]
    obtain ts us where ts: "plan g q1 = plan g q @ ts" "bounded_by (unat (mdts_nbytes g)) ts"
      "splits ts (unat (abs_dst c)) (cursor_dev g c) (unat m * lba_bytes g)"
      and us: "plan g q' = plan g q1 @ us" "bounded_by (unat tail) us"
      "splits us (unat (abs_dst c1)) (cursor_dev g c1) (unat tail)"
      using ms(1) tail_splits [OF tail1 step_ok_inv [OF step] rc] by blast
    have "splits (ts @ us) (unat (abs_dst c)) (cursor_dev g c) (unat (remaining c))"
      using splits_append [OF ts(3), of us "unat tail"] us(3) mt(2) ms(2,3) by simp
    then show ?thesis
      using ts us mt(3) by (intro exI [of _ "ts @ us"]) simp
  qed
qed

lemma head_splits:
  assumes geo: "geo_ok g" and mdts: "lba_bytes g \<le> unat (mdts_nbytes g)" and room: "cursor_room g c"
    and room2: "unat (cur_slba c) + unat (remaining c) div lba_bytes g + 2 < 2 ^ 64"
    and h: "unat n < lba_bytes g" and pos: "0 < unat (remaining c)"
    and res: "read_head g alloc n c as q = Some ((rc, c'), as', q')" and inv: "op_inv g q"
    and rc: "\<not> rc < 0"
  shows "\<exists>ts k. plan g q' = plan g q @ ts \<and> bounded_by (unat (mdts_nbytes g)) ts \<and>
      k \<le> unat (remaining c) \<and> splits ts (unat (abs_dst c)) (cursor_dev g c + unat n) k \<and>
      unat (abs_dst c') = unat (abs_dst c) + k \<and> unat (remaining c') = unat (remaining c) - k \<and>
      (k = unat (remaining c) \<or> cursor_dev g c' = cursor_dev g c + unat n + k) \<and> cursor_room g c'"
proof (cases "n = 0")
  case True
  with res room show ?thesis
    by (intro exI [of _ "[]"] exI [of _ 0]) (simp add: read_head_def)
next
  case False
  define k where "k = min (unat (remaining c)) (lba_bytes g - unat n)"
  have "unat (ucast (lba_size g) - n) = lba_bytes g - unat n"
    using h geo_lba(1) [OF geo] by (subst unat_sub_noof) (simp_all add: word_le_nat_alt)
  then have hb: "unat (head_bytes g n (remaining c)) = k"
    by (simp add: head_bytes_def k_def word_less_nat_alt min_def)
  have kle: "k \<le> unat (remaining c)" and kpos: "0 < k" and kL: "k \<le> lba_bytes g"
    using h pos by (auto simp: k_def)
  obtain rc1 where sub: "submit_partial g alloc (abs_dst c) (cur_slba c) n (head_bytes g n (remaining c)) as q =
        Some (rc1, as', q')"
    and out: "\<not> rc1 < 0" "c' = \<lparr>cur_slba = cur_slba c + 1,
              abs_dst = abs_dst c + head_bytes g n (remaining c),
              remaining = remaining c - head_bytes g n (remaining c)\<rparr>"
    using read_head_cases [OF res False] rc by (auto split: if_splits)
  have "lba_bytes g < 2 ^ 32"
    using unat_u32_bound [of "lba_size g"] geo_lba(1) [OF geo] by simp
  then have room_nk: "unat n + k < 2 ^ 64"
    using h kL by simp
  let ?t = "(unat (abs_dst c), cursor_dev g c + unat n, k)"
  have "plan g q' = plan g q @ [?t]"
    using partial_plan [OF sub inv out(1)] room_nk by (simp add: hb cursor_dev_def)
  moreover have "splits [?t] (unat (abs_dst c)) (cursor_dev g c + unat n) k"
    using kpos by simp
  moreover have dst: "unat (abs_dst c') = unat (abs_dst c) + k"
    using room kle by (simp add: out unat_add_noof hb cursor_room_def)
  moreover have rem: "unat (remaining c') = unat (remaining c) - k"
    using kle by (simp add: out unat_sub_noof hb word_le_nat_alt)
  moreover have slba: "unat (cur_slba c') = unat (cur_slba c) + 1"
    using room by (simp add: out cursor_room_def unat_add_noof)
  moreover have dev: "k = unat (remaining c) \<or> cursor_dev g c' = cursor_dev g c + unat n + k"
    using h by (auto simp: cursor_dev_def slba k_def min_def)
  moreover have "cursor_room g c'"
  proof -
    have "unat (remaining c') div lba_bytes g \<le> unat (remaining c) div lba_bytes g"
      using rem by (intro div_le_mono) simp
    then show ?thesis
      using room room2 dst rem slba kle unfolding cursor_room_def by linarith
  qed
  ultimately show ?thesis
    using kL mdts kle by (intro exI [of _ "[?t]"] exI [of _ k]) simp
qed

section \<open>Extents\<close>

text \<open>
  An extent whose file range and block range do not wrap around, and the transfer that reading its
  overlap with the file range from \<open>rs\<close> to \<open>re\<close> has to make when the range goes to \<open>dst\<close>.
\<close>

definition ext_ok :: "nvme_geo \<Rightarrow> ds_extent \<Rightarrow> bool" where
  "ext_ok g e \<longleftrightarrow>
     unat (file_offset e) + unat (ext_length e) < 2 ^ 64 \<and>
     unat (slba e) + unat (ext_length e) div lba_bytes g + 3 < 2 ^ 64"

definition ext_start :: "ds_extent \<Rightarrow> nat" where
  "ext_start e = unat (file_offset e)"

definition ext_stop :: "ds_extent \<Rightarrow> nat" where
  "ext_stop e = unat (file_offset e) + unat (ext_length e)"

definition overlap :: "nvme_geo \<Rightarrow> nat \<Rightarrow> nat \<Rightarrow> nat \<Rightarrow> ds_extent \<Rightarrow> transfer" where
  "overlap g rs re dst e =
     (let s = max rs (ext_start e); t = min re (ext_stop e)
      in (dst + (s - rs), unat (slba e) * lba_bytes g + (s - ext_start e), t - s))"

lemma span_nat:
  assumes "ext_ok g e"
  shows "unat (span_start rs e) = max (unat rs) (ext_start e)"
    "unat (span_end re e) = min (unat re) (ext_stop e)"
proof -
  show "unat (span_start rs e) = max (unat rs) (ext_start e)"
    by (simp add: span_start_def max_def word_le_nat_alt ext_start_def)
  have "unat (file_offset e + ext_length e) = ext_stop e"
    using assms by (simp add: ext_ok_def unat_add_noof ext_stop_def)
  then show "unat (span_end re e) = min (unat re) (ext_stop e)"
    by (simp add: span_end_def min_def word_le_nat_alt)
qed

text \<open>The cursor \<open>read_extent\<close> starts from: the first block of the overlap, its address and its length.\<close>

definition extent_cursor :: "nvme_geo \<Rightarrow> u64 \<Rightarrow> u64 \<Rightarrow> u64 \<Rightarrow> ds_extent \<Rightarrow> read_cursor" where
  "extent_cursor g rs re dst e =
     \<lparr>cur_slba = slba e + drop_bit (unat (lba_shift g)) (span_start rs e - file_offset e),
      abs_dst = dst + (span_start rs e - rs), remaining = span_end re e - span_start rs e\<rparr>"

lemma extent_cursor:
  assumes geo: "geo_ok g" and ext: "ext_ok g e" and req: "rs \<le> re"
    and dst: "unat dst + (unat re - unat rs) < 2 ^ 64" and lap: "span_start rs e < span_end re e"
  defines "c \<equiv> extent_cursor g rs re dst e" and "n \<equiv> (span_start rs e - file_offset e) AND lba_mask g"
  shows "overlap g (unat rs) (unat re) (unat dst) e = (unat (abs_dst c), cursor_dev g c + unat n, unat (remaining c))"
    "cursor_room g c" "unat (cur_slba c) + unat (remaining c) div lba_bytes g + 2 < 2 ^ 64"
    "unat n < lba_bytes g" "0 < unat (remaining c)"
proof -
  define L where "L = lba_bytes g"
  define s where "s = max (unat rs) (ext_start e)"
  define t where "t = min (unat re) (ext_stop e)"
  define off where "off = span_start rs e - file_offset e"
  have st: "unat (span_start rs e) = s" "unat (span_end re e) = t" "s < t"
    using span_nat [OF ext] lap by (auto simp: s_def t_def word_less_nat_alt)
  have bounds: "unat rs \<le> s" "ext_start e \<le> s" "t \<le> unat re" "t \<le> ext_stop e"
    by (auto simp: s_def t_def)
  have off: "unat off = s - ext_start e"
    unfolding off_def using st bounds
    by (subst unat_sub_noof) (auto simp: word_le_nat_alt ext_start_def)
  have rem: "unat (remaining c) = t - s"
    unfolding c_def extent_cursor_def using st by (simp add: unat_sub_noof word_le_nat_alt)
  have "unat (span_start rs e - rs) = s - unat rs"
    using st bounds by (subst unat_sub_noof) (auto simp: word_le_nat_alt)
  then have adst: "unat (abs_dst c) = unat dst + (s - unat rs)"
    using dst bounds st by (simp add: c_def extent_cursor_def unat_add_noof)
  have "(unat off + (t - s)) div L \<le> unat (ext_length e) div L"
    using bounds st(3) unfolding off ext_start_def ext_stop_def by (intro div_le_mono) linarith
  then have blocks: "unat off div L + (t - s) div L \<le> unat (ext_length e) div L"
    using div_add1_eq [of "unat off" "t - s" L] by linarith
  have slba: "unat (cur_slba c) = unat (slba e) + unat off div L"
    using blocks ext by (simp add: c_def extent_cursor_def unat_add_noof geo_shift ext_ok_def L_def flip: off_def)
  have n: "unat n = unat off mod L"
    by (simp add: n_def geo_mask [OF geo] L_def off_def)
  show room2: "unat (cur_slba c) + unat (remaining c) div lba_bytes g + 2 < 2 ^ 64"
    unfolding rem slba using blocks ext unfolding ext_ok_def L_def by linarith
  show "cursor_room g c"
    using room2 adst rem dst bounds st(3) unfolding cursor_room_def by linarith
  show "unat n < lba_bytes g" "0 < unat (remaining c)"
    using st(3) by (simp_all add: n L_def rem)
  show "overlap g (unat rs) (unat re) (unat dst) e = (unat (abs_dst c), cursor_dev g c + unat n, unat (remaining c))"
    by (simp add: overlap_def Let_def adst rem cursor_dev_def slba n L_def [symmetric] off [symmetric]
      algebra_simps flip: s_def t_def)
qed

lemma extent_splits:
  assumes geo: "geo_ok g" and mdts: "lba_bytes g \<le> unat (mdts_nbytes g)" and ext: "ext_ok g e"
    and req: "rs \<le> re" and dst: "unat dst + (unat re - unat rs) < 2 ^ 64"
    and lap: "span_start rs e < span_end re e"
    and res: "read_extent g alloc rs re dst e as q = Some (rc, as', q')" and inv: "op_inv g q"
    and rc: "\<not> rc < 0"
  shows "\<exists>ts. plan g q' = plan g q @ ts \<and> bounded_by (unat (mdts_nbytes g)) ts \<and>
    (case overlap g (unat rs) (unat re) (unat dst) e of (d, s, n) \<Rightarrow> splits ts d s n)"
proof -
  define c where "c = extent_cursor g rs re dst e"
  define n where "n = (span_start rs e - file_offset e) AND lba_mask g"
  note cur = extent_cursor [OF geo ext req dst lap, folded c_def n_def]
  obtain rc1 c1 as1 q1 where head: "read_head g alloc n c as q = Some ((rc1, c1), as1, q1)"
    and out: "(if rc1 < 0 then Some (-1, as1, q1) else read_body g alloc c1 as1 q1) = Some (rc, as', q')"
    using res unfolding read_extent_def Let_def n_def c_def extent_cursor_def by (auto split: option.splits)
  have rc1: "\<not> rc1 < 0" and body: "read_body g alloc c1 as1 q1 = Some (rc, as', q')"
    using out rc by (auto split: if_splits)
  from head_splits [OF geo mdts cur(2-5) head inv rc1]
  obtain ts k where ts: "plan g q1 = plan g q @ ts" "bounded_by (unat (mdts_nbytes g)) ts"
    "k \<le> unat (remaining c)" "splits ts (unat (abs_dst c)) (cursor_dev g c + unat n) k"
    "unat (abs_dst c1) = unat (abs_dst c) + k" "unat (remaining c1) = unat (remaining c) - k"
    "k = unat (remaining c) \<or> cursor_dev g c1 = cursor_dev g c + unat n + k" "cursor_room g c1"
    by blast
  have less: "unat n < unat (lba_size g)"
    unfolding n_def by (rule masked_offset_less [OF geo_lba(3) [OF geo]])
  obtain us where us: "plan g q' = plan g q1 @ us" "bounded_by (unat (mdts_nbytes g)) us"
    "splits us (unat (abs_dst c1)) (cursor_dev g c1) (unat (remaining c1))"
    using body_splits [OF geo mdts ts(8) body step_ok_inv [OF read_head_step [OF head inv less]] rc] by blast
  have us': "splits us (unat (abs_dst c) + k) (cursor_dev g c + unat n + k) (unat (remaining c) - k)"
    using us(3) ts(5-7) by (cases us) auto
  have "splits (ts @ us) (unat (abs_dst c)) (cursor_dev g c + unat n) (unat (remaining c))"
    using splits_append [OF ts(4) us'] unfolding le_add_diff_inverse [OF ts(3)] .
  then show ?thesis
    using ts(1,2) us(1,2) unfolding cur(1) by (intro exI [of _ "ts @ us"]) simp
qed

section \<open>All extents of a request\<close>

text \<open>
  The transfers a request needs, one for every extent it overlaps, in the order of the extents: the
  specification of the read loop. Extents are sorted when no extent starts before one that is listed
  earlier, as a filesystem reports them.
\<close>

definition needed :: "nvme_geo \<Rightarrow> nat \<Rightarrow> nat \<Rightarrow> nat \<Rightarrow> ds_extent list \<Rightarrow> transfer list" where
  "needed g rs re dst es = filter (\<lambda>(d, s, n). 0 < n) (map (overlap g rs re dst) es)"

definition extents_sorted :: "ds_extent list \<Rightarrow> bool" where
  "extents_sorted es \<longleftrightarrow> sorted (map ext_start es)"

text \<open>\<open>realises ts ns\<close>: the transfers \<open>ts\<close> are, in order, exact splits of the transfers \<open>ns\<close>.\<close>

fun realises :: "transfer list \<Rightarrow> transfer list \<Rightarrow> bool" where
  "realises ts [] \<longleftrightarrow> ts = []"
| "realises ts ((d, s, n) # ns) \<longleftrightarrow>
     (\<exists>k \<le> length ts. splits (take k ts) d s n \<and> realises (drop k ts) ns)"

lemma realises_Cons: "splits ts d s n \<Longrightarrow> realises us ns \<Longrightarrow> realises (ts @ us) ((d, s, n) # ns)"
  by (auto intro!: exI [of _ "length ts"])

lemma overlap_empty_iff:
  assumes "ext_ok g e"
  shows "(case overlap g (unat rs) (unat re) dst e of (d, s, n) \<Rightarrow> 0 < n) \<longleftrightarrow>
         span_start rs e < span_end re e"
  using span_nat [OF assms] by (simp add: overlap_def Let_def word_less_nat_alt)

lemma needed_past_end:
  assumes "extents_sorted (e # es)" "re \<le> ext_start e"
  shows "needed g rs re dst (e # es) = []"
  using assms by (auto simp: needed_def extents_sorted_def overlap_def Let_def filter_empty_conv)

lemma read_extents_plan:
  assumes geo: "geo_ok g" and mdts: "lba_bytes g \<le> unat (mdts_nbytes g)"
    and exts: "\<forall>e \<in> set es. ext_ok g e" "extents_sorted es"
    and req: "rs \<le> re" and dst: "unat dst + (unat re - unat rs) < 2 ^ 64"
    and res: "read_extents g alloc rs re dst es as q = Some (as', q')" and inv: "op_inv g q"
    and good: "op_err (q_op q') = OPENDS_SUCCESS"
  shows "\<exists>ts. plan g q' = plan g q @ ts \<and> bounded_by (unat (mdts_nbytes g)) ts \<and>
    realises ts (needed g (unat rs) (unat re) (unat dst) es)"
  using exts res inv
proof (induction es arbitrary: as q)
  case Nil
  then show ?case
    by (auto simp: needed_def intro!: exI [of _ "[]"])
next
  case (Cons e es)
  have ext: "ext_ok g e"
    using Cons.prems by simp
  consider (past) "file_offset e \<ge> re" | (skip) "\<not> file_offset e \<ge> re" "span_start rs e \<ge> span_end re e"
    | (read) "\<not> file_offset e \<ge> re" "span_start rs e < span_end re e"
    by fastforce
  then show ?case
  proof cases
    case past
    then have "unat re \<le> ext_start e"
      by (simp add: word_le_nat_alt ext_start_def)
    then show ?thesis
      using needed_past_end [OF Cons.prems(2)] past Cons.prems(3)
      by (intro exI [of _ "[]"]) simp
  next
    case skip
    then have "needed g (unat rs) (unat re) (unat dst) (e # es) = needed g (unat rs) (unat re) (unat dst) es"
      using overlap_empty_iff [OF ext, of rs re "unat dst"] by (auto simp: needed_def)
    then show ?thesis
      using Cons skip by (simp add: extents_sorted_def)
  next
    case read
    obtain d s n where lap: "overlap g (unat rs) (unat re) (unat dst) e = (d, s, n)"
      by (cases "overlap g (unat rs) (unat re) (unat dst) e")
    have need: "needed g (unat rs) (unat re) (unat dst) (e # es) =
        (d, s, n) # needed g (unat rs) (unat re) (unat dst) es"
      using overlap_empty_iff [OF ext, of rs re "unat dst"] read lap by (simp add: needed_def)
    obtain rc1 as1 q1 where one: "read_extent g alloc rs re dst e as q = Some (rc1, as1, q1)"
      and out: "(if rc1 < 0 then Some (as1, q1) else read_extents g alloc rs re dst es as1 q1) = Some (as', q')"
      using Cons.prems(3) read by (auto split: option.splits if_splits)
    have step: "step_ok g q rc1 q1"
      by (rule read_extent_step [OF one Cons.prems(4) geo_lba(3) [OF geo]])
    have rc1: "\<not> rc1 < 0"
      using out good step by (auto simp: step_ok_def rc_ok_def)
    obtain ts where ts: "plan g q1 = plan g q @ ts" "bounded_by (unat (mdts_nbytes g)) ts" "splits ts d s n"
      using extent_splits [OF geo mdts ext req dst read(2) one Cons.prems(4) rc1] lap by auto
    obtain us where us: "plan g q' = plan g q1 @ us" "bounded_by (unat (mdts_nbytes g)) us"
      "realises us (needed g (unat rs) (unat re) (unat dst) es)"
      using Cons.IH [of as1 q1] Cons.prems out rc1 step_ok_inv [OF step]
      by (auto simp: extents_sorted_def)
    show ?thesis
      using ts us realises_Cons [OF ts(3) us(3)] unfolding need
      by (intro exI [of _ "ts @ us"]) simp
  qed
qed

text \<open>Byte counts: what the operation accounts for is what its plan moves.\<close>

definition transfer_bytes :: "transfer list \<Rightarrow> nat" where
  "transfer_bytes ts = sum_list (map (\<lambda>(d, s, n). n) ts)"

lemma transfer_bytes_simps [simp]:
  "transfer_bytes [] = 0" "transfer_bytes ((d, s, n) # ts) = n + transfer_bytes ts"
  "transfer_bytes (ts @ us) = transfer_bytes ts + transfer_bytes us"
  by (simp_all add: transfer_bytes_def)

lemma splits_bytes: "splits ts d s n \<Longrightarrow> transfer_bytes ts = n"
  by (induction ts d s n rule: splits.induct) auto

lemma realises_bytes: "realises ts ns \<Longrightarrow> transfer_bytes ts = transfer_bytes ns"
proof (induction ts ns rule: realises.induct)
  case (2 ts d s n ns)
  then obtain k where k: "splits (take k ts) d s n" "realises (drop k ts) ns"
    by auto
  then have "transfer_bytes (take k ts) = n" "transfer_bytes (drop k ts) = transfer_bytes ns"
    using 2 splits_bytes by auto
  then show ?case
    using transfer_bytes_simps(3) [of "take k ts" "drop k ts"] by simp
qed simp

lemma of_nat_unat_u64: "unat (x :: u64) = n \<Longrightarrow> x = of_nat n"
  by (auto simp: word_eq_iff_unsigned)

lemma accounted_bytes:
  assumes "geo_ok g" "length (bounces_of cs) = length bs"
  shows "chunk_bytes g cs + sum_list (map slot_nbytes bs) =
         of_nat (transfer_bytes (transfers (lba_bytes g) cs bs))"
  using assms(2)
proof (induction "lba_bytes g" cs bs rule: transfers.induct)
  case (2 c cs bs)
  have "ucast (lba_size g) = (of_nat (lba_bytes g) :: u64)"
    by (rule of_nat_unat_u64 [OF geo_lba(2) [OF assms(1)]])
  then have "cmd_bytes g c = of_nat (Suc (unat (cmd_nlb c)) * lba_bytes g)"
    by (simp add: cmd_bytes_def unsigned_ucast_eq algebra_simps)
  then show ?case
    using 2 by (auto simp: algebra_simps split: list.splits)
qed simp

section \<open>A read operation\<close>

lemma request_end:
  fixes len rs :: u64
  assumes "\<not> len > - 1 - rs"
  shows "unat (rs + len) = unat rs + unat len" "rs \<le> rs + len"
proof -
  have "unat (- 1 - rs) = 2 ^ 64 - 1 - unat rs"
    by (subst unat_sub_noof) (simp_all add: unsigned_minus_1_eq_mask mask_eq_exp_minus_1)
  then have "unat rs + unat len < 2 ^ 64"
    using assms unat_u64_bound [of rs] by (simp add: word_less_nat_alt)
  then show "unat (rs + len) = unat rs + unat len"
    by (simp add: unat_add_noof)
  then show "rs \<le> rs + len"
    by (simp add: word_le_nat_alt)
qed

lemma start_read_op_plan:
  assumes fresh: "fresh_op q" and geo: "geo_ok g"
    and exts: "\<forall>e \<in> set es. ext_ok g e" "extents_sorted es"
    and req: "op_request cells (q_op q) = (len, rs, base)" and dst: "unat base + unat len < 2 ^ 64"
    and res: "start_read_op g cells alloc (Inr es) as q = Some (as', q')"
    and good: "op_err (q_op q') = OPENDS_SUCCESS"
  shows "bounded_by (unat (mdts_nbytes g)) (plan g q') \<and>
    realises (plan g q') (needed g (unat rs) (unat rs + unat len) (unat base) es)"
proof -
  have mdts0: "drop_bit (unat (lba_shift g)) (mdts_nbytes g) \<noteq> 0" and len: "\<not> len > - 1 - rs"
    and run: "read_extents g alloc rs (rs + len) base es as q = Some (as', q')"
    using res good geo_lba(3) [OF geo] req by (auto simp: start_read_op_def split: if_splits)
  have "unat (mdts_nbytes g) div lba_bytes g \<noteq> 0"
    using mdts0 by (simp add: unat_drop_bit_div [symmetric] lba_bytes_def unat_eq_0)
  then have mdts: "lba_bytes g \<le> unat (mdts_nbytes g)"
    by (simp add: div_eq_0_iff)
  have "plan g q = []"
    using fresh by (simp add: plan_def fresh_op_def)
  then show ?thesis
    using read_extents_plan [OF geo mdts exts request_end(2) [OF len] _ run fresh_op_inv [OF fresh] good]
      dst by (auto simp: request_end(1) [OF len])
qed

lemma start_read_op_bytes:
  assumes fresh: "fresh_op q" and geo: "geo_ok g"
    and exts: "\<forall>e \<in> set es. ext_ok g e" "extents_sorted es"
    and req: "op_request cells (q_op q) = (len, rs, base)" and dst: "unat base + unat len < 2 ^ 64"
    and res: "start_read_op g cells alloc (Inr es) as q = Some (as', q')"
    and landed: "q'' = queue_poke (lba_size g) cs q'" "q_inflight q'' = []"
    and good: "op_err (q_op q'') = OPENDS_SUCCESS"
  shows "bytes_acc (q_op q'') =
    of_nat (transfer_bytes (needed g (unat rs) (unat rs + unat len) (unat base) es))"
proof -
  have same: "same_plan q' q''"
    unfolding landed(1) by (rule poke_same_plan)
  then have good1: "op_err (q_op q') = OPENDS_SUCCESS"
    using good by (auto simp: same_plan_def)
  have inv: "op_inv g q''"
    unfolding landed(1) by (rule poke_inv [OF conjunct1 [OF start_read_op_inv [OF res fresh_op_inv [OF fresh]]]])
  have "bytes_acc (q_op q'') = of_nat (transfer_bytes (plan g q''))"
    using inv good landed(2) accounted_bytes [OF geo inv_log_slots [OF inv]]
    by (simp add: op_inv_def bytes_ok_def plan_def)
  also have "plan g q'' = plan g q'"
    by (rule plan_same [OF same])
  also have "transfer_bytes (plan g q') =
      transfer_bytes (needed g (unat rs) (unat rs + unat len) (unat base) es)"
    using start_read_op_plan [OF fresh geo exts req dst res good1] realises_bytes by blast
  finally show ?thesis .
qed

end
