(* ===== verification/Direct_IO.thy ===== *)
theory Direct_IO
  imports Status
begin

text \<open>
  The O_DIRECT file access shared by the backends, src/opends_common.c: \<open>read_block\<close>, \<open>rmw_fill\<close>,
  \<open>opends_direct_pwrite\<close> and \<open>opends_direct_pread\<close>.

  A file is its list of bytes. What the kernel answers is an argument: each \<open>pread\<close> and \<open>pwrite\<close>
  meets the next answer of its list, which either moves at most so many bytes, is interrupted, or
  fails with an errno; when the list ends inside a loop the loop is still running, which is the
  result \<open>None\<close>. \<open>off_t\<close> is an integer, \<open>size_t\<close> a 64-bit word. Errnos come back negated, as in the
  code.
\<close>

type_synonym bytes = "u8 list"

datatype answer = Xfer nat | Intr | Fail int

definition EINVAL :: int where "EINVAL = 22"
definition EINTR :: int where "EINTR = 4"
definition EIO :: int where "EIO = 5"
definition ENOMEM_errno :: int where "ENOMEM_errno = 12"
definition OPENDS_DIRECT_ALIGN :: nat where "OPENDS_DIRECT_ALIGN = 4096"
definition BLOCK :: u64 where "BLOCK = 4096"

section \<open>Byte ranges\<close>

text \<open>\<open>blit b i xs\<close> stores \<open>xs\<close> at index \<open>i\<close> of \<open>b\<close>; \<open>file_write\<close> first extends a file with zeros.\<close>

definition blit :: "bytes \<Rightarrow> nat \<Rightarrow> bytes \<Rightarrow> bytes" where
  "blit b i xs = take i b @ xs @ drop (i + length xs) b"

definition file_write :: "bytes \<Rightarrow> nat \<Rightarrow> bytes \<Rightarrow> bytes" where
  "file_write f i xs = (if xs = [] then f else blit (f @ replicate (i - length f) 0) i xs)"

definition ftruncate :: "bytes \<Rightarrow> nat \<Rightarrow> bytes" where
  "ftruncate f n = take n f @ replicate (n - length f) 0"

section \<open>System calls\<close>

definition pread :: "answer \<Rightarrow> bytes \<Rightarrow> nat \<Rightarrow> int \<Rightarrow> int + bytes" where
  "pread a f n off =
     (if off < 0 then Inl EINVAL
      else case a of
             Xfer k \<Rightarrow> Inr (take (min k n) (drop (nat off) f))
           | Intr \<Rightarrow> Inl EINTR
           | Fail e \<Rightarrow> Inl e)"

text \<open>A write answers with the number of bytes it took.\<close>

definition pwrite :: "answer \<Rightarrow> bytes \<Rightarrow> bytes \<Rightarrow> int \<Rightarrow> (int + nat) \<times> bytes" where
  "pwrite a f xs off =
     (if off < 0 then (Inl EINVAL, f)
      else case a of
             Xfer k \<Rightarrow> (Inr (min k (length xs)), file_write f (nat off) (take k xs))
           | Intr \<Rightarrow> (Inl EINTR, f)
           | Fail e \<Rightarrow> (Inl e, f))"

section \<open>One block\<close>

fun read_block :: "bytes \<Rightarrow> int \<Rightarrow> answer list \<Rightarrow> ((int + bytes) \<times> answer list) option" where
  "read_block f off [] = None"
| "read_block f off (a # as) =
     (case pread a f OPENDS_DIRECT_ALIGN off of
        Inl e \<Rightarrow> if e = EINTR then read_block f off as else Some (Inl (- e), as)
      | Inr xs \<Rightarrow> Some (Inr (xs @ replicate (OPENDS_DIRECT_ALIGN - length xs) 0), as))"

text \<open>
  What the rest of the system answers to one call: the descriptor that \<open>rmw_fill\<close> opens for reading
  (or its negated errno), the bounce buffer that \<open>posix_memalign\<close> returns with its old contents, the
  negated errno of \<open>fstat\<close> and of \<open>ftruncate\<close>, 0 if they succeed.
\<close>

record os_calls =
  open_rc :: int
  memalign :: "u64 \<Rightarrow> bytes option"
  fstat_rc :: int
  ftruncate_rc :: int

definition O_ACCMODE :: u32 where "O_ACCMODE = 3"
definition O_WRONLY :: u32 where "O_WRONLY = 1"

definition rmw_fill ::
  "os_calls \<Rightarrow> bytes \<Rightarrow> u32 \<Rightarrow> bytes \<Rightarrow> int \<Rightarrow> u64 \<Rightarrow> u64 \<Rightarrow> u64 \<Rightarrow> answer list
    \<Rightarrow> ((int + bytes) \<times> answer list) option" where
  "rmw_fill os f oflags bounce start span head tail as =
     (let last = span - BLOCK in
      if oflags AND O_ACCMODE = O_WRONLY \<and> open_rc os < 0 then Some (Inl (open_rc os), as)
      else case (if head \<noteq> 0
                 then (case read_block f start as of
                         None \<Rightarrow> None
                       | Some (Inl e, as') \<Rightarrow> Some (Inl e, as')
                       | Some (Inr xs, as') \<Rightarrow> Some (Inr (blit bounce 0 xs), as'))
                 else Some (Inr bounce, as)) of
             None \<Rightarrow> None
           | Some (Inl e, as1) \<Rightarrow> Some (Inl e, as1)
           | Some (Inr b1, as1) \<Rightarrow>
               if tail \<noteq> 0 \<and> (last \<noteq> 0 \<or> head = 0)
               then (case read_block f (start + int (unat last)) as1 of
                       None \<Rightarrow> None
                     | Some (Inl e, as2) \<Rightarrow> Some (Inl e, as2)
                     | Some (Inr xs, as2) \<Rightarrow> Some (Inr (blit b1 (unat last) xs), as2))
               else Some (Inr b1, as1))"

section \<open>Writing\<close>

fun pwrite_loop :: "bytes \<Rightarrow> int \<Rightarrow> u64 \<Rightarrow> answer list \<Rightarrow> u64 \<Rightarrow> bytes \<Rightarrow> (int \<times> bytes) option" where
  "pwrite_loop bounce start span [] written f = (if written < span then None else Some (0, f))"
| "pwrite_loop bounce start span (a # as) written f =
     (if written < span then
        (case pwrite a f (take (unat (span - written)) (drop (unat written) bounce))
                (start + int (unat written)) of
           (Inl e, f') \<Rightarrow> if e = EINTR then pwrite_loop bounce start span as written f' else Some (- e, f')
         | (Inr w, f') \<Rightarrow> if w = 0 then Some (- EIO, f')
                         else pwrite_loop bounce start span as (written + of_nat w) f')
      else Some (0, f))"

text \<open>
  The copy callback stores the source at an index of the bounce buffer and returns 0, or an error.
\<close>

type_synonym copy_fn = "bytes \<Rightarrow> nat \<Rightarrow> bytes \<Rightarrow> int \<times> bytes"

definition direct_start :: "int \<Rightarrow> int" where
  "direct_start off = off AND NOT (int OPENDS_DIRECT_ALIGN - 1)"

definition direct_head :: "int \<Rightarrow> u64" where
  "direct_head off = word_of_int (off - direct_start off)"

definition direct_span :: "int \<Rightarrow> u64 \<Rightarrow> u64" where
  "direct_span off len = (direct_head off + len + BLOCK - 1) AND NOT (BLOCK - 1)"

text \<open>The size that the file gets back when the last block reaches past its end, -1 if none.\<close>

definition trunc_target :: "bytes \<Rightarrow> int \<Rightarrow> u64 \<Rightarrow> int" where
  "trunc_target f off len =
     (let stop = off + int (unat len);
          st_size = (if int (length f) < stop then stop else int (length f))
      in if direct_start off + int (unat (direct_span off len)) > st_size then st_size else -1)"

text \<open>
  The body before the first write to the file: the buffer, the edge blocks and the copy. Its error is
  the \<open>goto out\<close> of the C code.
\<close>

definition stage_write ::
  "os_calls \<Rightarrow> copy_fn \<Rightarrow> u32 \<Rightarrow> bytes \<Rightarrow> u64 \<Rightarrow> int \<Rightarrow> answer list \<Rightarrow> bytes \<Rightarrow> (int + bytes) option" where
  "stage_write os copy oflags src len off ras f =
     (let start = direct_start off; head = direct_head off; span = direct_span off len;
          tail = span - head - len
      in (case memalign os span of
           None \<Rightarrow> Some (Inl (- ENOMEM_errno))
         | Some bounce \<Rightarrow>
             if tail \<noteq> 0 \<and> fstat_rc os < 0 then Some (Inl (fstat_rc os))
             else (case (if head \<noteq> 0 \<or> tail \<noteq> 0 then rmw_fill os f oflags bounce start span head tail ras
                        else Some (Inr bounce, ras)) of
                    None \<Rightarrow> None
                  | Some (Inl e, _) \<Rightarrow> Some (Inl e)
                  | Some (Inr b, _) \<Rightarrow>
                      (case copy b (unat head) (take (unat len) src) of (crc, b') \<Rightarrow>
                         if crc \<noteq> 0 then Some (Inl (- EIO)) else Some (Inr b')))))"

text \<open>The body from the first write on.\<close>

definition flush_write ::
  "os_calls \<Rightarrow> bytes \<Rightarrow> int \<Rightarrow> u64 \<Rightarrow> int \<Rightarrow> u64 \<Rightarrow> answer list \<Rightarrow> bytes \<Rightarrow> (int \<times> bytes) option" where
  "flush_write os bounce start span trunc_to len was f =
     (case pwrite_loop bounce start span was 0 f of
        None \<Rightarrow> None
      | Some (rc, f1) \<Rightarrow>
          if rc < 0 then Some (rc, f1)
          else if trunc_to \<ge> 0
          then (if ftruncate_rc os < 0 then Some (ftruncate_rc os, f1)
                else Some (int (unat len), ftruncate f1 (nat trunc_to)))
          else Some (int (unat len), f1))"

definition opends_direct_pwrite ::
  "os_calls \<Rightarrow> copy_fn \<Rightarrow> u32 \<Rightarrow> bytes \<Rightarrow> u64 \<Rightarrow> int \<Rightarrow> answer list \<Rightarrow> answer list \<Rightarrow> bytes
    \<Rightarrow> (int \<times> bytes) option" where
  "opends_direct_pwrite os copy oflags src len off ras was f =
     (if len = 0 then Some (0, f)
      else
        let span = direct_span off len;
            trunc_to = (if span - direct_head off - len \<noteq> 0 then trunc_target f off len else -1)
        in case stage_write os copy oflags src len off ras f of
             None \<Rightarrow> None
           | Some (Inl e) \<Rightarrow> Some (e, f)
           | Some (Inr bounce) \<Rightarrow> flush_write os bounce (direct_start off) span trunc_to len was f)"

text \<open>The copy of the reference backend, \<open>host_copy\<close> in src/opends_ref.c, is \<open>memcpy\<close>.\<close>

definition host_copy :: copy_fn where
  "host_copy b i xs = (0, blit b i xs)"

section \<open>Reading\<close>

text \<open>The loop of \<open>opends_direct_pread\<close>: the bytes it got, or a negated errno.\<close>

fun pread_loop :: "bytes \<Rightarrow> int \<Rightarrow> u64 \<Rightarrow> answer list \<Rightarrow> bytes \<Rightarrow> (int + bytes) option" where
  "pread_loop f start span [] got = (if length got < unat span then None else Some (Inr got))"
| "pread_loop f start span (a # as) got =
     (if length got < unat span then
        (case pread a f (unat span - length got) (start + int (length got)) of
           Inl e \<Rightarrow> if e = EINTR then pread_loop f start span as got else Some (Inl (- e))
         | Inr xs \<Rightarrow> if xs = [] then Some (Inr got) else pread_loop f start span as (got @ xs))
      else Some (Inr got))"

text \<open>The result is the return value and the bytes stored at the start of the destination.\<close>

definition opends_direct_pread ::
  "os_calls \<Rightarrow> bytes \<Rightarrow> u64 \<Rightarrow> int \<Rightarrow> answer list \<Rightarrow> (int \<times> bytes) option" where
  "opends_direct_pread os f len off as =
     (if len = 0 then Some (0, [])
      else
        let start = direct_start off; head = direct_head off; span = direct_span off len
        in if memalign os span = None then Some (- ENOMEM_errno, [])
           else case pread_loop f start span as [] of
                  None \<Rightarrow> None
                | Some (Inl e) \<Rightarrow> Some (e, [])
                | Some (Inr got) \<Rightarrow>
                    if length got > unat head
                    then let n = min (length got - unat head) (unat len)
                         in Some (int n, take n (drop (unat head) got))
                    else Some (0, []))"

lemma and_not_mask:
  fixes a :: "'a :: ring_bit_operations"
  shows "a AND NOT (mask n) = a - take_bit n a"
proof -
  have "a - take_bit n a = a AND NOT (take_bit n a)"
    by (rule disjunctive_diff_eq_and_not) (auto simp: bit_eq_iff bit_simps)
  also have "\<dots> = a AND NOT (mask n)"
    by (rule bit_eqI) (auto simp: bit_simps)
  finally show ?thesis ..
qed

lemma length_blit [simp]: "i + length xs \<le> length b \<Longrightarrow> length (blit b i xs) = length b"
  by (simp add: blit_def)

lemma nth_blit:
  assumes "i + length xs \<le> length b" "j < length b"
  shows "blit b i xs ! j = (if i \<le> j \<and> j < i + length xs then xs ! (j - i) else b ! j)"
  using assms by (auto simp: blit_def nth_append min_def)

lemma length_file_write [simp]:
  "length (file_write f i xs) = (if xs = [] then length f else max (length f) (i + length xs))"
  by (auto simp: file_write_def blit_def max_def min_def)

text \<open>The byte at an offset; past the end, where a file would be extended with zeros, it is zero.\<close>

definition file_byte :: "bytes \<Rightarrow> nat \<Rightarrow> u8" where
  "file_byte f q = (if q < length f then f ! q else 0)"

lemma file_byte_beyond: "length f \<le> q \<Longrightarrow> file_byte f q = 0"
  by (simp add: file_byte_def)

lemma file_byte_write:
  "file_byte (file_write f i xs) q = (if i \<le> q \<and> q < i + length xs then xs ! (q - i) else file_byte f q)"
  by (auto simp: file_byte_def file_write_def blit_def nth_append min_def)

lemma file_eqI: "length f = length g \<Longrightarrow> (\<And>q. file_byte f q = file_byte g q) \<Longrightarrow> f = g"
  unfolding file_byte_def by (metis nth_equalityI)

lemma file_byte_truncate: "file_byte (ftruncate f n) q = (if q < n then file_byte f q else 0)"
  by (auto simp: file_byte_def ftruncate_def nth_append)

lemma length_ftruncate [simp]: "length (ftruncate f n) = n"
  by (simp add: ftruncate_def)

lemma file_write_append:
  "file_write (file_write f i xs) (i + length xs) ys = file_write f i (xs @ ys)"
proof (rule file_eqI)
  show "file_byte (file_write (file_write f i xs) (i + length xs) ys) q =
      file_byte (file_write f i (xs @ ys)) q" for q
    by (auto simp: file_byte_write nth_append)
qed auto

lemma direct_start_nat: "direct_start (int p) = int (p div OPENDS_DIRECT_ALIGN * OPENDS_DIRECT_ALIGN)"
proof -
  have "direct_start (int p) = int p - take_bit 12 (int p)"
    using and_not_mask [of "int p" 12] by (simp add: direct_start_def OPENDS_DIRECT_ALIGN_def mask_eq_exp_minus_1)
  also have "\<dots> = int (p - p mod 4096)"
    by (simp add: take_bit_eq_mod of_nat_diff zmod_int)
  finally show ?thesis
    by (simp add: OPENDS_DIRECT_ALIGN_def minus_mod_eq_div_mult)
qed

lemma direct_head_nat: "unat (direct_head (int p)) = p mod OPENDS_DIRECT_ALIGN"
proof -
  have "int p - direct_start (int p) = int (p mod 4096)"
    unfolding direct_start_nat OPENDS_DIRECT_ALIGN_def
    by (simp add: of_nat_diff minus_div_mult_eq_mod [symmetric])
  then show ?thesis
    by (simp add: direct_head_def OPENDS_DIRECT_ALIGN_def unsigned_of_nat unsigned_of_int take_bit_eq_mod)
qed

definition span_bytes :: "nat \<Rightarrow> nat \<Rightarrow> nat" where
  "span_bytes p n = (p mod OPENDS_DIRECT_ALIGN + n + (OPENDS_DIRECT_ALIGN - 1)) div OPENDS_DIRECT_ALIGN * OPENDS_DIRECT_ALIGN"

lemma direct_span_nat:
  assumes "unat len + 8192 < 2 ^ 64"
  shows "unat (direct_span (int p) len) = span_bytes p (unat len)"
proof -
  let ?x = "direct_head (int p) + len + BLOCK - 1"
  have h: "p mod OPENDS_DIRECT_ALIGN < 4096"
    by (simp add: OPENDS_DIRECT_ALIGN_def)
  have e: "?x = direct_head (int p) + len + 4095"
    by (simp add: BLOCK_def)
  have "unat (direct_head (int p) + len) = p mod OPENDS_DIRECT_ALIGN + unat len"
    using assms h by (subst unat_add_noof) (simp_all add: direct_head_nat)
  then have x: "unat ?x = p mod OPENDS_DIRECT_ALIGN + unat len + 4095"
    unfolding e using assms h by (subst unat_add_noof) simp_all
  have "direct_span (int p) len = ?x - take_bit 12 ?x"
    using and_not_mask [of ?x 12] by (simp add: direct_span_def BLOCK_def mask_eq_exp_minus_1)
  moreover have "unat (take_bit 12 ?x) = unat ?x mod 4096"
    unfolding unsigned_take_bit_eq by (simp add: take_bit_eq_mod)
  ultimately have "unat (direct_span (int p) len) = unat ?x - unat ?x mod 4096"
    by (simp add: unat_sub_noof word_le_nat_alt)
  then show ?thesis
    by (simp add: span_bytes_def x OPENDS_DIRECT_ALIGN_def minus_mod_eq_div_mult)
qed

section \<open>The loops\<close>

lemma pread_at:
  "pread a f n (int p) = (case a of Xfer k \<Rightarrow> Inr (take (min k n) (drop p f)) | Intr \<Rightarrow> Inl EINTR | Fail e \<Rightarrow> Inl e)"
  by (cases a) (simp_all add: pread_def)

lemma pwrite_at:
  "pwrite a f xs (int p) = (case a of Xfer k \<Rightarrow> (Inr (min k (length xs)), file_write f p (take k xs))
     | Intr \<Rightarrow> (Inl EINTR, f) | Fail e \<Rightarrow> (Inl e, f))"
  by (cases a) (simp_all add: pwrite_def)

definition full_reads :: "answer list \<Rightarrow> bool" where
  "full_reads as \<longleftrightarrow> (\<forall>k. Xfer k \<in> set as \<longrightarrow> OPENDS_DIRECT_ALIGN \<le> k)"

lemma full_reads_Cons [simp]:
  "full_reads (a # as) \<longleftrightarrow> (\<forall>k. a = Xfer k \<longrightarrow> OPENDS_DIRECT_ALIGN \<le> k) \<and> full_reads as"
  by (auto simp: full_reads_def)

lemma read_block_result:
  assumes "read_block f (int p) as = Some (Inr xs, as')" "full_reads as"
  shows "length xs = OPENDS_DIRECT_ALIGN \<and>
    (\<forall>j < OPENDS_DIRECT_ALIGN. xs ! j = file_byte f (p + j)) \<and> full_reads as'"
  using assms
proof (induction f "int p" as rule: read_block.induct)
  case (2 f a as)
  show ?case
  proof (cases "pread a f OPENDS_DIRECT_ALIGN (int p)")
    case (Inl e)
    with 2 show ?thesis by (auto split: if_splits)
  next
    case (Inr ys)
    then have "a = Xfer k \<Longrightarrow> OPENDS_DIRECT_ALIGN \<le> k" for k
      using 2 by auto
    then have "ys = take OPENDS_DIRECT_ALIGN (drop p f)"
      using Inr by (auto simp: pread_def split: answer.splits)
    then show ?thesis
      using 2 Inr by (auto simp: file_byte_def nth_append)
  qed
qed simp

text \<open>One turn of the write loop, on a position inside the span.\<close>

lemma pwrite_turn:
  assumes "written < span" "length b = unat span"
  shows "pwrite_loop b (int s) span (a # as) written g = (case a of
      Intr \<Rightarrow> pwrite_loop b (int s) span as written g
    | Fail e \<Rightarrow> if e = EINTR then pwrite_loop b (int s) span as written g else Some (- e, g)
    | Xfer k \<Rightarrow>
        let w = min k (unat span - unat written); h = file_write g (s + unat written) (take w (drop (unat written) b))
        in if w = 0 then Some (- EIO, h) else pwrite_loop b (int s) span as (written + of_nat w) h)"
proof -
  have "unat (span - written) = unat span - unat written"
    using assms(1) by (intro unat_sub_noof) simp
  moreover have "pwrite a g xs (int s + int (unat written)) = pwrite a g xs (int (s + unat written))" for xs
    by simp
  ultimately show ?thesis
    using assms by (simp only: pwrite_loop.simps pwrite_at) (auto simp: Let_def min_def split: answer.split)
qed

lemma written_next:
  fixes written span :: u64
  assumes "unat written + w \<le> unat span"
  shows "unat (written + of_nat w) = unat written + w" "written + of_nat w \<le> span"
proof -
  have "unat (of_nat w :: u64) = w"
    using assms unat_u64_bound [of span] by (simp add: unsigned_of_nat take_bit_eq_mod)
  then show n: "unat (written + of_nat w) = unat written + w"
    using assms unat_u64_bound [of span] by (subst unat_add_noof) simp_all
  show "written + of_nat w \<le> span"
    using assms by (simp add: word_le_nat_alt n)
qed

lemma pwrite_loop_result:
  assumes "pwrite_loop b (int s) span as written g = Some (rc, f')"
    and "length b = unat span" "written \<le> span" "g = file_write f s (take (unat written) b)"
    and "\<forall>e. Fail e \<in> set as \<longrightarrow> 0 < e"
  shows "\<exists>k \<le> unat span. f' = file_write f s (take k b) \<and> (rc = 0 \<and> k = unat span \<or> rc < 0)"
  using assms
proof (induction as arbitrary: written g)
  case Nil
  then have "written = span"
    by (simp split: if_splits)
  with Nil show ?case
    by (auto intro!: exI [of _ "unat span"])
next
  case (Cons a as)
  show ?case
  proof (cases "written < span")
    case False
    with Cons.prems have "written = span" by simp
    with Cons.prems show ?thesis
      by (auto intro!: exI [of _ "unat span"])
  next
    case True
    then have lt: "unat written < unat span"
      by (simp add: word_less_nat_alt)
    note run = Cons.prems(1) [unfolded pwrite_turn [OF True Cons.prems(2)]]
    have stop: ?thesis if "f' = g" "rc < 0"
      using that Cons.prems(4) lt by (intro exI [of _ "unat written"]) simp
    show ?thesis
    proof (cases a)
      case (Xfer k)
      define w where "w = min k (unat span - unat written)"
      define h where "h = file_write g (s + unat written) (take w (drop (unat written) b))"
      have next_w: "unat (written + of_nat w) = unat written + w" "written + of_nat w \<le> span"
        using written_next [of written w span] lt by (simp_all add: w_def)
      have "length (take (unat written) b) = unat written"
        using Cons.prems(2) lt by simp
      then have h: "h = file_write f s (take (unat written + w) b)"
        using file_write_append [of f s "take (unat written) b" "take w (drop (unat written) b)"] Cons.prems(4)
        by (simp add: h_def take_add)
      show ?thesis
      proof (cases "w = 0")
        case True
        then have "f' = g" "rc = - EIO"
          using run True Xfer h Cons.prems(4) by (simp_all add: Let_def h_def flip: w_def)
        then show ?thesis
          by (intro stop) (simp_all add: EIO_def)
      next
        case False
        then have "pwrite_loop b (int s) span as (written + of_nat w) h = Some (rc, f')"
          using run Xfer by (simp add: Let_def flip: w_def h_def)
        then show ?thesis
          using Cons.IH [of "written + of_nat w" h] Cons.prems(2,5) h next_w by simp
      qed
    qed (use run Cons.IH Cons.prems stop in \<open>auto split: if_splits\<close>)
  qed
qed

section \<open>The edge blocks\<close>

text \<open>The bytes of the bounce buffer that come from the file, outside the bytes to be written.\<close>

definition edges_read :: "bytes \<Rightarrow> nat \<Rightarrow> nat \<Rightarrow> nat \<Rightarrow> bytes \<Rightarrow> bool" where
  "edges_read f s head n b \<longleftrightarrow>
     (\<forall>j < length b. j < head \<or> head + n \<le> j \<longrightarrow> b ! j = file_byte f (s + j))"

lemma block_blit:
  assumes "length xs = OPENDS_DIRECT_ALIGN" "\<forall>j < OPENDS_DIRECT_ALIGN. xs ! j = file_byte f (s + i + j)"
    "i + OPENDS_DIRECT_ALIGN \<le> length b" "j < length b"
  shows "blit b i xs ! j =
    (if i \<le> j \<and> j < i + OPENDS_DIRECT_ALIGN then file_byte f (s + j) else b ! j)"
  using assms by (auto simp: nth_blit)

text \<open>One of the two steps of \<open>rmw_fill\<close>, at index \<open>i\<close> of the bounce buffer.\<close>

lemma fill_block:
  assumes res: "(if c then (case read_block f (int s + int i) as of None \<Rightarrow> None
      | Some (Inl e, as') \<Rightarrow> Some (Inl e, as')
      | Some (Inr xs, as') \<Rightarrow> Some (Inr (blit b i xs), as')) else Some (Inr b, as)) = Some (Inr b', as')"
    and ok: "full_reads as" "i + OPENDS_DIRECT_ALIGN \<le> length b"
  shows "length b' = length b \<and> full_reads as' \<and> (\<forall>j < length b.
    b' ! j = (if c \<and> i \<le> j \<and> j < i + OPENDS_DIRECT_ALIGN then file_byte f (s + j) else b ! j))"
proof (cases c)
  case True
  then obtain xs where xs: "read_block f (int (s + i)) as = Some (Inr xs, as')" "b' = blit b i xs"
    using res by (auto split: option.splits sum.splits prod.splits)
  note r = read_block_result [OF xs(1) ok(1)]
  then have "length b' = length b"
    using ok(2) by (simp add: xs(2))
  then show ?thesis
    using r True ok(2) block_blit [of xs f s i b] by (auto simp: xs(2) add.assoc)
qed (use res ok in simp)

lemma rmw_fill_edges:
  assumes res: "rmw_fill os f oflags b0 (int s) span head tail as = Some (Inr b, as')"
    and full: "full_reads as" and len: "length b0 = unat span"
    and shape: "unat span = unat head + n + unat tail" "unat head < OPENDS_DIRECT_ALIGN"
      "unat tail < OPENDS_DIRECT_ALIGN" "OPENDS_DIRECT_ALIGN \<le> unat span"
      "OPENDS_DIRECT_ALIGN dvd unat span"
  shows "length b = unat span \<and> edges_read f s (unat head) n b"
proof -
  define last where "last = span - BLOCK"
  have last: "unat last = unat span - OPENDS_DIRECT_ALIGN"
    using shape(4) unfolding last_def OPENDS_DIRECT_ALIGN_def BLOCK_def
    by (subst unat_sub_noof) (simp_all add: word_le_nat_alt)
  have last0: "last = 0 \<longleftrightarrow> unat span = OPENDS_DIRECT_ALIGN"
    using last shape(4) by (simp add: unat_eq_0 [symmetric])
  obtain b1 as1 where first: "(if head \<noteq> 0
       then (case read_block f (int s + int 0) as of None \<Rightarrow> None | Some (Inl e, as') \<Rightarrow> Some (Inl e, as')
             | Some (Inr xs, as') \<Rightarrow> Some (Inr (blit b0 0 xs), as'))
       else Some (Inr b0, as)) = Some (Inr b1, as1)"
    and second: "(if tail \<noteq> 0 \<and> (last \<noteq> 0 \<or> head = 0)
       then (case read_block f (int s + int (unat last)) as1 of None \<Rightarrow> None
             | Some (Inl e, as2) \<Rightarrow> Some (Inl e, as2)
             | Some (Inr xs, as2) \<Rightarrow> Some (Inr (blit b1 (unat last) xs), as2))
       else Some (Inr b1, as1)) = Some (Inr b, as')"
    using res unfolding rmw_fill_def Let_def last_def
    by (auto split: if_splits option.splits sum.splits prod.splits)
  have one: "length b1 = unat span" "full_reads as1"
    "\<And>j. j < unat span \<Longrightarrow> b1 ! j = (if head \<noteq> 0 \<and> j < OPENDS_DIRECT_ALIGN then file_byte f (s + j) else b0 ! j)"
    using fill_block [OF first full] len shape(4) by auto
  have two: "length b = unat span" "\<And>j. j < unat span \<Longrightarrow> b ! j =
      (if (tail \<noteq> 0 \<and> (last \<noteq> 0 \<or> head = 0)) \<and> unat last \<le> j then file_byte f (s + j) else b1 ! j)"
    using fill_block [OF second one(2)] one(1) shape(4) last by auto
  have "b ! j = file_byte f (s + j)" if "j < unat span" "j < unat head \<or> unat head + n \<le> j" for j
  proof (cases "j < unat head")
    case True
    then have "head \<noteq> 0" "j < OPENDS_DIRECT_ALIGN"
      using shape(2) by auto
    then show ?thesis
      using one(3) two(2) that(1) by simp
  next
    case False
    then have "tail \<noteq> 0" "unat last \<le> j"
      using that shape by (auto simp: last)
    then show ?thesis
      using one(3) two(2) that(1) last0 by (cases "last = 0 \<and> head \<noteq> 0") auto
  qed
  then show ?thesis
    using two(1) by (simp add: edges_read_def)
qed

section \<open>Writing\<close>

lemma span_shape:
  assumes "0 < n"
  shows "OPENDS_DIRECT_ALIGN \<le> span_bytes p n" "OPENDS_DIRECT_ALIGN dvd span_bytes p n"
    "p mod OPENDS_DIRECT_ALIGN + n \<le> span_bytes p n"
    "span_bytes p n < p mod OPENDS_DIRECT_ALIGN + n + OPENDS_DIRECT_ALIGN"
proof -
  let ?A = OPENDS_DIRECT_ALIGN
  define x where "x = p mod ?A + n"
  have A: "0 < ?A"
    by (simp add: OPENDS_DIRECT_ALIGN_def)
  have s: "span_bytes p n = (x + (?A - 1)) div ?A * ?A"
    by (simp add: span_bytes_def x_def)
  show "?A dvd span_bytes p n"
    by (simp add: s)
  have "(x + (?A - 1)) div ?A * ?A + (x + (?A - 1)) mod ?A = x + (?A - 1)"
    by (rule div_mult_mod_eq)
  moreover have "(x + (?A - 1)) mod ?A < ?A"
    using A by simp
  ultimately show 1: "p mod ?A + n \<le> span_bytes p n" and "span_bytes p n < p mod ?A + n + ?A"
    using A unfolding s x_def by linarith+
  then show "?A \<le> span_bytes p n"
    using assms \<open>?A dvd span_bytes p n\<close> by (intro dvd_imp_le) auto
qed

definition memalign_ok :: "os_calls \<Rightarrow> bool" where
  "memalign_ok os \<longleftrightarrow> (\<forall>n b. memalign os n = Some b \<longrightarrow> length b = unat n)"

definition copy_ok :: "copy_fn \<Rightarrow> bool" where
  "copy_ok copy \<longleftrightarrow>
     (\<forall>b i xs b'. i + length xs \<le> length b \<longrightarrow> copy b i xs = (0, b') \<longrightarrow> b' = blit b i xs)"

definition errnos_ok :: "answer list \<Rightarrow> bool" where
  "errnos_ok as \<longleftrightarrow> (\<forall>e. Fail e \<in> set as \<longrightarrow> 0 < e)"

lemma read_block_error:
  "read_block f (int p) as = Some (Inl e, as') \<Longrightarrow> errnos_ok as \<Longrightarrow> e < 0"
  by (induction as) (auto simp: pread_at errnos_ok_def split: sum.splits if_splits answer.splits)

lemma read_block_rest:
  "read_block f off as = Some (r, as') \<Longrightarrow> set as' \<subseteq> set as"
  by (induction as) (auto split: sum.splits if_splits)

lemma rmw_fill_error:
  assumes res: "rmw_fill os f oflags b0 (int s) span head tail as = Some (Inl e, as')" and ok: "errnos_ok as"
  shows "e < 0"
proof -
  have sub: "errnos_ok as1" if "read_block f (int s) as = Some (r, as1)" for r as1
    using read_block_rest [OF that] ok by (auto simp: errnos_ok_def)
  have at: "int s + int m = int (s + m)" for m
    by simp
  show ?thesis
  proof (cases "oflags AND O_ACCMODE = O_WRONLY \<and> open_rc os < 0")
    case True
    with res show ?thesis by (auto simp: rmw_fill_def)
  next
    case False
    define q where "q = s + unat (span - BLOCK)"
    note res' = res [unfolded rmw_fill_def Let_def if_not_P [OF False] at, folded q_def]
    show ?thesis
    proof (cases "head = 0")
      case True
      then show ?thesis
        using res' read_block_error [OF _ ok]
        by (auto split: if_splits option.splits sum.splits)
    next
      case head: False
      obtain r1 as1 where one: "read_block f (int s) as = Some (r1, as1)"
        using res' head by (auto split: option.splits)
      show ?thesis
      proof (cases r1)
        case (Inl e1)
        then show ?thesis
          using res' head one read_block_error [OF _ ok] by auto
      next
        case (Inr xs)
        then show ?thesis
          using res' head one read_block_error [OF _ sub [OF one]]
          by (auto split: if_splits option.splits sum.splits)
      qed
    qed
  qed
qed

text \<open>Everything that can happen to the file's bytes around the bytes to be written.\<close>

definition untouched :: "bytes \<Rightarrow> nat \<Rightarrow> nat \<Rightarrow> bytes \<Rightarrow> bool" where
  "untouched f p n f' \<longleftrightarrow>
     length f \<le> length f' \<and> (\<forall>q. q < p \<or> p + n \<le> q \<longrightarrow> file_byte f' q = file_byte f q)"

lemma untouched_refl [simp]: "untouched f p n f"
  by (simp add: untouched_def)

lemma bounce_write:
  assumes edges: "edges_read f s head n b1" and len: "length b1 = span" "head + n \<le> span" "length xs = n"
    and k: "k \<le> span"
  shows "untouched f (s + head) n (file_write f s (take k (blit b1 head xs)))"
    "file_byte (file_write f s (blit b1 head xs)) q = file_byte (file_write f (s + head) xs) q"
proof -
  have b: "blit b1 head xs ! j = (if head \<le> j \<and> j < head + n then xs ! (j - head) else file_byte f (s + j))"
    if "j < span" for j
    using that len edges by (auto simp: nth_blit edges_read_def)
  show "untouched f (s + head) n (file_write f s (take k (blit b1 head xs)))"
    using len k b by (auto simp: untouched_def file_byte_write)
  show "file_byte (file_write f s (blit b1 head xs)) q = file_byte (file_write f (s + head) xs) q"
    using len b by (auto simp: file_byte_write)
qed

text \<open>The geometry of a write of \<open>n > 0\<close> bytes at \<open>p\<close>, as numbers.\<close>

lemma direct_shape:
  fixes len :: u64
  assumes "0 < unat len" "p + unat len < 2 ^ 63"
  defines "span \<equiv> direct_span (int p) len" and "head \<equiv> direct_head (int p)"
    and "s \<equiv> p div OPENDS_DIRECT_ALIGN * OPENDS_DIRECT_ALIGN"
  shows "direct_start (int p) = int s" "p = s + unat head" "unat head < OPENDS_DIRECT_ALIGN"
    "unat span = unat head + unat len + unat (span - head - len)"
    "unat (span - head - len) < OPENDS_DIRECT_ALIGN"
    "OPENDS_DIRECT_ALIGN \<le> unat span" "OPENDS_DIRECT_ALIGN dvd unat span"
proof -
  show "direct_start (int p) = int s"
    by (simp add: direct_start_nat s_def)
  have h: "unat head = p mod OPENDS_DIRECT_ALIGN"
    by (simp add: head_def direct_head_nat)
  then show "p = s + unat head" "unat head < OPENDS_DIRECT_ALIGN"
    by (simp_all add: s_def OPENDS_DIRECT_ALIGN_def)
  have "unat len + 8192 < 2 ^ 64"
    using assms(2) by simp
  then have span: "unat span = span_bytes p (unat len)"
    unfolding span_def by (rule direct_span_nat)
  note shape = span_shape [OF assms(1), of p, folded h, folded span]
  show "OPENDS_DIRECT_ALIGN \<le> unat span" "OPENDS_DIRECT_ALIGN dvd unat span"
    using shape by simp_all
  have "unat (span - head) = unat span - unat head"
    using shape(3) by (subst unat_sub_noof) (simp_all add: word_le_nat_alt)
  then have "unat (span - head - len) = unat span - unat head - unat len"
    using shape(3) by (subst unat_sub_noof) (simp_all add: word_le_nat_alt)
  then show "unat span = unat head + unat len + unat (span - head - len)"
    "unat (span - head - len) < OPENDS_DIRECT_ALIGN"
    using shape(3,4) by simp_all
qed

definition host_ok :: "os_calls \<Rightarrow> copy_fn \<Rightarrow> answer list \<Rightarrow> bool" where
  "host_ok os copy ras \<longleftrightarrow> memalign_ok os \<and> copy_ok copy \<and> full_reads ras \<and> errnos_ok ras"

text \<open>The bounce buffer before the copy: the edges are read where there are any.\<close>

lemma fill_result:
  assumes fill: "(if head \<noteq> 0 \<or> tail \<noteq> 0 then rmw_fill os f oflags b0 (int s) span head tail ras else Some (Inr b0, ras)) = Some (x, ras')"
    and env: "full_reads ras" "errnos_ok ras" and len: "length b0 = unat span"
    and shape: "unat span = unat head + n + unat tail" "unat head < OPENDS_DIRECT_ALIGN"
      "unat tail < OPENDS_DIRECT_ALIGN" "OPENDS_DIRECT_ALIGN \<le> unat span" "OPENDS_DIRECT_ALIGN dvd unat span"
  shows "case x of Inl e \<Rightarrow> e < 0 | Inr b1 \<Rightarrow> length b1 = unat span \<and> edges_read f s (unat head) n b1"
proof (cases "head \<noteq> 0 \<or> tail \<noteq> 0")
  case True
  then show ?thesis
    using fill rmw_fill_error [OF _ env(2)] rmw_fill_edges [OF _ env(1) len shape] by (cases x) simp_all
next
  case False
  then have "x = Inr b0"
    using fill by simp
  then show ?thesis
    using False len shape(1) by (simp add: edges_read_def)
qed

lemma stage_write_result:
  assumes res: "stage_write os copy oflags src len (int p) ras f = Some r"
    and room: "0 < unat len" "p + unat len < 2 ^ 63" "unat len \<le> length src"
    and env: "host_ok os copy ras"
  shows "case r of
      Inl e \<Rightarrow> e < 0
    | Inr b2 \<Rightarrow> \<exists>b1. b2 = blit b1 (unat (direct_head (int p))) (take (unat len) src) \<and>
        length b1 = unat (direct_span (int p) len) \<and>
        edges_read f (p div OPENDS_DIRECT_ALIGN * OPENDS_DIRECT_ALIGN) (unat (direct_head (int p))) (unat len) b1"
proof -
  define s where "s = p div OPENDS_DIRECT_ALIGN * OPENDS_DIRECT_ALIGN"
  define head where "head = direct_head (int p)"
  define span where "span = direct_span (int p) len"
  define tail where "tail = span - head - len"
  define xs where "xs = take (unat len) src"
  note shape = direct_shape [OF room(1,2), folded s_def span_def head_def, folded tail_def]
  note run = res [unfolded stage_write_def Let_def, folded span_def head_def, folded tail_def xs_def,
      unfolded shape(1)]
  note env = env [unfolded host_ok_def]
  show ?thesis
  proof (cases "memalign os span = None \<or> tail \<noteq> 0 \<and> fstat_rc os < 0")
    case True
    then show ?thesis
      using run by (auto simp: ENOMEM_errno_def split: option.splits if_splits)
  next
    case False
    then obtain b0 where b0: "memalign os span = Some b0" "length b0 = unat span"
      using env by (auto simp: memalign_ok_def)
    then obtain x ras' where fill: "(if head \<noteq> 0 \<or> tail \<noteq> 0
        then rmw_fill os f oflags b0 (int s) span head tail ras else Some (Inr b0, ras)) = Some (x, ras')"
      and run1: "(case x of Inl e \<Rightarrow> Some (Inl e)
        | Inr b \<Rightarrow> (case copy b (unat head) xs of (crc, b') \<Rightarrow> if crc \<noteq> 0 then Some (Inl (- EIO)) else Some (Inr b'))) = Some r"
      using run False by (auto split: option.splits sum.splits)
    have x: "case x of Inl e \<Rightarrow> e < 0 | Inr b1 \<Rightarrow> length b1 = unat span \<and> edges_read f s (unat head) (unat len) b1"
      using fill_result [OF fill _ _ b0(2) shape(4,3,5,6,7)] env by simp
    show ?thesis
    proof (cases x)
      case (Inr b1)
      obtain crc b2 where c: "copy b1 (unat head) xs = (crc, b2)"
        by fastforce
      have "unat head + length xs \<le> length b1"
        using x Inr shape(4) room(3) by (simp add: xs_def)
      then have "b2 = blit b1 (unat head) xs" if "crc = 0"
        using env c that by (auto simp: copy_ok_def)
      then show ?thesis
        using run1 x Inr c unfolding s_def head_def span_def xs_def by (auto simp: EIO_def split: if_splits)
    qed (use x run1 in auto)
  qed
qed

text \<open>The file after all has been written, cut off at the length it should have.\<close>

lemma truncated_write:
  assumes shape: "p = s + unat head" "unat span = unat head + n + unat tail" "0 < unat span" "n = unat len" "0 < n"
    and start: "direct_start (int p) = int s" "span = direct_span (int p) len"
    and xs: "length xs = n" and b: "length b2 = unat span"
      "\<And>q. file_byte (file_write f s b2) q = file_byte (file_write f p xs) q"
    and t: "trunc_to = (if tail \<noteq> 0 then trunc_target f (int p) len else -1)"
  shows "(if trunc_to \<ge> 0 then ftruncate (file_write f s b2) (nat trunc_to) else file_write f s b2) = file_write f p xs"
proof -
  have goal: "length (file_write f p xs) = max (length f) (p + n)"
    using xs shape(5) by auto
  have target: "trunc_target f (int p) len = (if s + unat span \<le> max (length f) (p + n) then -1 else int (max (length f) (p + n)))"
    using start shape(4) by (auto simp: trunc_target_def Let_def max_def simp del: of_nat_unat)
  show ?thesis
  proof (cases "trunc_to \<ge> 0")
    case True
    then have "nat trunc_to = max (length f) (p + n)"
      by (auto simp: t target split: if_splits)
    moreover have "file_byte (file_write f p xs) q = 0" if "\<not> q < max (length f) (p + n)" for q
      using that by (intro file_byte_beyond) (simp only: goal not_less)
    ultimately show ?thesis
      using True goal by (intro file_eqI) (auto simp: file_byte_truncate b(2))
  next
    case False
    then have "tail \<noteq> 0 \<Longrightarrow> s + unat span \<le> max (length f) (p + n)"
      by (simp add: t target split: if_splits)
    then have "s + unat span \<le> max (length f) (p + n)"
      using shape(1,2) by (cases "tail = 0") simp_all
    then have "length (file_write f s b2) = max (length f) (p + n)"
      using b(1) shape(1-3) by auto
    then show ?thesis
      using False b(2) goal by (simp add: file_eqI)
  qed
qed

lemma flush_write_result:
  assumes res: "flush_write os b2 (int s) span trunc_to len was f = Some (r, f')"
    and b2: "length b2 = unat span" and was: "errnos_ok was"
  shows "r = int (unat len) \<and> f' = (if trunc_to \<ge> 0 then ftruncate (file_write f s b2) (nat trunc_to) else file_write f s b2) \<or>
    r < 0 \<and> (\<exists>k \<le> unat span. f' = file_write f s (take k b2))"
proof -
  obtain rc f1 where loop: "pwrite_loop b2 (int s) span was 0 f = Some (rc, f1)"
    and out: "(if rc < 0 then Some (rc, f1)
        else if trunc_to \<ge> 0
        then (if ftruncate_rc os < 0 then Some (ftruncate_rc os, f1)
              else Some (int (unat len), ftruncate f1 (nat trunc_to)))
        else Some (int (unat len), f1)) = Some (r, f')"
    using res unfolding flush_write_def by (auto split: option.splits)
  have f0: "f = file_write f s (take (unat (0 :: u64)) b2)"
    by (simp add: file_write_def)
  obtain k where k: "k \<le> unat span" "f1 = file_write f s (take k b2)" "rc = 0 \<and> k = unat span \<or> rc < 0"
    using pwrite_loop_result [OF loop b2 _ f0] was by (auto simp: errnos_ok_def)
  show ?thesis
  proof (cases "rc < 0 \<or> trunc_to \<ge> 0 \<and> ftruncate_rc os < 0")
    case True
    then show ?thesis
      using out k(1,2) by (auto split: if_splits)
  next
    case False
    then show ?thesis
      using out k b2 by (auto split: if_splits)
  qed
qed

lemma direct_pwrite_result:
  assumes res: "opends_direct_pwrite os copy oflags src len (int p) ras was f = Some (r, f')"
    and room: "p + unat len < 2 ^ 63" "unat len \<le> length src"
    and env: "host_ok os copy ras" "errnos_ok was"
  shows "r = int (unat len) \<and> f' = file_write f p (take (unat len) src) \<or>
         r < 0 \<and> untouched f p (unat len) f'"
proof (cases "len = 0")
  case True
  with res show ?thesis
    by (simp add: opends_direct_pwrite_def file_write_def)
next
  case False
  define s where "s = p div OPENDS_DIRECT_ALIGN * OPENDS_DIRECT_ALIGN"
  define head where "head = direct_head (int p)"
  define span where "span = direct_span (int p) len"
  define tail where "tail = span - head - len"
  define xs where "xs = take (unat len) src"
  have n: "0 < unat len"
    using False by (simp add: unat_gt_0)
  note shape = direct_shape [OF n room(1), folded s_def span_def head_def, folded tail_def]
  have xs: "length xs = unat len"
    using room(2) by (simp add: xs_def)
  define trunc_to where "trunc_to = (if tail \<noteq> 0 then trunc_target f (int p) len else -1)"
  obtain st where st: "stage_write os copy oflags src len (int p) ras f = Some st"
    and run: "(case st of Inl e \<Rightarrow> Some (e, f)
      | Inr bounce \<Rightarrow> flush_write os bounce (int s) span trunc_to len was f) = Some (r, f')"
    using res False shape(1) unfolding opends_direct_pwrite_def Let_def span_def head_def tail_def trunc_to_def
    by (auto split: option.splits sum.splits)
  note staged = stage_write_result [OF st n room env(1), folded s_def head_def span_def xs_def]
  show ?thesis
  proof (cases st)
    case (Inr b2)
    then obtain b1 where b1: "b2 = blit b1 (unat head) xs" "length b1 = unat span" "edges_read f s (unat head) (unat len) b1"
      using staged by auto
    have fit: "unat head + unat len \<le> unat span"
      using shape(4) by simp
    have len2: "length b2 = unat span"
      using b1 fit xs by simp
    note bw = bounce_write [OF b1(3,2) fit xs, folded b1(1) shape(2)]
    have "0 < unat span"
      using shape(6) by (simp add: OPENDS_DIRECT_ALIGN_def)
    note full = truncated_write [OF shape(2,4) this refl n shape(1) span_def xs len2 bw(2) [OF le_refl] trunc_to_def]
    have "flush_write os b2 (int s) span trunc_to len was f = Some (r, f')"
      using run Inr by simp
    from flush_write_result [OF this len2 env(2)] show ?thesis
      using bw(1) unfolding full xs_def by auto
  qed (use staged run in simp)
qed

section \<open>Reading\<close>

definition progress :: "answer list \<Rightarrow> bool" where
  "progress as \<longleftrightarrow> (\<forall>k. Xfer k \<in> set as \<longrightarrow> 0 < k)"

lemma progress_Cons [simp]: "progress (a # as) \<longleftrightarrow> (\<forall>k. a = Xfer k \<longrightarrow> 0 < k) \<and> progress as"
  by (auto simp: progress_def)

text \<open>One turn of the read loop.\<close>

lemma pread_turn:
  assumes "length got < unat span"
  shows "pread_loop f (int s) span (a # as) got = (case a of
      Intr \<Rightarrow> pread_loop f (int s) span as got
    | Fail e \<Rightarrow> if e = EINTR then pread_loop f (int s) span as got else Some (Inl (- e))
    | Xfer k \<Rightarrow>
        let xs = take (min k (unat span - length got)) (drop (s + length got) f)
        in if xs = [] then Some (Inr got) else pread_loop f (int s) span as (got @ xs))"
proof -
  have "pread a f n (int s + int (length got)) = pread a f n (int (s + length got))" for n
    by simp
  then show ?thesis
    using assms by (simp only: pread_loop.simps pread_at) (simp add: Let_def split: answer.split)
qed

lemma pread_loop_result:
  assumes "pread_loop f (int s) span as got = Some (Inr got')" "progress as"
    and "got = take (length got) (drop s f)" "length got \<le> unat span"
  shows "got' = take (unat span) (drop s f)"
  using assms
proof (induction as arbitrary: got)
  case Nil
  then show ?case by (auto split: if_splits)
next
  case (Cons a as)
  show ?case
  proof (cases "length got < unat span")
    case True
    note run = Cons.prems(1) [unfolded pread_turn [OF True]]
    show ?thesis
    proof (cases a)
      case (Xfer k)
      define m where "m = min k (unat span - length got)"
      define xs where "xs = take m (drop (s + length got) f)"
      have m: "0 < m"
        using Cons.prems(2) Xfer True by (simp add: m_def)
      have split: "take (length got + m) (drop s f) = got @ xs"
        using take_add [of "length got" m "drop s f"] Cons.prems(3) by (simp add: xs_def add.commute)
      show ?thesis
      proof (cases "xs = []")
        case True
        then have "length (drop s f) \<le> length got"
          using m by (simp add: xs_def)
        then show ?thesis
          using run True Xfer Cons.prems(3,4) by (simp add: Let_def flip: m_def xs_def)
      next
        case False
        have "got @ xs = take (length (got @ xs)) (drop s f)"
          unfolding split [symmetric] by (simp add: min_def)
        moreover have "length (got @ xs) \<le> unat span"
          using Cons.prems(4) by (simp add: xs_def m_def)
        moreover have "pread_loop f (int s) span as (got @ xs) = Some (Inr got')"
          using run False Xfer by (simp add: Let_def flip: m_def xs_def)
        ultimately show ?thesis
          using Cons.IH Cons.prems(2) by (meson progress_Cons)
      qed
    qed (use Cons run in \<open>auto split: if_splits\<close>)
  qed (use Cons.prems in simp)
qed

lemma pread_loop_error:
  "pread_loop f (int s) span as got = Some (Inl e) \<Longrightarrow> errnos_ok as \<Longrightarrow> e < 0"
proof (induction as arbitrary: got)
  case Nil
  then show ?case by (simp split: if_splits)
next
  case (Cons a as)
  define q where "q = s + length got"
  have ok: "errnos_ok as"
    using Cons.prems(2) by (simp add: errnos_ok_def)
  have run: "(case pread a f (unat span - length got) (int q) of
           Inl e \<Rightarrow> if e = EINTR then pread_loop f (int s) span as got else Some (Inl (- e))
         | Inr xs \<Rightarrow> if xs = [] then Some (Inr got) else pread_loop f (int s) span as (got @ xs)) = Some (Inl e)"
    using Cons.prems(1) by (simp add: q_def split: if_splits)
  show ?case
    by (cases a) (use run Cons.IH [OF _ ok] Cons.prems(2) in
        \<open>auto simp: pread_at errnos_ok_def split: if_splits\<close>)
qed

lemma direct_pread_result:
  assumes res: "opends_direct_pread os f len (int p) as = Some (r, xs)"
    and room: "p + unat len < 2 ^ 63" and env: "progress as" "errnos_ok as"
  shows "r = int (length xs) \<and> xs = take (unat len) (drop p f) \<or> r < 0 \<and> xs = []"
proof (cases "len = 0 \<or> memalign os (direct_span (int p) len) = None")
  case True
  with res show ?thesis
    by (auto simp: opends_direct_pread_def ENOMEM_errno_def split: if_splits)
next
  case False
  define s where "s = p div OPENDS_DIRECT_ALIGN * OPENDS_DIRECT_ALIGN"
  define head where "head = direct_head (int p)"
  define span where "span = direct_span (int p) len"
  have n: "0 < unat len"
    using False by (simp add: unat_gt_0)
  note shape = direct_shape [OF n room, folded s_def span_def head_def]
  have run: "(case pread_loop f (int s) span as [] of
           None \<Rightarrow> None
         | Some (Inl e) \<Rightarrow> Some (e, [])
         | Some (Inr got) \<Rightarrow>
             if length got > unat head
             then let n = min (length got - unat head) (unat len)
                  in Some (int n, take n (drop (unat head) got))
             else Some (0, [])) = Some (r, xs)"
    using res False unfolding opends_direct_pread_def Let_def span_def [symmetric] head_def [symmetric]
      shape(1) by auto
  then obtain x where x: "pread_loop f (int s) span as [] = Some x"
    by (auto split: option.splits)
  show ?thesis
  proof (cases x)
    case (Inl e)
    then show ?thesis
      using run x pread_loop_error [OF _ env(2)] by auto
  next
    case (Inr got)
    have got: "got = take (unat span) (drop s f)"
      using pread_loop_result [OF _ env(1), of f s span "[]"] x Inr by simp
    then have "drop (unat head) got = take (unat span - unat head) (drop p f)"
      unfolding shape(2) by (simp add: drop_take add.commute)
    then have want: "take (unat len) (drop p f) = take (unat len) (drop (unat head) got)"
      using shape(4) by (simp add: min_def)
    show ?thesis
      by (cases "length got > unat head") (use run x Inr in \<open>auto simp: want Let_def min_def\<close>)
  qed
qed

section \<open>Termination\<close>

text \<open>
  Both loops end once the kernel has answered often enough with progress: every such answer moves at
  least one byte, so as many of them as the span has bytes suffice.
\<close>

definition moves :: "answer list \<Rightarrow> nat" where
  "moves as = length (filter (\<lambda>a. \<exists>k. a = Xfer (Suc k)) as)"

lemma moves_simps [simp]:
  "moves [] = 0" "moves (Xfer k # as) = (if k = 0 then 0 else 1) + moves as"
  "moves (Intr # as) = moves as" "moves (Fail e # as) = moves as"
  by (auto simp: moves_def gr0_conv_Suc)

lemma pwrite_loop_ends:
  assumes "length b = unat span" "written \<le> span" "unat span - unat written \<le> moves as"
  shows "pwrite_loop b (int s) span as written f \<noteq> None"
  using assms
proof (induction as arbitrary: written f)
  case Nil
  then show ?case
    by (simp add: word_le_nat_alt word_less_nat_alt)
next
  case (Cons a as)
  show ?case
  proof (cases "written < span")
    case True
    note turn = pwrite_turn [OF True Cons.prems(1), of s a as f]
    show ?thesis
    proof (cases a)
      case (Xfer k)
      define w where "w = min k (unat span - unat written)"
      have next_w: "unat (written + of_nat w) = unat written + w" "written + of_nat w \<le> span"
        using written_next [of written w span] Cons.prems(2) by (simp_all add: w_def word_le_nat_alt)
      moreover have "unat span - (unat written + w) \<le> moves as" if "w \<noteq> 0"
        using that Cons.prems(3) Xfer by (cases "k \<le> unat span - unat written") (simp_all add: w_def)
      ultimately show ?thesis
        using Cons.IH [OF Cons.prems(1), of "written + of_nat w"] unfolding turn
        by (simp add: Xfer Let_def flip: w_def)
    qed (use turn Cons in auto)
  qed simp
qed

lemma pread_loop_ends:
  assumes "length got \<le> unat span" "unat span - length got \<le> moves as"
  shows "pread_loop f (int s) span as got \<noteq> None"
  using assms
proof (induction as arbitrary: got)
  case (Cons a as)
  show ?case
  proof (cases "length got < unat span")
    case True
    define q where "q = s + length got"
    define m where "m = unat span - length got"
    have step: "pread_loop f (int s) span (a # as) got =
      (case pread a f m (int q) of
           Inl e \<Rightarrow> if e = EINTR then pread_loop f (int s) span as got else Some (Inl (- e))
         | Inr xs \<Rightarrow> if xs = [] then Some (Inr got) else pread_loop f (int s) span as (got @ xs))"
      using True by (simp add: q_def m_def)
    show ?thesis
    proof (cases a)
      case (Xfer k)
      define xs where "xs = take (min k m) (drop q f)"
      have "pread_loop f (int s) span as (got @ xs) \<noteq> None" if "xs \<noteq> []"
      proof (rule Cons.IH)
        have "length xs \<le> m" "0 < length xs" "k \<noteq> 0"
          using that by (auto simp: xs_def)
        then show "length (got @ xs) \<le> unat span" "unat span - length (got @ xs) \<le> moves as"
          using Cons.prems Xfer by (simp_all add: m_def del: length_greater_0_conv)
      qed
      then show ?thesis
        unfolding step unfolding pread_at Xfer by (simp add: xs_def [symmetric])
    qed (use Cons.IH Cons.prems step in \<open>auto simp: pread_at\<close>)
  qed simp
qed simp

text \<open>The edge blocks take at most two reads that are not interrupted.\<close>

definition answered :: "answer list \<Rightarrow> nat" where
  "answered as = length (filter (\<lambda>a. a \<noteq> Intr \<and> a \<noteq> Fail EINTR) as)"

lemma answered_Cons [simp]:
  "answered (a # as) = (if a \<noteq> Intr \<and> a \<noteq> Fail EINTR then 1 else 0) + answered as"
  by (simp add: answered_def)

lemma read_block_ends:
  "0 < answered as \<Longrightarrow> \<exists>r as'. read_block f (int p) as = Some (r, as') \<and> answered as \<le> Suc (answered as')"
proof (induction as)
  case (Cons a as)
  then show ?case
    by (cases a) (auto simp: pread_at)
qed (simp add: answered_def)

lemma rmw_fill_ends:
  assumes "2 \<le> answered as"
  shows "rmw_fill os f oflags b0 (int s) span head tail as \<noteq> None"
proof -
  define q where "q = s + unat (span - BLOCK)"
  have q: "int s + int (unat (span - BLOCK)) = int q"
    by (simp add: q_def)
  obtain r1 as1 where one: "read_block f (int s) as = Some (r1, as1)" "0 < answered as1"
    using read_block_ends [of as f s] assms by fastforce
  obtain r2 as2 where two: "read_block f (int q) as1 = Some (r2, as2)"
    using read_block_ends [OF one(2)] by blast
  obtain r3 as3 where three: "read_block f (int q) as = Some (r3, as3)"
    using read_block_ends [of as f q] assms by fastforce
  show ?thesis
    unfolding rmw_fill_def Let_def q by (cases r1; cases r2; cases r3) (simp_all add: one two three)
qed

lemma direct_pwrite_ends:
  assumes room: "p + unat len < 2 ^ 63" "unat len \<le> length src" and env: "host_ok os copy ras"
    and reads: "2 \<le> answered ras" and writes: "unat (direct_span (int p) len) \<le> moves was"
  shows "opends_direct_pwrite os copy oflags src len (int p) ras was f \<noteq> None"
proof (cases "len = 0")
  case True
  then show ?thesis
    by (simp add: opends_direct_pwrite_def)
next
  case False
  define s where "s = p div OPENDS_DIRECT_ALIGN * OPENDS_DIRECT_ALIGN"
  have n: "0 < unat len"
    using False by (simp add: unat_gt_0)
  note shape = direct_shape [OF n room(1), folded s_def]
  have "stage_write os copy oflags src len (int p) ras f \<noteq> None"
    unfolding stage_write_def Let_def shape(1)
    by (auto simp: rmw_fill_ends [OF reads] simp del: not_None_eq
        split: option.splits sum.splits prod.splits)
  then obtain st where st: "stage_write os copy oflags src len (int p) ras f = Some st"
    by blast
  note staged = stage_write_result [OF st n room env]
  have fit: "unat (direct_head (int p)) + unat len \<le> unat (direct_span (int p) len)"
    using shape(4) by linarith
  have "flush_write os b2 (int s) (direct_span (int p) len) t len was f \<noteq> None" if "st = Inr b2" for b2 t
  proof -
    have "length b2 = unat (direct_span (int p) len)"
      using staged that fit room(2) by (auto simp: min_def)
    then have "pwrite_loop b2 (int s) (direct_span (int p) len) was 0 f \<noteq> None"
      using writes by (intro pwrite_loop_ends) simp_all
    then show ?thesis
      by (auto simp: flush_write_def)
  qed
  then show ?thesis
    unfolding opends_direct_pwrite_def Let_def st shape(1) by (cases st) (auto simp: False)
qed

section \<open>Properties\<close>


definition demo_calls :: os_calls where
  "demo_calls = \<lparr>open_rc = 9, memalign = (\<lambda>n. Some (replicate (unat n) 170)), fstat_rc = 0, ftruncate_rc = 0\<rparr>"

lemma demo_host_ok: "host_ok demo_calls host_copy [Xfer 4096]"
  by (auto simp: host_ok_def demo_calls_def memalign_ok_def copy_ok_def host_copy_def full_reads_def
      errnos_ok_def OPENDS_DIRECT_ALIGN_def)

lemma demo_geometry:
  "direct_start 5 = 0" "direct_head 5 = 5" "direct_span 5 3 = 4096"
  by (simp_all add: direct_start_def direct_head_def direct_span_def OPENDS_DIRECT_ALIGN_def BLOCK_def)

text \<open>Three bytes at offset 5 of a one-byte file, with a short write, an interruption and a long write.\<close>

lemma demo_pwrite:
  "\<exists>f'. opends_direct_pwrite demo_calls host_copy 0 [1, 2, 3] 3 5 [Xfer 4096] [Xfer 100, Intr, Xfer 5000] [9]
     = Some (3, f')"
  by (simp add: opends_direct_pwrite_def stage_write_def demo_geometry demo_calls_def rmw_fill_def
      pread_def host_copy_def flush_write_def pwrite_def OPENDS_DIRECT_ALIGN_def BLOCK_def
      O_ACCMODE_def O_WRONLY_def trunc_target_def Let_def EINTR_def)



lemma demo_pread:
  "opends_direct_pread demo_calls (file_write [9] 5 [1, 2, 3]) 3 5 [Intr, Xfer 2, Xfer 9000, Xfer 7]
     = Some (3, [1, 2, 3])"
  by (simp add: opends_direct_pread_def demo_geometry demo_calls_def file_write_def blit_def pread_def
      EINTR_def)


text \<open>
  C14: \<open>opends_direct_pwrite\<close> returns: the kernel only has to answer the at most two edge reads and to
  accept at least one byte as often as the span has bytes; interruptions in between, however many,
  only repeat the call.
\<close>

theorem direct_pwrite_returns:
  assumes "p + unat len < 2 ^ 63" "unat len \<le> length src" "host_ok os copy ras"
    and "2 \<le> answered ras" "unat (direct_span (int p) len) \<le> moves was"
  shows "\<exists>r f'. opends_direct_pwrite os copy oflags src len (int p) ras was f = Some (r, f')"
  using direct_pwrite_ends [OF assms] by auto

lemma moves_replicate [simp]: "moves (replicate n (Xfer (Suc k))) = n"
  by (induction n) simp_all

theorem direct_pwrite_returns_witness:
  "\<exists>r f'. opends_direct_pwrite demo_calls host_copy 0 [1, 2, 3] 3 (int 5) [Intr, Xfer 4096, Xfer 4096]
     (replicate 4096 (Xfer 1)) [9] = Some (r, f')"
proof (rule direct_pwrite_returns)
  show "host_ok demo_calls host_copy [Intr, Xfer 4096, Xfer 4096]"
    using demo_host_ok by (auto simp: host_ok_def full_reads_def errnos_ok_def)
  show "unat (direct_span (int 5) 3) \<le> moves (replicate 4096 (Xfer 1))"
    using moves_replicate [of 4096 0] demo_geometry(3) by simp
qed (simp_all add: answered_def EINTR_def)

text \<open>
  \<open>read_block\<close> takes a short read for the end of the file. Were the kernel to return fewer bytes in
  the middle of a file, the block would be completed with zeros and the write would overwrite data
  outside its range: \<open>full_reads\<close> is needed.
\<close>

lemma short_edge_read_clears:
  "\<exists>as'. read_block [1, 2, 3] 0 [Xfer 1] = Some (Inr (1 # replicate 4095 0), as')"
  by (simp add: pread_def OPENDS_DIRECT_ALIGN_def)

end
