(* ===== verification/Op_Completion.thy ===== *)
theory Op_Completion
  imports Read_Correct Direct_IO
begin

text \<open>
  What the I/O thread of src/opends_aisio.c does around the read engine: \<open>release_gate\<close>,
  \<open>run_bounce_copies\<close>, \<open>complete_read_op\<close>, \<open>pwrite_op\<close>, \<open>dispatch_write\<close>, \<open>dispatch_pending\<close>,
  \<open>reap_in_flight\<close>, \<open>poll_stream_pending\<close> and \<open>async_future_complete\<close>.

  The world is what an operation shares with its submitter: the caller's words that the pointers of a
  stream operation name, the futures, the streams of the driver, and memory.
\<close>

type_synonym mem = "nat \<Rightarrow> u8"

record io_world =
  cells :: "ptr \<Rightarrow> u64"
  futures :: "ptr \<Rightarrow> opends_async_future"
  streams :: "opends_stream list"
  mem :: mem

definition upd_stream :: "nat \<Rightarrow> (opends_stream \<Rightarrow> opends_stream) \<Rightarrow> io_world \<Rightarrow> io_world" where
  "upd_stream i f w = w\<lparr>streams := (streams w)[i := f (streams w ! i)]\<rparr>"

definition store_cell :: "ptr \<Rightarrow> u64 \<Rightarrow> io_world \<Rightarrow> io_world" where
  "store_cell p x w = w\<lparr>cells := (cells w)(p := x)\<rparr>"

definition async_future_complete :: "ptr \<Rightarrow> u64 \<Rightarrow> io_world \<Rightarrow> io_world" where
  "async_future_complete p r w = w\<lparr>futures := (futures w)(p := \<lparr>fut_done = True, fut_result = r\<rparr>)\<rparr>"

definition release_gate :: "nat \<Rightarrow> u32 \<Rightarrow> io_world \<Rightarrow> io_world" where
  "release_gate i sq = upd_stream i (\<lambda>s. s\<lparr>gate := 2 * sq + 1\<rparr>)"

text \<open>The negated code of an error, as an \<open>ssize_t\<close>.\<close>

definition neg_err :: "opends_op_error \<Rightarrow> u64" where
  "neg_err e = - of_int (op_code e)"

lemma sint_neg_err: "sint (neg_err e) = - op_code e"
  by (cases e) (simp_all add: neg_err_def)

section \<open>Completing a read\<close>

text \<open>The accelerator's copy is an argument: return code and memory after it.\<close>

type_synonym accel_copy = "ptr \<Rightarrow> ptr \<Rightarrow> u64 \<Rightarrow> mem \<Rightarrow> int \<times> mem"

fun run_bounce_copies_loop :: "accel_copy \<Rightarrow> bounce_slot list \<Rightarrow> mem \<Rightarrow> int \<times> mem" where
  "run_bounce_copies_loop copy [] m = (0, m)"
| "run_bounce_copies_loop copy (b # bs) m =
     (case copy (slot_dst b) (slot_src b) (slot_nbytes b) m of
        (rc, m') \<Rightarrow> if rc \<noteq> 0 then (-1, m') else run_bounce_copies_loop copy bs m')"

definition run_bounce_copies :: "accel_copy \<Rightarrow> file_op \<Rightarrow> mem \<Rightarrow> int \<times> mem" where
  "run_bounce_copies copy op m = run_bounce_copies_loop copy (take (n_bounces op) (bounces op)) m"

definition complete_read_op :: "accel_copy \<Rightarrow> file_op \<Rightarrow> io_world \<Rightarrow> file_op \<times> io_world" where
  "complete_read_op copy op w =
     (let n = (if op_err op \<noteq> OPENDS_SUCCESS then neg_err (op_err op) else bytes_acc op);
          free = op\<lparr>op_state := FILE_OP_FREE\<rparr>
      in case op_mode op of
           FILE_OP_STREAM s \<Rightarrow>
             let tail_bytes = (if op_err op \<noteq> OPENDS_SUCCESS \<or> n_bounces op = 0 then 0
                               else ucast (slot_nbytes (bounces op ! 0)));
                 w1 = store_cell (bytes_read_p s) n w;
                 w2 = upd_stream (op_stream s)
                        (\<lambda>st. st\<lparr>bounce_desc := (bounce_desc st)\<lparr>desc_n_bytes := tail_bytes\<rparr>\<rparr>) w1
             in (free, release_gate (op_stream s) (seq s) w2)
         | FILE_OP_ASYNC a \<Rightarrow>
             if op_err op \<noteq> OPENDS_SUCCESS then (free, async_future_complete (future a) n w)
             else (case run_bounce_copies copy op (mem w) of
                     (rc, m) \<Rightarrow>
                       (free, async_future_complete (future a)
                          (if rc < 0 then neg_err OPENDS_DEVICE_DRIVER_ERROR else n) (w\<lparr>mem := m\<rparr>))))"

definition reap_in_flight :: "accel_copy \<Rightarrow> file_op \<Rightarrow> io_world \<Rightarrow> file_op \<times> io_world" where
  "reap_in_flight copy op w =
     (if chunks_remaining op = 0 \<and> bounces_outstanding op = 0 then complete_read_op copy op w
      else (op, w))"

section \<open>Writing\<close>

text \<open>
  \<open>pwrite_op\<close>: \<open>direct_rc\<close> is what \<open>opends_direct_pwrite\<close> returns, \<open>dirty_rc\<close> what \<open>homic_mark_dirty\<close>
  returns if it is called.
\<close>

definition pwrite_op :: "int \<Rightarrow> int \<Rightarrow> int" where
  "pwrite_op direct_rc dirty_rc =
     (if direct_rc \<le> 0 then direct_rc else if dirty_rc < 0 then dirty_rc else direct_rc)"

text \<open>
  The source address, size and file offset that \<open>dispatch_write\<close> passes on; \<open>pw\<close> is \<open>pwrite_op\<close> on
  them.
\<close>

definition write_request :: "(ptr \<Rightarrow> u64) \<Rightarrow> file_op \<Rightarrow> ptr \<times> u64 \<times> u64" where
  "write_request cs op =
     (case op_mode op of
        FILE_OP_STREAM s \<Rightarrow> (buf_base op + cs (buf_offset_p s), cs (size_p s), cs (file_offset_p s))
      | FILE_OP_ASYNC a \<Rightarrow> (buf_base op + req_buf_offset a, req_size a, req_file_offset a))"

definition dispatch_write :: "(registered_file \<Rightarrow> ptr \<times> u64 \<times> u64 \<Rightarrow> int) \<Rightarrow> file_op \<Rightarrow> io_world \<Rightarrow> file_op \<times> io_world" where
  "dispatch_write pw op w =
     (let n0 = pw (op_file op) (write_request (cells w) op);
          n = (if n0 < 0 then (if n0 = - EINVAL then neg_err OPENDS_INVALID_VALUE
                               else neg_err OPENDS_DEVICE_DRIVER_ERROR)
               else of_int n0);
          w' = (case op_mode op of
                  FILE_OP_STREAM s \<Rightarrow> release_gate (op_stream s) (seq s) (store_cell (bytes_read_p s) n w)
                | FILE_OP_ASYNC a \<Rightarrow> async_future_complete (future a) n w)
      in (op\<lparr>op_state := FILE_OP_FREE\<rparr>, w'))"

section \<open>Dispatch\<close>

definition reset_op :: "file_op \<Rightarrow> file_op" where
  "reset_op op = op\<lparr>chunks_remaining := 0, bounces_outstanding := 0, bytes_acc := 0,
                    op_err := OPENDS_SUCCESS, n_bounces := 0, op_state := FILE_OP_IN_FLIGHT\<rparr>"

text \<open>
  What the device and HOMI answer to the dispatch of a read. The stream that \<open>start_read_op\<close> works on
  is the one the operation names; an async operation has none, and works on a copy of no consequence.
\<close>

record read_env =
  re_alloc :: ptr
  re_extents :: "registered_file \<Rightarrow> int + ds_extent list"
  re_attempts :: "attempt list"

definition op_stream_of :: "file_op \<Rightarrow> nat" where
  "op_stream_of op = (case op_mode op of FILE_OP_STREAM s \<Rightarrow> op_stream s | FILE_OP_ASYNC a \<Rightarrow> 0)"

definition dispatch_read :: "nvme_geo \<Rightarrow> read_env \<Rightarrow> file_op \<Rightarrow> io_world \<Rightarrow> (qop \<times> io_world) option" where
  "dispatch_read g env op w =
     (let q = \<lparr>q_op = reset_op op, q_stream = streams w ! op_stream_of op, q_inflight = [], q_log = []\<rparr>
      in case start_read_op g (cells w) (re_alloc env) (re_extents env (op_file op)) (re_attempts env) q of
           None \<Rightarrow> None
         | Some (_, q') \<Rightarrow>
             Some (q', case op_mode op of
                         FILE_OP_STREAM s \<Rightarrow> upd_stream (op_stream s) (\<lambda>_. q_stream q') w
                       | FILE_OP_ASYNC a \<Rightarrow> w))"

definition dispatch_pending ::
  "nvme_geo \<Rightarrow> (registered_file \<Rightarrow> ptr \<times> u64 \<times> u64 \<Rightarrow> int) \<Rightarrow> read_env \<Rightarrow> file_op \<Rightarrow> io_world
    \<Rightarrow> (qop \<times> io_world) option" where
  "dispatch_pending g pw env op w =
     (if is_write op
      then (case dispatch_write pw op w of (op', w') \<Rightarrow>
              Some (\<lparr>q_op = op', q_stream = streams w' ! op_stream_of op, q_inflight = [], q_log = []\<rparr>, w'))
      else dispatch_read g env op w)"

text \<open>
  The gate of a stream operation: still closed when the signed 32-bit distance of the gate word from
  twice the operation's sequence number is negative.
\<close>

definition gate_closed :: "u32 \<Rightarrow> u32 \<Rightarrow> bool" where
  "gate_closed gt sq \<longleftrightarrow> sint (gt - 2 * sq) < 0"

definition poll_stream_pending ::
  "nvme_geo \<Rightarrow> (registered_file \<Rightarrow> ptr \<times> u64 \<times> u64 \<Rightarrow> int) \<Rightarrow> read_env \<Rightarrow> file_op \<Rightarrow> file_op_stream \<Rightarrow> io_world
    \<Rightarrow> bool \<times> (qop \<times> io_world) option" where
  "poll_stream_pending g pw env op s w =
     (if gate_closed (gate (streams w ! op_stream s)) (seq s)
      then (True, Some (\<lparr>q_op = op, q_stream = streams w ! op_stream s, q_inflight = [], q_log = []\<rparr>, w))
      else (False, dispatch_pending g pw env op w))"

section \<open>Memory\<close>

text \<open>
  What the device and the accelerator are documented to do: a read command stores the blocks it names
  at its data pointer, and a copy that returns 0 has copied its bytes. \<open>dev\<close> is the contents of the
  device, byte by byte.
\<close>

definition cmd_covers :: "nat \<Rightarrow> nvme_cmd \<Rightarrow> nat \<Rightarrow> bool" where
  "cmd_covers L c a \<longleftrightarrow> unat (cmd_dst c) \<le> a \<and> a < unat (cmd_dst c) + Suc (unat (cmd_nlb c)) * L"

definition nvme_reads :: "(nat \<Rightarrow> u8) \<Rightarrow> nat \<Rightarrow> (nvme_cmd \<Rightarrow> mem \<Rightarrow> mem) \<Rightarrow> bool" where
  "nvme_reads dev L dma \<longleftrightarrow>
     (\<forall>c m a. dma c m a =
        (if cmd_covers L c a then dev (unat (cmd_slba c) * L + (a - unat (cmd_dst c))) else m a))"

definition accel_copies :: "accel_copy \<Rightarrow> bool" where
  "accel_copies copy \<longleftrightarrow>
     (\<forall>dst src n m m'. copy dst src n m = (0, m') \<longrightarrow>
        m' = (\<lambda>a. if unat dst \<le> a \<and> a < unat dst + unat n then m (unat src + (a - unat dst)) else m a))"

text \<open>A transfer covers an address, and the device byte it brings there.\<close>

fun covers :: "transfer \<Rightarrow> nat \<Rightarrow> bool" where
  "covers (d, s, n) a \<longleftrightarrow> d \<le> a \<and> a < d + n"

fun brings :: "transfer \<Rightarrow> nat \<Rightarrow> nat" where
  "brings (d, s, n) a = s + (a - d)"

fun within :: "transfer \<Rightarrow> transfer \<Rightarrow> bool" where
  "within (d', s', n') (d, s, n) \<longleftrightarrow> d \<le> d' \<and> d' + n' \<le> d + n \<and> s' + d = s + d'"

lemma within_brings: "within t u \<Longrightarrow> covers t a \<Longrightarrow> covers u a \<and> brings t a = brings u a"
  by (cases t; cases u) auto

lemma splits_within: "splits ts d s n \<Longrightarrow> t \<in> set ts \<Longrightarrow> within t (d, s, n)"
proof (induction ts d s n rule: splits.induct)
  case (2 d' s' n' ts d s n)
  then show ?case
    by (cases t) auto
qed simp

lemma splits_covers: "splits ts d s n \<Longrightarrow> covers (d, s, n) a \<Longrightarrow> \<exists>t \<in> set ts. covers t a"
proof (induction ts d s n rule: splits.induct)
  case (2 d' s' n' ts d s n)
  then show ?case
    by (cases "a < d + n'") auto
qed auto

lemma realises_within: "realises ts ns \<Longrightarrow> t \<in> set ts \<Longrightarrow> \<exists>u \<in> set ns. within t u"
proof (induction ts ns rule: realises.induct)
  case (2 ts d s n ns)
  then obtain k where k: "splits (take k ts) d s n" "realises (drop k ts) ns"
    by auto
  have "t \<in> set (take k ts) \<or> t \<in> set (drop k ts)"
    using 2(3) by (metis Un_iff append_take_drop_id set_append)
  then show ?case
    using k splits_within 2(1) by fastforce
qed simp

lemma realises_covers: "realises ts ns \<Longrightarrow> u \<in> set ns \<Longrightarrow> covers u a \<Longrightarrow> \<exists>t \<in> set ts. covers t a"
proof (induction ts ns rule: realises.induct)
  case (2 ts d s n ns)
  then obtain k where k: "splits (take k ts) d s n" "realises (drop k ts) ns"
    by auto
  have sub: "set (take k ts) \<subseteq> set ts" "set (drop k ts) \<subseteq> set ts"
    by (rule set_take_subset, rule set_drop_subset)
  show ?case
  proof (cases "u = (d, s, n)")
    case True
    then show ?thesis
      using splits_covers [OF k(1)] 2(4) sub by blast
  next
    case False
    then have "u \<in> set ns"
      using 2(3) by simp
    then obtain t where "t \<in> set (drop k ts)" "covers t a"
      using 2(1) [OF k(2)] 2(4) by blast
    then show ?thesis
      using sub by blast
  qed
qed simp


text \<open>
  Commands that agree on the byte they bring to an address bring it in every order and however often
  each is carried out.
\<close>

lemma fold_dma:
  assumes "nvme_reads dev L dma"
    and "\<And>c. c \<in> set p \<Longrightarrow> cmd_covers L c a \<Longrightarrow> dev (unat (cmd_slba c) * L + (a - unat (cmd_dst c))) = v"
  shows "fold dma p m a = (if \<exists>c \<in> set p. cmd_covers L c a then v else m a)"
  using assms(2)
proof (induction p arbitrary: m)
  case (Cons c p)
  have "dma c m a = (if cmd_covers L c a then dev (unat (cmd_slba c) * L + (a - unat (cmd_dst c))) else m a)"
    using assms(1) by (simp add: nvme_reads_def)
  then show ?case
    using Cons by auto
qed simp

definition slot_covers :: "bounce_slot \<Rightarrow> nat \<Rightarrow> bool" where
  "slot_covers b a \<longleftrightarrow> unat (slot_dst b) \<le> a \<and> a < unat (slot_dst b) + unat (slot_nbytes b)"

definition slot_source :: "bounce_slot \<Rightarrow> nat \<Rightarrow> nat" where
  "slot_source b a = unat (slot_src b) + (a - unat (slot_dst b))"

lemma accel_copiesD:
  "accel_copies copy \<Longrightarrow> copy dst src n m = (0, m') \<Longrightarrow>
   m' = (\<lambda>a. if unat dst \<le> a \<and> a < unat dst + unat n then m (unat src + (a - unat dst)) else m a)"
  unfolding accel_copies_def by blast

lemma run_copies:
  assumes ok: "accel_copies copy" and run: "run_bounce_copies_loop copy bs m = (0, m')"
    and apart: "\<And>b b' a. b \<in> set bs \<Longrightarrow> b' \<in> set bs \<Longrightarrow> slot_covers b a \<Longrightarrow> \<not> slot_covers b' (slot_source b a)"
    and agree: "\<And>b. b \<in> set bs \<Longrightarrow> slot_covers b a \<Longrightarrow> m (slot_source b a) = v"
  shows "m' a = (if \<exists>b \<in> set bs. slot_covers b a then v else m a)"
  using run apart agree
proof (induction bs arbitrary: m)
  case (Cons b bs)
  obtain rc m1 where one: "copy (slot_dst b) (slot_src b) (slot_nbytes b) m = (rc, m1)"
    by fastforce
  then have rc: "rc = 0" and rest: "run_bounce_copies_loop copy bs m1 = (0, m')"
    using Cons.prems(1) by (auto split: if_splits)
  have m1: "m1 x = (if slot_covers b x then m (slot_source b x) else m x)" for x
    unfolding accel_copiesD [OF ok one [unfolded rc]] by (simp add: slot_source_def slot_covers_def)
  have "m' a = (if \<exists>b' \<in> set bs. slot_covers b' a then v else m1 a)"
  proof (rule Cons.IH [OF rest])
    show "\<not> slot_covers b'' (slot_source b' x)" if "b' \<in> set bs" "b'' \<in> set bs" "slot_covers b' x" for b' b'' x
      using Cons.prems(2) that by simp
    show "m1 (slot_source b' a) = v" if "b' \<in> set bs" "slot_covers b' a" for b'
      using Cons.prems(2,3) [of b'] that Cons.prems(2) [of b' b a] m1 by simp
  qed
  then show ?case
    using m1 Cons.prems(3) [of b] by auto
qed simp

lemma transfers_set:
  assumes "length (bounces_of cs) = length bs"
  shows "t \<in> set (transfers L cs bs) \<longleftrightarrow>
    (\<exists>c \<in> set (chunks_of cs). t = (unat (cmd_dst c), unat (cmd_slba c) * L, Suc (unat (cmd_nlb c)) * L)) \<or>
    (\<exists>i < length bs. t = (unat (slot_dst (bs ! i)),
        unat (cmd_slba (bounces_of cs ! i)) * L + unat (slot_src (bs ! i) - cmd_dst (bounces_of cs ! i)),
        unat (slot_nbytes (bs ! i))))"
  using assms
proof (induction L cs bs rule: transfers.induct)
  case (2 L c cs bs)
  show ?case
  proof (cases "is_bounce c")
    case False
    with 2 show ?thesis by auto
  next
    case True
    with 2 obtain b bs' where bs: "bs = b # bs'" "length (bounces_of cs) = length bs'"
      by (cases bs) auto
    show ?thesis
      using 2(1) [OF True bs(1,2)] True unfolding bs(1) by (auto simp: less_Suc_eq_0_disj)
  qed
qed auto

section \<open>The bytes a read delivers\<close>

definition extents_disjoint :: "ds_extent list \<Rightarrow> bool" where
  "extents_disjoint es \<longleftrightarrow> sorted_wrt (\<lambda>e e'. ext_stop e \<le> ext_start e') es"

lemma extents_disjoint_sorted: "extents_disjoint es \<Longrightarrow> extents_sorted es"
proof (induction es)
  case (Cons e es)
  have "ext_start e \<le> ext_stop e"
    by (simp add: ext_start_def ext_stop_def)
  with Cons show ?case
    by (auto simp: extents_disjoint_def extents_sorted_def intro: le_trans)
qed (simp add: extents_sorted_def)

text \<open>The device byte of a file offset that an extent maps.\<close>

definition in_extent :: "ds_extent \<Rightarrow> nat \<Rightarrow> bool" where
  "in_extent e x \<longleftrightarrow> ext_start e \<le> x \<and> x < ext_stop e"

definition dev_byte :: "nvme_geo \<Rightarrow> ds_extent \<Rightarrow> nat \<Rightarrow> nat" where
  "dev_byte g e x = unat (slba e) * lba_bytes g + (x - ext_start e)"

lemma needed_covers:
  assumes "rs \<le> x" "x < re" "e \<in> set es" "in_extent e x"
  shows "\<exists>u \<in> set (needed g rs re dst es). covers u (dst + (x - rs))"
proof -
  have "covers (overlap g rs re dst e) (dst + (x - rs))"
    using assms by (auto simp: overlap_def Let_def in_extent_def)
  moreover from this have "overlap g rs re dst e \<in> set (needed g rs re dst es)"
    using assms(3) by (cases "overlap g rs re dst e") (auto simp: needed_def intro: rev_image_eqI)
  ultimately show ?thesis by blast
qed

lemma needed_brings:
  assumes "u \<in> set (needed g rs re dst es)" "covers u a"
  obtains e x where "e \<in> set es" "in_extent e x" "rs \<le> x" "x < re" "a = dst + (x - rs)"
    "brings u a = dev_byte g e x"
proof -
  obtain e where e: "e \<in> set es" "u = overlap g rs re dst e"
    using assms(1) by (auto simp: needed_def)
  have u: "dst \<le> a" "in_extent e (rs + (a - dst))" "rs + (a - dst) < re"
      "brings u a = dev_byte g e (rs + (a - dst))"
    using assms(2) unfolding e(2)
    by (auto simp: overlap_def Let_def in_extent_def dev_byte_def max_def split: if_splits)
  show thesis
    by (rule that [OF e(1) u(2) _ u(3) _ u(4)]) (use u(1) in simp_all)
qed

lemma extents_disjoint_unique:
  assumes "extents_disjoint es" "e \<in> set es" "e' \<in> set es" "in_extent e x" "in_extent e' x"
  shows "e = e'"
  using assms
proof (induction es)
  case (Cons a es)
  then show ?case
    by (auto simp: extents_disjoint_def in_extent_def dest: leD intro: order.trans)
qed simp


text \<open>Where the bounce slots of an operation are: two blocks that no wrap-around splits.\<close>

definition in_bounce :: "nvme_geo \<Rightarrow> qop \<Rightarrow> nat \<Rightarrow> bool" where
  "in_bounce g q a \<longleftrightarrow> unat (bounce_base q) \<le> a \<and> a < unat (bounce_base q) + BOUNCE_SLOTS * lba_bytes g"

definition bounce_fits :: "nvme_geo \<Rightarrow> qop \<Rightarrow> bool" where
  "bounce_fits g q \<longleftrightarrow> n_bounces (q_op q) \<noteq> 0 \<longrightarrow>
     unat (bounce_base q) + BOUNCE_SLOTS * lba_bytes g < 2 ^ 64"

lemma slot_numbers:
  assumes geo: "geo_ok g" and inv: "op_inv g q" and fits: "bounce_fits g q" and i: "i < n_bounces (q_op q)"
  defines "c \<equiv> bounces_of (q_log q) ! i" and "b \<equiv> slots (q_op q) ! i"
  shows "unat (cmd_dst c) = unat (bounce_base q) + i * lba_bytes g" "cmd_nlb c = 0"
    "unat (slot_src b) = unat (cmd_dst c) + unat (slot_src b - cmd_dst c)"
    "unat (slot_src b - cmd_dst c) + unat (slot_nbytes b) \<le> lba_bytes g" "i < BOUNCE_SLOTS"
proof -
  have n: "n_bounces (q_op q) \<le> BOUNCE_SLOTS"
    and ok: "slot_ok g (bounce_base q) i c b"
    using inv i by (auto simp: op_inv_def slots_ok_def c_def b_def slots_def)
  show i2: "i < BOUNCE_SLOTS"
    using n i by simp
  have top: "unat (bounce_base q) + (i + 1) * lba_bytes g < 2 ^ 64"
  proof -
    have "(i + 1) * lba_bytes g \<le> BOUNCE_SLOTS * lba_bytes g"
      using i2 by (intro mult_le_mono1) simp
    then show ?thesis
      using fits i by (simp add: bounce_fits_def)
  qed
  have "i * lba_bytes g < 2 ^ 64" "unat (of_nat i :: u64) = i"
    using top i2 by (simp_all add: BOUNCE_SLOTS_def unsigned_of_nat take_bit_eq_mod)
  then have "unat (of_nat i * ucast (lba_size g) :: u64) = i * lba_bytes g"
    using geo_lba(1) [OF geo] by (subst unat_mult_noof) simp_all
  then show dst: "unat (cmd_dst c) = unat (bounce_base q) + i * lba_bytes g"
    using ok top by (simp add: slot_ok_def unat_add_noof)
  show "cmd_nlb c = 0"
    using ok by (simp add: slot_ok_def)
  obtain off where off: "slot_src b = cmd_dst c + off" "unat off + unat (slot_nbytes b) \<le> lba_bytes g"
    using ok geo_lba(1) [OF geo] by (auto simp: slot_ok_def)
  show "unat (slot_src b - cmd_dst c) + unat (slot_nbytes b) \<le> lba_bytes g"
    using off by simp
  have "unat (cmd_dst c) + unat off < 2 ^ 64"
    using top off(2) unfolding dst by simp
  then show "unat (slot_src b) = unat (cmd_dst c) + unat (slot_src b - cmd_dst c)"
    using off(1) by (simp add: unat_add_noof)
qed

text \<open>Every transfer of the plan stays in the destination range and brings the right bytes.\<close>

lemma plan_brings:
  assumes "realises (plan g q) (needed g rs re dst es)" "t \<in> set (plan g q)" "covers t a"
  obtains e x where "e \<in> set es" "in_extent e x" "rs \<le> x" "x < re" "a = dst + (x - rs)"
    "brings t a = dev_byte g e x"
proof -
  obtain u where u: "u \<in> set (needed g rs re dst es)" "within t u"
    using realises_within [OF assms(1,2)] by blast
  then have "covers u a" "brings t a = brings u a"
    using within_brings assms(3) by blast+
  then show thesis
    using needed_brings [OF u(1)] that by metis
qed

lemma plan_value:
  assumes "realises (plan g q) (needed g rs re dst es)" "extents_disjoint es"
    and "t \<in> set (plan g q)" "covers t (dst + (x - rs))" "rs \<le> x" "e \<in> set es" "in_extent e x"
  shows "brings t (dst + (x - rs)) = dev_byte g e x"
proof -
  obtain e' x' where e': "e' \<in> set es" "in_extent e' x'" "rs \<le> x'" "dst + (x - rs) = dst + (x' - rs)"
    "brings t (dst + (x - rs)) = dev_byte g e' x'"
    using plan_brings [OF assms(1,3,4)] by metis
  then have "x' = x"
    using assms(5) by simp
  then show ?thesis
    using e' extents_disjoint_unique [OF assms(2) e'(1) assms(6), of x] assms(7) by simp
qed

definition chunk_transfer_of :: "nat \<Rightarrow> nvme_cmd \<Rightarrow> transfer" where
  "chunk_transfer_of L c = (unat (cmd_dst c), unat (cmd_slba c) * L, Suc (unat (cmd_nlb c)) * L)"

definition slot_transfer :: "nat \<Rightarrow> nvme_cmd \<Rightarrow> bounce_slot \<Rightarrow> transfer" where
  "slot_transfer L c b =
     (unat (slot_dst b), unat (cmd_slba c) * L + unat (slot_src b - cmd_dst c), unat (slot_nbytes b))"

lemma chunk_transfer_of_simps [simp]:
  "covers (chunk_transfer_of L c) a = cmd_covers L c a"
  "brings (chunk_transfer_of L c) a = unat (cmd_slba c) * L + (a - unat (cmd_dst c))"
  by (simp_all add: chunk_transfer_of_def cmd_covers_def)

lemma slot_transfer_simps [simp]:
  "covers (slot_transfer L c b) a = slot_covers b a"
  "brings (slot_transfer L c b) a = unat (cmd_slba c) * L + unat (slot_src b - cmd_dst c) + (a - unat (slot_dst b))"
  by (simp_all add: slot_transfer_def slot_covers_def)

lemma plan_set:
  assumes "op_inv g q"
  shows "set (plan g q) = chunk_transfer_of (lba_bytes g) ` set (chunks_of (q_log q)) \<union>
    (\<lambda>i. slot_transfer (lba_bytes g) (bounces_of (q_log q) ! i) (slots (q_op q) ! i)) ` {..< n_bounces (q_op q)}"
proof -
  have "length (slots (q_op q)) = n_bounces (q_op q)"
    using assms by (simp add: slots_def op_inv_def slots_ok_def)
  then show ?thesis
    using transfers_set [OF inv_log_slots [OF assms], of _ "lba_bytes g"]
    by (auto simp: plan_def chunk_transfer_of_def slot_transfer_def)
qed

lemma log_cases:
  assumes "op_inv g q" "c \<in> set (q_log q)"
  obtains (chunk) "c \<in> set (chunks_of (q_log q))"
    | (bounce) i where "i < n_bounces (q_op q)" "c = bounces_of (q_log q) ! i"
proof -
  have len: "length (bounces_of (q_log q)) = n_bounces (q_op q)"
    using assms(1) by (simp add: op_inv_def slots_ok_def)
  show thesis
  proof (cases "is_bounce c")
    case True
    then have "c \<in> set (bounces_of (q_log q))"
      using assms(2) by (simp add: bounces_of_def)
    then show ?thesis
      using that(2) len by (metis in_set_conv_nth)
  next
    case False
    then show ?thesis
      using that(1) assms(2) by (simp add: chunks_of_def)
  qed
qed

lemma bounce_cmd_covers:
  assumes "geo_ok g" "op_inv g q" "bounce_fits g q" "i < n_bounces (q_op q)"
  shows "cmd_covers (lba_bytes g) (bounces_of (q_log q) ! i) a \<longleftrightarrow>
    unat (bounce_base q) + i * lba_bytes g \<le> a \<and> a < unat (bounce_base q) + i * lba_bytes g + lba_bytes g"
  using slot_numbers [OF assms] by (simp add: cmd_covers_def)

lemma bounce_cmd_in:
  assumes "geo_ok g" "op_inv g q" "bounce_fits g q" "i < n_bounces (q_op q)"
    "cmd_covers (lba_bytes g) (bounces_of (q_log q) ! i) a"
  shows "in_bounce g q a"
proof -
  have "(i + 1) * lba_bytes g \<le> BOUNCE_SLOTS * lba_bytes g"
    using slot_numbers(5) [OF assms(1-4)] by (intro mult_le_mono1) simp
  then show ?thesis
    using assms(5) unfolding bounce_cmd_covers [OF assms(1-4)] in_bounce_def by simp
qed

text \<open>
  A read whose commands and copies are the right ones, and whose destination the bounce slots do not
  touch.
\<close>

definition placed :: "nvme_geo \<Rightarrow> qop \<Rightarrow> nat \<Rightarrow> nat \<Rightarrow> nat \<Rightarrow> ds_extent list \<Rightarrow> bool" where
  "placed g q rs re dst es \<longleftrightarrow>
     geo_ok g \<and> op_inv g q \<and> bounce_fits g q \<and> extents_disjoint es \<and> realises (plan g q) (needed g rs re dst es) \<and>
     (\<forall>a. dst \<le> a \<longrightarrow> a < dst + (re - rs) \<longrightarrow> \<not> in_bounce g q a)"

lemma placed_simps:
  assumes "placed g q rs re dst es"
  shows "geo_ok g" "op_inv g q" "bounce_fits g q" "extents_disjoint es" "realises (plan g q) (needed g rs re dst es)"
    "dst \<le> a \<Longrightarrow> a < dst + (re - rs) \<Longrightarrow> \<not> in_bounce g q a"
  using assms by (simp_all add: placed_def)

lemma plan_parts:
  assumes "op_inv g q"
  shows "d \<in> set (chunks_of (q_log q)) \<Longrightarrow> chunk_transfer_of (lba_bytes g) d \<in> set (plan g q)"
    "i < n_bounces (q_op q) \<Longrightarrow> slot_transfer (lba_bytes g) (bounces_of (q_log q) ! i) (slots (q_op q) ! i) \<in> set (plan g q)"
  by (auto simp: plan_set [OF assms])

lemma slots_set:
  assumes "op_inv g q"
  shows "set (slots (q_op q)) = (!) (slots (q_op q)) ` {..< n_bounces (q_op q)}"
proof -
  have "length (slots (q_op q)) = n_bounces (q_op q)"
    using assms by (simp add: slots_def op_inv_def slots_ok_def)
  then show ?thesis
    by (auto simp: set_conv_nth)
qed

text \<open>Transfers end outside the bounce slots.\<close>

lemma placed_outside:
  assumes "placed g q rs re dst es" "t \<in> set (plan g q)" "covers t a"
  shows "\<not> in_bounce g q a"
proof -
  obtain x where "rs \<le> x" "x < re" "a = dst + (x - rs)"
    using plan_brings [OF placed_simps(5) [OF assms(1)] assms(2,3)] by metis
  then show ?thesis
    by (intro placed_simps(6) [OF assms(1)]) simp_all
qed

text \<open>A copy out of slot \<open>i\<close> takes its bytes from what command \<open>i\<close> has read, and no other command writes there.\<close>

lemma slot_source_at:
  assumes "placed g q rs re dst es" "i < n_bounces (q_op q)"
  defines "c \<equiv> bounces_of (q_log q) ! i" and "b \<equiv> slots (q_op q) ! i"
  shows "slot_source b a = unat (cmd_dst c) + unat (slot_src b - cmd_dst c) + (a - unat (slot_dst b))"
    "slot_covers b a \<Longrightarrow> cmd_covers (lba_bytes g) c (slot_source b a)"
proof -
  note sn = slot_numbers [OF placed_simps(1-3) [OF assms(1)] assms(2), folded b_def c_def]
  show 1: "slot_source b a = unat (cmd_dst c) + unat (slot_src b - cmd_dst c) + (a - unat (slot_dst b))"
    using sn(3) by (simp add: slot_source_def)
  assume "slot_covers b a"
  then have "a - unat (slot_dst b) < unat (slot_nbytes b)"
    by (auto simp: slot_covers_def)
  then show "cmd_covers (lba_bytes g) c (slot_source b a)"
    using sn(2,4) unfolding 1 cmd_covers_def by simp
qed

lemma bounce_cmd_unique:
  assumes p: "placed g q rs re dst es" "i < n_bounces (q_op q)" "j < n_bounces (q_op q)"
    and cov: "cmd_covers (lba_bytes g) (bounces_of (q_log q) ! i) a" "cmd_covers (lba_bytes g) (bounces_of (q_log q) ! j) a"
  shows "i = j"
proof (rule ccontr)
  assume "i \<noteq> j"
  then consider "i + 1 \<le> j" | "j + 1 \<le> i" by linarith
  then have "(i + 1) * lba_bytes g \<le> j * lba_bytes g \<or> (j + 1) * lba_bytes g \<le> i * lba_bytes g"
    using mult_le_mono1 [of "i + 1" j] mult_le_mono1 [of "j + 1" i] by cases blast+
  then show False
    using cov unfolding bounce_cmd_covers [OF placed_simps(1-3) [OF p(1)] p(2)]
      bounce_cmd_covers [OF placed_simps(1-3) [OF p(1)] p(3)] by auto
qed

lemma bounce_cmd_only:
  assumes p: "placed g q rs re dst es" "i < n_bounces (q_op q)"
    and y: "cmd_covers (lba_bytes g) (bounces_of (q_log q) ! i) y"
    and d: "d \<in> set (q_log q)" "cmd_covers (lba_bytes g) d y"
  shows "d = bounces_of (q_log q) ! i"
proof (rule log_cases [OF placed_simps(2) [OF p(1)] d(1)])
  assume "d \<in> set (chunks_of (q_log q))"
  then show ?thesis
    using placed_outside [OF p(1) plan_parts(1) [OF placed_simps(2) [OF p(1)]], of d y] d(2)
      bounce_cmd_in [OF placed_simps(1-3) [OF p(1)] p(2) y] by simp
next
  fix j assume "j < n_bounces (q_op q)" "d = bounces_of (q_log q) ! j"
  then show ?thesis
    using bounce_cmd_unique [OF p, of j y] y d(2) by simp
qed

text \<open>After the commands, in any order, the bytes of a slot's copy are in the slot.\<close>

lemma placed_staged:
  assumes p: "placed g q rs re dst es" and hw: "nvme_reads dev (lba_bytes g) dma" and order: "set p = set (q_log q)"
    and i: "i < n_bounces (q_op q)" "slot_covers (slots (q_op q) ! i) a"
  shows "fold dma p m0 (slot_source (slots (q_op q) ! i) a) =
    dev (brings (slot_transfer (lba_bytes g) (bounces_of (q_log q) ! i) (slots (q_op q) ! i)) a)"
proof -
  let ?c = "bounces_of (q_log q) ! i" and ?L = "lba_bytes g"
  define y where "y = slot_source (slots (q_op q) ! i) a"
  have c: "cmd_covers ?L ?c y"
    unfolding y_def by (rule slot_source_at(2) [OF p i])
  have "?c \<in> set (bounces_of (q_log q))"
    using placed_simps(2) [OF p] i(1) by (auto simp: op_inv_def slots_ok_def)
  then have "?c \<in> set p"
    by (simp add: bounces_of_def order)
  moreover have "fold dma p m0 y = (if \<exists>d \<in> set p. cmd_covers ?L d y then dev (unat (cmd_slba ?c) * ?L + (y - unat (cmd_dst ?c))) else m0 y)"
    by (rule fold_dma [OF hw]) (use bounce_cmd_only [OF p i(1) c] order in metis)
  ultimately have "fold dma p m0 y = dev (unat (cmd_slba ?c) * ?L + (y - unat (cmd_dst ?c)))"
    using c by auto
  then show ?thesis
    using slot_source_at(1) [OF p i(1), of a] by (simp add: y_def add.assoc)
qed

text \<open>No copy overwrites what another one still has to copy.\<close>

lemma placed_clear:
  assumes p: "placed g q rs re dst es" and b: "b \<in> set (slots (q_op q))" "b' \<in> set (slots (q_op q))" "slot_covers b' a"
  shows "\<not> slot_covers b (slot_source b' a)"
proof
  assume cov: "slot_covers b (slot_source b' a)"
  obtain i j where ij: "i < n_bounces (q_op q)" "b = slots (q_op q) ! i" "j < n_bounces (q_op q)" "b' = slots (q_op q) ! j"
    using b slots_set [OF placed_simps(2) [OF p]] by auto
  have "in_bounce g q (slot_source b' a)"
    using bounce_cmd_in [OF placed_simps(1-3) [OF p] ij(3)] slot_source_at(2) [OF p ij(3)] b(3) ij(4) by simp
  then show False
    using placed_outside [OF p plan_parts(2) [OF placed_simps(2) [OF p] ij(1)]] cov ij(2) by simp
qed

text \<open>What the copies, and before them the commands, do to an address to which the plan brings one value.\<close>

lemma placed_copies:
  assumes p: "placed g q rs re dst es" and hw: "nvme_reads dev (lba_bytes g) dma" "accel_copies copy" and order: "set p = set (q_log q)"
    and run: "run_bounce_copies_loop copy (slots (q_op q)) (fold dma p m0) = (0, m)"
    and v: "\<And>t. t \<in> set (plan g q) \<Longrightarrow> covers t a \<Longrightarrow> dev (brings t a) = v"
  shows "m a = (if \<exists>b \<in> set (slots (q_op q)). slot_covers b a then v else fold dma p m0 a)"
proof (rule run_copies [OF hw(2) run placed_clear [OF p]])
  fix b
  assume "b \<in> set (slots (q_op q))" "slot_covers b a"
  then obtain i where "i < n_bounces (q_op q)" "b = slots (q_op q) ! i" "slot_covers (slots (q_op q) ! i) a"
    using slots_set [OF placed_simps(2) [OF p]] by auto
  then show "fold dma p m0 (slot_source b a) = v"
    using placed_staged [OF p hw(1) order] v [OF plan_parts(2) [OF placed_simps(2) [OF p]]] by simp
qed

lemma placed_commands:
  assumes p: "placed g q rs re dst es" and hw: "nvme_reads dev (lba_bytes g) dma" and order: "set p = set (q_log q)"
    and v: "\<And>t. t \<in> set (plan g q) \<Longrightarrow> covers t a \<Longrightarrow> dev (brings t a) = v" and a: "\<not> in_bounce g q a"
  shows "fold dma p m0 a = (if \<exists>d \<in> set (chunks_of (q_log q)). cmd_covers (lba_bytes g) d a then v else m0 a)"
proof -
  note inv = placed_simps(2) [OF p]
  have chunk: "d \<in> set (chunks_of (q_log q))" if d: "d \<in> set p" "cmd_covers (lba_bytes g) d a" for d
    by (rule log_cases [OF inv, of d]) (use d order a bounce_cmd_in [OF placed_simps(1-3) [OF p]] in auto)
  have "fold dma p m0 a = (if \<exists>d \<in> set p. cmd_covers (lba_bytes g) d a then v else m0 a)"
    by (rule fold_dma [OF hw]) (use chunk v [OF plan_parts(1) [OF inv]] in simp)
  moreover have "(\<exists>d \<in> set p. cmd_covers (lba_bytes g) d a) \<longleftrightarrow> (\<exists>d \<in> set (chunks_of (q_log q)). cmd_covers (lba_bytes g) d a)"
    using chunk order by (auto simp: chunks_of_def)
  ultimately show ?thesis by simp
qed

lemma plan_covers:
  assumes p: "placed g q rs re dst es" and x: "rs \<le> x" "x < re" "e \<in> set es" "in_extent e x"
  shows "(\<exists>b \<in> set (slots (q_op q)). slot_covers b (dst + (x - rs))) \<or>
    (\<exists>d \<in> set (chunks_of (q_log q)). cmd_covers (lba_bytes g) d (dst + (x - rs)))"
proof -
  obtain t where "t \<in> set (plan g q)" "covers t (dst + (x - rs))"
    using needed_covers [OF x] realises_covers [OF placed_simps(5) [OF p]] by blast
  then show ?thesis
    unfolding plan_set [OF placed_simps(2) [OF p]] slots_set [OF placed_simps(2) [OF p]] by auto
qed

text \<open>
  The memory theorem: every command carried out, in any order, and then the copies out of the bounce
  slots, leave each mapped byte of the file range at its place and nothing else changed outside the
  bounce slots.
\<close>

lemma read_memory:
  assumes p: "placed g q rs re dst es"
    and hw: "nvme_reads dev (lba_bytes g) dma" "accel_copies copy" and order: "set p = set (q_log q)"
    and run: "run_bounce_copies_loop copy (slots (q_op q)) (fold dma p m0) = (0, m)"
  shows "rs \<le> x \<Longrightarrow> x < re \<Longrightarrow> e \<in> set es \<Longrightarrow> in_extent e x \<Longrightarrow> m (dst + (x - rs)) = dev (dev_byte g e x)"
    and "\<not> in_bounce g q a \<Longrightarrow>
      (\<And>x e. rs \<le> x \<Longrightarrow> x < re \<Longrightarrow> e \<in> set es \<Longrightarrow> in_extent e x \<Longrightarrow> a \<noteq> dst + (x - rs)) \<Longrightarrow> m a = m0 a"
proof -
  show "m (dst + (x - rs)) = dev (dev_byte g e x)" if x: "rs \<le> x" "x < re" "e \<in> set es" "in_extent e x"
  proof -
    have v: "dev (brings t (dst + (x - rs))) = dev (dev_byte g e x)" if "t \<in> set (plan g q)" "covers t (dst + (x - rs))" for t
      using plan_value [OF placed_simps(5,4) [OF p] that x(1,3,4)] by simp
    have "\<not> in_bounce g q (dst + (x - rs))"
      using x by (intro placed_simps(6) [OF p]) simp_all
    then show ?thesis
      using placed_copies [OF p hw order run v] placed_commands [OF p hw(1) order v] plan_covers [OF p x] by auto
  qed
  show "m a = m0 a" if a: "\<not> in_bounce g q a"
    and none: "\<And>x e. rs \<le> x \<Longrightarrow> x < re \<Longrightarrow> e \<in> set es \<Longrightarrow> in_extent e x \<Longrightarrow> a \<noteq> dst + (x - rs)"
  proof -
    have no: "\<not> covers t a" if "t \<in> set (plan g q)" for t
      using plan_brings [OF placed_simps(5) [OF p] that] none by metis
    then have v: "t \<in> set (plan g q) \<Longrightarrow> covers t a \<Longrightarrow> dev (brings t a) = m0 a" for t
      by blast
    have "\<not> (\<exists>d \<in> set (chunks_of (q_log q)). cmd_covers (lba_bytes g) d a)"
      using no [OF plan_parts(1) [OF placed_simps(2) [OF p]]] by simp
    moreover have "\<not> (\<exists>b \<in> set (slots (q_op q)). slot_covers b a)"
      using no [OF plan_parts(2) [OF placed_simps(2) [OF p]]] by (simp add: slots_set [OF placed_simps(2) [OF p]])
    ultimately show ?thesis
      by (simp only: placed_copies [OF p hw order run v] placed_commands [OF p hw(1) order v a] if_False)
  qed
qed

section \<open>The descriptor of a stream read\<close>

text \<open>
  The copy that is left to the stream of a stream operation: as long as the operation has no error,
  the descriptor names the addresses of its only bounce slot.
\<close>

definition desc_ok :: "qop \<Rightarrow> bool" where
  "desc_ok q \<longleftrightarrow>
     (\<forall>s. op_mode (q_op q) = FILE_OP_STREAM s \<longrightarrow> op_err (q_op q) = OPENDS_SUCCESS \<longrightarrow>
        n_bounces (q_op q) \<noteq> 0 \<longrightarrow> n_bounces (q_op q) = 1 \<and>
        desc_dst (bounce_desc (q_stream q)) = slot_dst (bounces (q_op q) ! 0) \<and>
        desc_src (bounce_desc (q_stream q)) = slot_src (bounces (q_op q) ! 0))"

lemma desc_ok_fresh: "fresh_op q \<Longrightarrow> desc_ok q"
  by (simp add: desc_ok_def fresh_op_def)

lemma desc_ok_err: "op_err (q_op q) \<noteq> OPENDS_SUCCESS \<Longrightarrow> desc_ok q"
  by (simp add: desc_ok_def)

lemma desc_ok_same_plan: "same_plan q q' \<Longrightarrow> desc_ok q \<Longrightarrow> desc_ok q'"
  by (auto simp: desc_ok_def same_plan_def)

lemma desc_ok_async: "op_mode (q_op q) = FILE_OP_ASYNC a \<Longrightarrow> desc_ok q"
  by (simp add: desc_ok_def)

lemma desc_ok_accept: "desc_ok q \<Longrightarrow> desc_ok (accept_chunk c q)"
  by (simp add: desc_ok_def accept_chunk_def)

lemma middle_loop_desc:
  "submit_read_middle_loop g c middle as done q = Some (rc, as', q') \<Longrightarrow> desc_ok q \<Longrightarrow> desc_ok q'"
proof (induction as arbitrary: "done" q)
  case Nil
  then show ?case
    by (cases "done < middle") (auto simp: middle_loop_done middle_loop_attempt)
next
  case (Cons a as)
  note poke = desc_ok_same_plan [OF poke_same_plan]
  show ?case
  proof (cases "done < middle")
    case True
    then show ?thesis
      using Cons poke desc_ok_accept desc_ok_err [of "set_err OPENDS_DEVICE_DRIVER_ERROR q"]
      by (cases a) (auto simp: middle_loop_attempt)
  next
    case False
    with Cons.prems show ?thesis
      by (simp add: middle_loop_done)
  qed
qed

lemma submit_stream_bounce_desc:
  assumes res: "submit_stream_bounce g dst lba nbytes as q = Some (rc, as', q')"
    and inv: "op_inv g q" and rc: "\<not> rc < 0"
  shows "desc_ok q'"
proof -
  obtain rc1 q1 where n0: "n_bounces (q_op q) = 0"
    and read: "submit_bounce_read g (stream_bounce_buf (q_stream q)) dst lba 0 nbytes as q = Some (rc1, as', q1)"
    and rc1: "\<not> rc1 < 0"
    and q': "q' = q1\<lparr>q_stream := (q_stream q1)\<lparr>bounce_desc := (bounce_desc (q_stream q1))\<lparr>desc_dst := dst,
        desc_src := stream_bounce_buf (q_stream q1)\<rparr>\<rparr>\<rparr>"
    using res rc unfolding submit_stream_bounce_def by (auto split: option.splits if_splits)
  define c where "c = \<lparr>cmd_kind = Bounce, cmd_slba = lba, cmd_nlb = 0,
    cmd_dst = stream_bounce_buf (q_stream q) + of_nat 0 * ucast (lba_size g)\<rparr>"
  obtain rc2 q2 where loop: "submit_bounce_loop g c as q = Some (rc2, as', q2)"
    and q1: "q1 = upd_op (\<lambda>op. op\<lparr>bounces := (bounces op)[0 := \<lparr>slot_dst = dst,
        slot_src = stream_bounce_buf (q_stream q), slot_nbytes = nbytes\<rparr>],
        n_bounces := 1, bounces_outstanding := bounces_outstanding op + 1, bytes_acc := bytes_acc op + nbytes\<rparr>) q2"
    using read rc1 n0 unfolding submit_bounce_read_def Let_def c_def
    by (auto split: option.splits if_splits)
  obtain q3 where q3: "same_plan q q3" "q2 = accept_cmd c q3 \<or> q2 = set_err OPENDS_DEVICE_DRIVER_ERROR q3"
    using bounce_loop_result [OF loop inv] by blast
  then have "length (bounces (q_op q2)) = BOUNCE_SLOTS" "q_stream q2 = q_stream q"
    using inv by (auto simp: same_plan_def op_inv_def slots_ok_def)
  then show ?thesis
    by (simp add: desc_ok_def q' q1 BOUNCE_SLOTS_def)
qed

lemma submit_partial_desc:
  assumes res: "submit_partial g alloc dst lba src_off nbytes as q = Some (rc, as', q')"
    and inv: "op_inv g q" and nw: "unat src_off + unat nbytes < 2 ^ 64"
  shows "desc_ok q'"
proof (cases "rc < 0")
  case True
  have "rc_ok rc q'"
    using submit_partial_result [OF res inv nw] by (simp add: partial_result_def)
  with True show ?thesis
    by (auto simp: rc_ok_def intro: desc_ok_err)
next
  case False
  show ?thesis
  proof (cases "op_mode (q_op q)")
    case (FILE_OP_STREAM s)
    then show ?thesis
      using res False submit_stream_bounce_desc [OF _ inv]
      by (auto simp: submit_partial_def split: if_splits)
  next
    case (FILE_OP_ASYNC a)
    have "kept q q'"
      using submit_partial_result [OF res inv nw] by (simp add: partial_result_def)
    then show ?thesis
      using FILE_OP_ASYNC by (intro desc_ok_async) (simp add: kept_def)
  qed
qed

lemma read_tail_desc:
  assumes "read_tail g alloc n c as q = Some (rc, as', q')" "op_inv g q" "desc_ok q"
  shows "desc_ok q'"
proof -
  have "desc_ok q1" if "submit_partial g alloc (abs_dst c) (cur_slba c) 0 n as q = Some (rc1, as1, q1)" for rc1 as1 q1
    by (rule submit_partial_desc [OF that assms(2)]) (simp add: unat_u64_bound)
  then show ?thesis
    using assms by (auto simp: read_tail_def split: if_splits option.splits)
qed

lemma read_body_desc:
  assumes res: "read_body g alloc c as q = Some (rc, as', q')" and inv: "op_inv g q" and ok: "desc_ok q"
  shows "desc_ok q'"
proof -
  define m where "m = drop_bit (unat (lba_shift g)) (remaining c - (remaining c AND lba_mask g))"
  show ?thesis
  proof (cases "m = 0")
    case True
    then show ?thesis
      using res inv ok by (auto simp: read_body_def Let_def m_def intro: read_tail_desc)
  next
    case False
    then obtain rc1 c1 as1 q1 where mid: "submit_read_middle g c m as q = Some ((rc1, c1), as1, q1)"
      and out: "(if rc1 < 0 then Some (-1, as1, q1)
                 else read_tail g alloc (remaining c AND lba_mask g) c1 as1 q1) = Some (rc, as', q')"
      using res by (auto simp: read_body_def Let_def m_def split: option.splits)
    have "desc_ok q1"
      using mid middle_loop_desc [OF _ ok] by (auto simp: submit_read_middle_def split: option.splits if_splits)
    then show ?thesis
      using out read_tail_desc [OF _ step_ok_inv [OF submit_read_middle_step [OF mid inv]]]
      by (auto split: if_splits)
  qed
qed

lemma read_extent_desc:
  assumes res: "read_extent g alloc rs re dst e as q = Some (rc, as', q')" and inv: "op_inv g q"
    and lba: "lba_size g \<noteq> 0" and ok: "desc_ok q"
  shows "desc_ok q'"
proof -
  define n where "n = (span_start rs e - file_offset e) AND lba_mask g"
  have n: "unat n < unat (lba_size g)"
    unfolding n_def by (rule masked_offset_less [OF lba])
  obtain c rc1 c1 as1 q1 where head: "read_head g alloc n c as q = Some ((rc1, c1), as1, q1)"
    and out: "(if rc1 < 0 then Some (-1, as1, q1) else read_body g alloc c1 as1 q1) = Some (rc, as', q')"
    using res by (auto simp: read_extent_def Let_def n_def split: option.splits)
  have "desc_ok q1"
  proof (cases "n = 0")
    case True
    then show ?thesis
      using head ok by (auto simp: read_head_def)
  next
    case False
    have "unat n + unat (head_bytes g n (remaining c)) < 2 ^ 64"
      using head_bytes_fit [OF n, of "remaining c"] unat_u32_bound [of "lba_size g"] by simp
    then show ?thesis
      using read_head_cases [OF head False] submit_partial_desc [OF _ inv] desc_ok_err [of q1] by auto
  qed
  then show ?thesis
    using out read_body_desc [OF _ step_ok_inv [OF read_head_step [OF head inv n]]] by (auto split: if_splits)
qed

lemma read_extents_desc:
  assumes "read_extents g alloc rs re dst es as q = Some (as', q')" "op_inv g q" "desc_ok q"
    and lba: "lba_size g \<noteq> 0"
  shows "desc_ok q'"
  using assms(1-3)
proof (induction es arbitrary: as q)
  case (Cons e es)
  show ?case
  proof (cases "file_offset e \<ge> re \<or> span_start rs e \<ge> span_end re e")
    case True
    then show ?thesis
      using Cons by (auto split: if_splits)
  next
    case False
    then obtain rc1 as1 q1 where one: "read_extent g alloc rs re dst e as q = Some (rc1, as1, q1)"
      and out: "(if rc1 < 0 then Some (as1, q1) else read_extents g alloc rs re dst es as1 q1) = Some (as', q')"
      using Cons.prems by (auto split: option.splits)
    have "desc_ok q1"
      by (rule read_extent_desc [OF one Cons.prems(2) lba Cons.prems(3)])
    then show ?thesis
      using out Cons.IH [OF _ step_ok_inv [OF read_extent_step [OF one Cons.prems(2) lba]]]
      by (auto split: if_splits)
  qed
qed simp

lemma start_read_op_desc:
  assumes res: "start_read_op g cs alloc x as q = Some (as', q')" and fresh: "fresh_op q"
  shows "desc_ok q'"
proof -
  have err: "e \<noteq> OPENDS_SUCCESS \<Longrightarrow> desc_ok (set_err e q)" for e
    by (rule desc_ok_err) simp
  show ?thesis
    using res err read_extents_desc [OF _ fresh_op_inv [OF fresh] desc_ok_fresh [OF fresh]]
    by (auto simp: start_read_op_def split: if_splits sum.splits prod.splits)
qed

end
