(* ===== verification/Read_Delivery.thy ===== *)
theory Read_Delivery
  imports Op_Completion "HOL-Library.Multiset"
begin

text \<open>
  The theorems about a whole read, from the request to the bytes in memory and the result the
  submitter sees: they put the read engine, the completion of an operation and the memory theorem
  together.
\<close>

text \<open>
  A read operation that has been started and whose commands have all landed: \<open>start_read_op\<close> returned,
  and the queue was poked until nothing of the operation was in flight. Nothing is assumed on what
  the device answered, in which order, or whether commands failed.
\<close>

definition read_landed ::
  "nvme_geo \<Rightarrow> (ptr \<Rightarrow> u64) \<Rightarrow> ptr \<Rightarrow> ds_extent list \<Rightarrow> attempt list \<Rightarrow> (nat \<times> bool) list \<Rightarrow> qop \<Rightarrow> qop \<Rightarrow> bool" where
  "read_landed g cs alloc es as pokes q q' \<longleftrightarrow>
     fresh_op q \<and>
     (case start_read_op g cs alloc (Inr es) as q of
        None \<Rightarrow> False
      | Some (_, q1) \<Rightarrow> q' = queue_poke (lba_size g) pokes q1) \<and>
     q_inflight q' = []"

text \<open>Extents as a filesystem reports them: in order, disjoint, without wrap-around.\<close>

definition extents_ok :: "nvme_geo \<Rightarrow> ds_extent list \<Rightarrow> bool" where
  "extents_ok g es \<longleftrightarrow> (\<forall>e \<in> set es. ext_ok g e) \<and> extents_disjoint es"

text \<open>The number of bytes of a file range that extents map.\<close>

definition mapped_bytes :: "nat \<Rightarrow> nat \<Rightarrow> ds_extent list \<Rightarrow> nat" where
  "mapped_bytes rs re es = sum_list (map (\<lambda>e. min re (ext_stop e) - max rs (ext_start e)) es)"

lemma needed_bytes: "transfer_bytes (needed g rs re dst es) = mapped_bytes rs re es"
  by (induction es) (auto simp: needed_def mapped_bytes_def transfer_bytes_def overlap_def Let_def)

text \<open>
  What a read owes its caller for the request of \<open>n\<close> bytes at file offset \<open>rs\<close> into \<open>dst\<close>: each mapped
  byte in its place, and nothing else written but the bounce slots.
\<close>

definition bytes_delivered ::
  "nvme_geo \<Rightarrow> (nat \<Rightarrow> u8) \<Rightarrow> ds_extent list \<Rightarrow> nat \<Rightarrow> nat \<Rightarrow> nat \<Rightarrow> qop \<Rightarrow> mem \<Rightarrow> mem \<Rightarrow> bool" where
  "bytes_delivered g dev es rs n dst q m0 m \<longleftrightarrow>
     (\<forall>e \<in> set es. \<forall>x. rs \<le> x \<longrightarrow> x < rs + n \<longrightarrow> in_extent e x \<longrightarrow> m (dst + (x - rs)) = dev (dev_byte g e x)) \<and>
     (\<forall>a. \<not> in_bounce g q a \<longrightarrow>
        (\<forall>x. rs \<le> x \<longrightarrow> x < rs + n \<longrightarrow> (\<exists>e \<in> set es. in_extent e x) \<longrightarrow> a \<noteq> dst + (x - rs)) \<longrightarrow> m a = m0 a)"

definition bounce_apart :: "nvme_geo \<Rightarrow> qop \<Rightarrow> nat \<Rightarrow> nat \<Rightarrow> bool" where
  "bounce_apart g q dst n \<longleftrightarrow>
     bounce_fits g q \<and> (\<forall>a. dst \<le> a \<longrightarrow> a < dst + n \<longrightarrow> \<not> in_bounce g q a)"

lemma landed_parts:
  assumes "read_landed g cs alloc es as pokes q q'"
  obtains as' q1 where "fresh_op q" "start_read_op g cs alloc (Inr es) as q = Some (as', q1)"
    "q' = queue_poke (lba_size g) pokes q1" "q_inflight q' = []"
  using assms by (auto simp: read_landed_def split: option.splits)

lemma landed_inv:
  assumes "read_landed g cs alloc es as pokes q q'"
  shows "op_inv g q'" "desc_ok q'" "op_mode (q_op q') = op_mode (q_op q)"
    "stream_bounce_buf (q_stream q') = stream_bounce_buf (q_stream q)"
proof -
  obtain as' q1 where l: "fresh_op q" "start_read_op g cs alloc (Inr es) as q = Some (as', q1)"
    "q' = queue_poke (lba_size g) pokes q1"
    by (rule landed_parts [OF assms])
  have one: "op_inv g q1" "kept q q1"
    using start_read_op_inv [OF l(2) fresh_op_inv [OF l(1)]] by auto
  have same: "same_plan q1 q'"
    unfolding l(3) by (rule poke_same_plan)
  show "op_inv g q'"
    unfolding l(3) by (rule poke_inv [OF one(1)])
  show "desc_ok q'"
    by (rule desc_ok_same_plan [OF same start_read_op_desc [OF l(2,1)]])
  show "op_mode (q_op q') = op_mode (q_op q)" "stream_bounce_buf (q_stream q') = stream_bounce_buf (q_stream q)"
    using same one(2) by (simp_all add: same_plan_def kept_def)
qed

lemma landed_idle:
  assumes "read_landed g cs alloc es as pokes q q'"
  shows "chunks_remaining (q_op q') = 0" "bounces_outstanding (q_op q') = 0"
  using landed_inv(1) [OF assms] assms by (auto simp: op_inv_def counters_ok_def read_landed_def)

lemma landed_plan:
  assumes land: "read_landed g cs alloc es as pokes q q'" and geo: "geo_ok g" and exts: "extents_ok g es"
    and req: "op_request cs (q_op q) = (len, rs, base)" and dst: "unat base + unat len < 2 ^ 64"
    and good: "op_err (q_op q') = OPENDS_SUCCESS"
  shows "realises (plan g q') (needed g (unat rs) (unat rs + unat len) (unat base) es)"
    "bytes_acc (q_op q') = of_nat (mapped_bytes (unat rs) (unat rs + unat len) es)"
proof -
  obtain as' q1 where l: "fresh_op q" "start_read_op g cs alloc (Inr es) as q = Some (as', q1)"
    "q' = queue_poke (lba_size g) pokes q1" "q_inflight q' = []"
    by (rule landed_parts [OF land])
  have same: "same_plan q1 q'"
    unfolding l(3) by (rule poke_same_plan)
  have ex: "\<forall>e \<in> set es. ext_ok g e" "extents_sorted es"
    using exts extents_disjoint_sorted by (auto simp: extents_ok_def)
  have "op_err (q_op q1) = OPENDS_SUCCESS"
    using same good by (auto simp: same_plan_def)
  then show "realises (plan g q') (needed g (unat rs) (unat rs + unat len) (unat base) es)"
    using start_read_op_plan [OF l(1) geo ex req dst l(2)] plan_same [OF same] by simp
  show "bytes_acc (q_op q') = of_nat (mapped_bytes (unat rs) (unat rs + unat len) es)"
    using start_read_op_bytes [OF l(1) geo ex req dst l(2,3,4) good] by (simp add: needed_bytes)
qed

lemma landed_bytes:
  assumes land: "read_landed g cs alloc es as pokes q q'" and geo: "geo_ok g" and exts: "extents_ok g es"
    and req: "op_request cs (q_op q) = (len, rs, base)" and dst: "unat base + unat len < 2 ^ 64"
    and good: "op_err (q_op q') = OPENDS_SUCCESS"
    and buf: "bounce_apart g q' (unat base) (unat len)"
    and hw: "nvme_reads dev (lba_bytes g) dma" "accel_copies copy" and order: "set p = set (q_log q')"
    and run: "run_bounce_copies_loop copy (slots (q_op q')) (fold dma p m0) = (0, m)"
  shows "bytes_delivered g dev es (unat rs) (unat len) (unat base) q' m0 m"
proof -
  have "placed g q' (unat rs) (unat rs + unat len) (unat base) es"
    using geo exts buf landed_inv(1) [OF land] landed_plan(1) [OF land geo exts req dst good]
    by (simp add: placed_def extents_ok_def bounce_apart_def)
  then show ?thesis
    unfolding bytes_delivered_def using read_memory [OF _ hw order run] by blast
qed

lemma copies_rc: "run_bounce_copies_loop copy bs m = (rc, m') \<Longrightarrow> rc = 0 \<or> rc = -1"
  by (induction bs arbitrary: m) (auto split: prod.splits if_splits)

lemma complete_async:
  assumes "op_mode op = FILE_OP_ASYNC a"
  shows "complete_read_op copy op w =
    (op\<lparr>op_state := FILE_OP_FREE\<rparr>,
     if op_err op \<noteq> OPENDS_SUCCESS then async_future_complete (future a) (neg_err (op_err op)) w
     else case run_bounce_copies copy op (mem w) of (rc, m) \<Rightarrow>
       async_future_complete (future a)
         (if rc < 0 then neg_err OPENDS_DEVICE_DRIVER_ERROR else bytes_acc op) (w\<lparr>mem := m\<rparr>))"
  using assms by (simp add: complete_read_op_def Let_def split: prod.splits)


section \<open>Stream reads\<close>

text \<open>
  The copy kernel of src/ds_bounce_kernel_cuda.cu. Thread \<open>t\<close> of \<open>bd\<close> stores the bytes at offsets \<open>t\<close>,
  \<open>t + bd\<close>, and so on below \<open>n_bytes\<close>; the threads interleave, so the stores are a sequence with the
  offsets of all threads in some order. Offsets are natural numbers: \<open>n_bytes\<close> is at most a block, far
  from the range of a 32-bit counter.
\<close>

function thread_offsets :: "nat \<Rightarrow> nat \<Rightarrow> nat \<Rightarrow> nat list" where
  "thread_offsets bd n off = (if off < n \<and> 0 < bd then off # thread_offsets bd n (off + bd) else [])"
  by auto
termination
  by (relation "measure (\<lambda>(bd, n, off). n - off)") auto

declare thread_offsets.simps [simp del]

definition kernel_offsets :: "nat \<Rightarrow> nat \<Rightarrow> nat list" where
  "kernel_offsets bd n = concat (map (thread_offsets bd n) [0..<bd])"

definition kernel_store :: "ds_bounce_copy \<Rightarrow> nat \<Rightarrow> mem \<Rightarrow> mem" where
  "kernel_store d off m = m(unat (desc_dst d) + off := m (unat (desc_src d) + off))"

text \<open>The kernel with its stores in the order \<open>offs\<close>.\<close>

definition bounce_kernel :: "ds_bounce_copy \<Rightarrow> nat list \<Rightarrow> mem \<Rightarrow> mem" where
  "bounce_kernel d offs = fold (kernel_store d) offs"

definition kernel_order :: "nat \<Rightarrow> ds_bounce_copy \<Rightarrow> nat list \<Rightarrow> bool" where
  "kernel_order bd d offs \<longleftrightarrow> mset offs = mset (kernel_offsets bd (unat (desc_n_bytes d)))"

lemma thread_offsets_set:
  "0 < bd \<Longrightarrow> x \<in> set (thread_offsets bd n off) \<longleftrightarrow> x < n \<and> off \<le> x \<and> bd dvd (x - off)"
proof (induction bd n off rule: thread_offsets.induct)
  case (1 bd n off)
  show ?case
  proof (cases "off < n")
    case False
    then show ?thesis
      by (auto simp: thread_offsets.simps)
  next
    case True
    have "off \<le> x \<and> bd dvd (x - off) \<longleftrightarrow> x = off \<or> off + bd \<le> x \<and> bd dvd (x - (off + bd))"
    proof (cases "off + bd \<le> x")
      case True
      then have "x - off = x - (off + bd) + bd"
        by simp
      then have "bd dvd (x - off) \<longleftrightarrow> bd dvd (x - (off + bd))"
        by (metis dvd_add_triv_right_iff)
      then show ?thesis
        using True \<open>0 < bd\<close> by auto
    next
      case False
      then show ?thesis
        using \<open>0 < bd\<close> by (auto dest: dvd_imp_le)
    qed
    moreover have "x \<in> set (thread_offsets bd n (off + bd)) \<longleftrightarrow> x < n \<and> off + bd \<le> x \<and> bd dvd (x - (off + bd))"
      using 1 True by simp
    moreover have "thread_offsets bd n off = off # thread_offsets bd n (off + bd)"
      using True \<open>0 < bd\<close> by (simp add: thread_offsets.simps)
    ultimately show ?thesis
      using True by (simp only: set_simps insert_iff) blast
  qed
qed

lemma kernel_offsets_set:
  assumes "0 < bd"
  shows "set (kernel_offsets bd n) = {..< n}"
proof -
  have "x \<in> set (kernel_offsets bd n)" if "x < n" for x
  proof -
    have "x \<in> set (thread_offsets bd n (x mod bd))"
      using that assms by (simp add: thread_offsets_set)
    moreover have "x mod bd < bd"
      using assms by simp
    ultimately show ?thesis
      by (auto simp: kernel_offsets_def)
  qed
  then show ?thesis
    using thread_offsets_set [OF assms] by (auto simp: kernel_offsets_def)
qed

lemma kernel_fold:
  assumes apart: "\<And>i j. i < n \<Longrightarrow> j < n \<Longrightarrow> unat (desc_src d) + i \<noteq> unat (desc_dst d) + j"
    and offs: "set offs \<subseteq> {..< n}"
  shows "fold (kernel_store d) offs m a =
    (if \<exists>i \<in> set offs. a = unat (desc_dst d) + i then m (unat (desc_src d) + (a - unat (desc_dst d))) else m a)"
  using offs
proof (induction offs arbitrary: m)
  case (Cons i offs)
  have i: "i < n"
    using Cons.prems by simp
  have keep: "kernel_store d i m (unat (desc_src d) + j) = m (unat (desc_src d) + j)" if "j < n" for j
    using apart [OF that i] by (simp add: kernel_store_def)
  show ?case
  proof (cases "\<exists>j \<in> set offs. a = unat (desc_dst d) + j")
    case True
    then obtain j where "j \<in> set offs" "a = unat (desc_dst d) + j"
      by blast
    then show ?thesis
      using Cons keep [of j] by auto
  next
    case False
    then show ?thesis
      using Cons by (auto simp: kernel_store_def)
  qed
qed simp

text \<open>The copy the kernel stands for, as a function.\<close>

definition ideal_copy :: accel_copy where
  "ideal_copy dst src n m =
     (0, \<lambda>a. if unat dst \<le> a \<and> a < unat dst + unat n then m (unat src + (a - unat dst)) else m a)"

lemma ideal_copies: "accel_copies ideal_copy"
  by (simp add: accel_copies_def ideal_copy_def)

lemma kernel_ideal:
  assumes "0 < bd" "kernel_order bd d offs"
    and "\<And>i j. i < unat (desc_n_bytes d) \<Longrightarrow> j < unat (desc_n_bytes d) \<Longrightarrow>
      unat (desc_src d) + i \<noteq> unat (desc_dst d) + j"
  shows "ideal_copy (desc_dst d) (desc_src d) (ucast (desc_n_bytes d)) m = (0, bounce_kernel d offs m)"
proof -
  have "set offs = {..< unat (desc_n_bytes d)}"
    using assms(2) kernel_offsets_set [OF assms(1)] mset_eq_setD unfolding kernel_order_def by metis
  then have fold: "fold (kernel_store d) offs m a =
      (if \<exists>i \<in> set offs. a = unat (desc_dst d) + i then m (unat (desc_src d) + (a - unat (desc_dst d))) else m a)" for a
    by (intro kernel_fold [where n = "unat (desc_n_bytes d)"] assms(3)) simp_all
  have "(\<exists>i < unat (desc_n_bytes d). a = unat (desc_dst d) + i) \<longleftrightarrow>
      unat (desc_dst d) \<le> a \<and> a < unat (desc_dst d) + unat (desc_n_bytes d)" for a
    by (metis add_less_cancel_left le_add1 le_add_diff_inverse)
  then show ?thesis
    using fold \<open>set offs = _\<close> by (auto simp: ideal_copy_def bounce_kernel_def fun_eq_iff)
qed

text \<open>A bounce slot and its destination do not overlap.\<close>

lemma slot_clear:
  assumes geo: "geo_ok g" and inv: "op_inv g q"
    and plan: "realises (plan g q) (needed g rs re dst es)"
    and buf: "bounce_fits g q" "\<And>a. dst \<le> a \<Longrightarrow> a < dst + (re - rs) \<Longrightarrow> \<not> in_bounce g q a"
    and i: "i < n_bounces (q_op q)" and b: "b = slots (q_op q) ! i"
    and j: "j < unat (slot_nbytes b)" "j' < unat (slot_nbytes b)"
  shows "unat (slot_src b) + j \<noteq> unat (slot_dst b) + j'"
proof
  assume eq: "unat (slot_src b) + j = unat (slot_dst b) + j'"
  let ?c = "bounces_of (q_log q) ! i"
  note sn = slot_numbers [OF geo inv buf(1) i, folded b]
  have "cmd_covers (lba_bytes g) ?c (unat (slot_src b) + j)"
    using sn(2,3,4) j(1) by (simp add: cmd_covers_def)
  then have inside: "in_bounce g q (unat (slot_src b) + j)"
    by (rule bounce_cmd_in [OF geo inv buf(1) i])
  have "slot_transfer (lba_bytes g) ?c b \<in> set (plan g q)"
    using i unfolding plan_set [OF inv] b by blast
  moreover have "covers (slot_transfer (lba_bytes g) ?c b) (unat (slot_dst b) + j')"
    using j(2) by (simp add: slot_covers_def)
  ultimately obtain x where "rs \<le> x" "x < re" "unat (slot_dst b) + j' = dst + (x - rs)"
    using plan_brings [OF plan] by metis
  then have "\<not> in_bounce g q (unat (slot_dst b) + j')"
    using buf(2) by simp
  then show False
    using inside eq by simp
qed

lemma complete_stream:
  assumes "op_mode op = FILE_OP_STREAM s"
  shows "complete_read_op copy op w =
    (op\<lparr>op_state := FILE_OP_FREE\<rparr>,
     release_gate (op_stream s) (seq s)
       (upd_stream (op_stream s)
          (\<lambda>st. st\<lparr>bounce_desc := (bounce_desc st)\<lparr>desc_n_bytes :=
              (if op_err op \<noteq> OPENDS_SUCCESS \<or> n_bounces op = 0 then 0 else ucast (slot_nbytes (bounces op ! 0)))\<rparr>\<rparr>)
          (store_cell (bytes_read_p s) (if op_err op \<noteq> OPENDS_SUCCESS then neg_err (op_err op) else bytes_acc op) w)))"
  using assms by (simp add: complete_read_op_def Let_def)

lemma stream_slots:
  assumes inv: "op_inv g q" and desc: "desc_ok q" and mode: "op_mode (q_op q) = FILE_OP_STREAM s"
    and good: "op_err (q_op q) = OPENDS_SUCCESS" and n: "n_bounces (q_op q) \<noteq> 0"
  shows "slots (q_op q) = [bounces (q_op q) ! 0]" "n_bounces (q_op q) = 1"
    "desc_dst (bounce_desc (q_stream q)) = slot_dst (bounces (q_op q) ! 0)"
    "desc_src (bounce_desc (q_stream q)) = slot_src (bounces (q_op q) ! 0)"
proof -
  have d: "n_bounces (q_op q) = 1 \<and> desc_dst (bounce_desc (q_stream q)) = slot_dst (bounces (q_op q) ! 0) \<and>
      desc_src (bounce_desc (q_stream q)) = slot_src (bounces (q_op q) ! 0)"
    using desc mode good n by (simp add: desc_ok_def)
  then show "n_bounces (q_op q) = 1" "desc_dst (bounce_desc (q_stream q)) = slot_dst (bounces (q_op q) ! 0)"
    "desc_src (bounce_desc (q_stream q)) = slot_src (bounces (q_op q) ! 0)"
    by simp_all
  have "length (bounces (q_op q)) = BOUNCE_SLOTS"
    using inv by (simp add: op_inv_def slots_ok_def)
  then show "slots (q_op q) = [bounces (q_op q) ! 0]"
    using d by (cases "bounces (q_op q)") (auto simp: slots_def BOUNCE_SLOTS_def)
qed

text \<open>The descriptor's copy carries out the operation's only bounce copy, or nothing.\<close>

lemma stream_kernel:
  assumes geo: "geo_ok g" and inv: "op_inv g q" and desc: "desc_ok q"
    and mode: "op_mode (q_op q) = FILE_OP_STREAM s" and good: "op_err (q_op q) = OPENDS_SUCCESS"
    and plan: "realises (plan g q) (needed g rs re dst es)"
    and buf: "bounce_fits g q" "\<And>a. dst \<le> a \<Longrightarrow> a < dst + (re - rs) \<Longrightarrow> \<not> in_bounce g q a"
    and d: "d = (bounce_desc (q_stream q))\<lparr>desc_n_bytes :=
      (if n_bounces (q_op q) = 0 then 0 else ucast (slot_nbytes (bounces (q_op q) ! 0)))\<rparr>"
    and order: "0 < bd" "kernel_order bd d offs"
  shows "run_bounce_copies_loop ideal_copy (slots (q_op q)) m = (0, bounce_kernel d offs m)"
proof (cases "n_bounces (q_op q) = 0")
  case True
  then have "desc_n_bytes d = 0"
    by (simp add: d)
  then have "set offs = {}"
    using order kernel_offsets_set [OF order(1)] mset_eq_setD unfolding kernel_order_def
    by (metis lessThan_0 unat_0)
  then show ?thesis
    using True by (simp add: slots_def bounce_kernel_def)
next
  case False
  note st = stream_slots [OF inv desc mode good False]
  define b where "b = bounces (q_op q) ! 0"
  have bd: "desc_dst d = slot_dst b" "desc_src d = slot_src b" "desc_n_bytes d = ucast (slot_nbytes b)"
    using st(3,4) False by (simp_all add: d b_def)
  have i: "0 < n_bounces (q_op q)" and b: "b = slots (q_op q) ! 0"
    using False st(1) by (simp_all add: b_def)
  have "unat (slot_nbytes b) \<le> unat (lba_size g)"
    using slot_numbers(4) [OF geo inv buf(1) i, folded b] geo_lba(1) [OF geo] by simp
  then have "unat (slot_nbytes b) < 2 ^ 32"
    using unat_u32_bound [of "lba_size g"] by simp
  then have n: "unat (desc_n_bytes d) = unat (slot_nbytes b)"
    by (simp add: bd(3) unsigned_ucast_eq take_bit_eq_mod)
  have "(ucast (desc_n_bytes d) :: u64) = slot_nbytes b"
    using of_nat_unat_u64 [of "ucast (desc_n_bytes d)"] of_nat_unat_u64 [of "slot_nbytes b"] n by simp
  moreover have "ideal_copy (desc_dst d) (desc_src d) (ucast (desc_n_bytes d)) m = (0, bounce_kernel d offs m)"
  proof (rule kernel_ideal [OF order])
    fix j j'
    assume "j < unat (desc_n_bytes d)" "j' < unat (desc_n_bytes d)"
    then show "unat (desc_src d) + j \<noteq> unat (desc_dst d) + j'"
      unfolding bd(1,2) n using slot_clear [OF geo inv plan buf i b] by blast
  qed
  ultimately show ?thesis
    using bd by (simp add: st(1) b_def [symmetric])
qed

section \<open>Examples\<close>

text \<open>
  A device with 512-byte blocks and at most two blocks per command, and a file whose first 8192 bytes
  are at block 10: a request of 1500 bytes at offset 100 needs a head, a chunk and a tail.
\<close>

definition demo_geo :: nvme_geo where
  "demo_geo = \<lparr>lba_size = 512, lba_shift = 9, mdts_nbytes = 1024, assume_aligned_only = False\<rparr>"

definition demo_extents :: "ds_extent list" where
  "demo_extents = [\<lparr>file_offset = 0, slba = 10, ext_length = 8192\<rparr>]"

definition demo_stream :: opends_stream where
  "demo_stream = \<lparr>gate = 2, next_seq = 1, stream_bounce_buf = 131072,
     bounce_desc = \<lparr>desc_dst = 0, desc_src = 0, desc_n_bytes = 0\<rparr>\<rparr>"

definition demo_op :: "file_op_mode \<Rightarrow> file_op" where
  "demo_op m = \<lparr>op_mode = m, is_write = False, op_state = FILE_OP_IN_FLIGHT,
     op_file = \<lparr>fd = 3, oflags = 0\<rparr>, buf_base = 4096, chunks_remaining = 0, bounces_outstanding = 0,
     bytes_acc = 0, op_err = OPENDS_SUCCESS,
     bounces = replicate 2 \<lparr>slot_dst = 0, slot_src = 0, slot_nbytes = 0\<rparr>, n_bounces = 0, op_bounce_buf = 0\<rparr>"

definition demo_q :: "file_op_mode \<Rightarrow> qop" where
  "demo_q m = \<lparr>q_op = demo_op m, q_stream = demo_stream, q_inflight = [], q_log = []\<rparr>"

definition demo_async :: file_op_async where
  "demo_async = \<lparr>req_size = 1500, req_file_offset = 100, req_buf_offset = 4, future = 77\<rparr>"

definition demo_attempts :: "attempt list" where
  "demo_attempts = [Accept, No_Ctx [], Accept, Busy [(1, False)], Accept]"

definition demo_end :: "(ptr \<Rightarrow> u64) \<Rightarrow> file_op_mode \<Rightarrow> qop" where
  "demo_end cs m =
     (case start_read_op demo_geo cs 65536 (Inr demo_extents) demo_attempts (demo_q m) of
        Some (_, q) \<Rightarrow> queue_poke 512 [(0, False), (0, False)] q
      | None \<Rightarrow> demo_q m)"

lemma demo_geo_ok: "geo_ok demo_geo" "lba_bytes demo_geo = 512"
  by (simp_all add: geo_ok_def demo_geo_def lba_bytes_def)

lemma demo_extents_ok: "extents_ok demo_geo demo_extents"
  by (simp add: extents_ok_def demo_extents_def ext_ok_def extents_disjoint_def demo_geo_def lba_bytes_def)

definition demo_dma :: "nvme_cmd \<Rightarrow> mem \<Rightarrow> mem" where
  "demo_dma c m = (\<lambda>a. if cmd_covers 512 c a
     then of_nat (unat (cmd_slba c) * 512 + (a - unat (cmd_dst c))) else m a)"

lemma demo_dma_reads: "nvme_reads of_nat (lba_bytes demo_geo) demo_dma"
  by (simp add: nvme_reads_def demo_dma_def demo_geo_ok)

definition demo_world :: io_world where
  "demo_world = \<lparr>cells = (\<lambda>p. if p = 1 then 1000 else if p = 2 then 512 else if p = 3 then 8 else 0),
     futures = (\<lambda>_. \<lparr>fut_done = False, fut_result = 0\<rparr>), streams = [demo_stream], mem = (\<lambda>_. 0)\<rparr>"

lemma demo_landed:
  assumes "start_read_op demo_geo cs 65536 (Inr demo_extents) demo_attempts (demo_q m) \<noteq> None"
    and "q_inflight (demo_end cs m) = []"
  shows "read_landed demo_geo cs 65536 demo_extents demo_attempts [(0, False), (0, False)] (demo_q m) (demo_end cs m)"
  using assms
  by (auto simp: read_landed_def demo_end_def fresh_op_def demo_q_def demo_op_def BOUNCE_SLOTS_def demo_geo_def
      split: option.splits)

definition demo_async_q :: qop where
  "demo_async_q = demo_end (\<lambda>_. 0) (FILE_OP_ASYNC demo_async)"

lemma demo_async_landed:
  "read_landed demo_geo (\<lambda>_. 0) 65536 demo_extents demo_attempts [(0, False), (0, False)]
     (demo_q (FILE_OP_ASYNC demo_async)) demo_async_q"
  unfolding demo_async_q_def by (rule demo_landed) code_simp+

lemma demo_async_values: "bounce_base demo_async_q = 65536" "op_err (q_op demo_async_q) = OPENDS_SUCCESS"
  by code_simp+

lemma demo_async_request: "op_request (\<lambda>_. 0) (q_op (demo_q (FILE_OP_ASYNC demo_async))) = (1500, 100, 4100)"
  by code_simp

lemma demo_async_apart: "bounce_apart demo_geo demo_async_q 4100 1500"
  by (auto simp: bounce_apart_def bounce_fits_def in_bounce_def demo_async_values demo_geo_ok BOUNCE_SLOTS_def)

definition demo_stream_op :: file_op_stream where
  "demo_stream_op = \<lparr>size_p = 1, file_offset_p = 2, buf_offset_p = 3, bytes_read_p = 4, op_stream = 0, seq = 1\<rparr>"

definition demo_stream_q :: qop where
  "demo_stream_q = demo_end (cells demo_world) (FILE_OP_STREAM demo_stream_op)"

lemma demo_stream_landed:
  "read_landed demo_geo (cells demo_world) 65536 demo_extents demo_attempts [(0, False), (0, False)]
     (demo_q (FILE_OP_STREAM demo_stream_op)) demo_stream_q"
  unfolding demo_stream_q_def by (rule demo_landed) code_simp+

lemma demo_stream_values: "bounce_base demo_stream_q = 131072" "op_err (q_op demo_stream_q) = OPENDS_SUCCESS"
  by code_simp+

lemma demo_stream_request:
  "op_request (cells demo_world) (q_op (demo_q (FILE_OP_STREAM demo_stream_op))) = (1000, 512, 4104)"
  by code_simp

lemma demo_stream_apart: "bounce_apart demo_geo demo_stream_q 4104 1000"
  by (auto simp: bounce_apart_def bounce_fits_def in_bounce_def demo_stream_values demo_geo_ok BOUNCE_SLOTS_def)

section \<open>The theorems\<close>



text \<open>
  C2: once every command of a stream read has landed, \<open>reap_in_flight\<close> stores the result where the
  caller asked for it, fills the stream's copy descriptor and opens the stream's gate to \<open>2 * seq + 1\<close>.
  On an error the descriptor is empty, so the copy the stream still runs does nothing. Otherwise the
  result is the number of bytes of the request that the file's extents map, and when the stream has
  run its copy kernel, with any number of threads interleaved in any way, every one of these bytes is
  in its place and nothing else has changed outside the bounce slot.
\<close>

theorem stream_read_delivers:
  assumes "read_landed g cs alloc es as pokes q q'" "geo_ok g" "extents_ok g es"
    and "op_mode (q_op q) = FILE_OP_STREAM s"
    and "op_request cs (q_op q) = (len, rs, base)" "unat base + unat len < 2 ^ 64"
    and "bounce_apart g q' (unat base) (unat len)"
    and "nvme_reads dev (lba_bytes g) dma" "set p = set (q_log q')"
    and "op_stream s < length (streams w)" "streams w ! op_stream s = q_stream q'"
    and "reap_in_flight copy (q_op q') (w\<lparr>mem := fold dma p (mem w)\<rparr>) = (op', w')"
    and "d = bounce_desc (streams w' ! op_stream s)" "0 < bd" "kernel_order bd d offs"
  shows "op_state op' = FILE_OP_FREE \<and> gate (streams w' ! op_stream s) = 2 * seq s + 1 \<and>
    ((\<exists>e. e \<noteq> OPENDS_SUCCESS \<and> cells w' (bytes_read_p s) = neg_err e \<and> desc_n_bytes d = 0) \<or>
     cells w' (bytes_read_p s) = of_nat (mapped_bytes (unat rs) (unat rs + unat len) es) \<and>
     bytes_delivered g dev es (unat rs) (unat len) (unat base) q' (mem w) (bounce_kernel d offs (mem w')))"
proof -
  note mode = landed_inv(3) [OF assms(1), unfolded assms(4)]
  define n where "n = (if op_err (q_op q') \<noteq> OPENDS_SUCCESS then neg_err (op_err (q_op q')) else bytes_acc (q_op q'))"
  define t where "t = (if op_err (q_op q') \<noteq> OPENDS_SUCCESS \<or> n_bounces (q_op q') = 0 then 0
    else ucast (slot_nbytes (bounces (q_op q') ! 0)) :: u32)"
  have fin: "complete_read_op copy (q_op q') (w\<lparr>mem := fold dma p (mem w)\<rparr>) = (op', w')"
    using assms(12) landed_idle [OF assms(1)] by (simp add: reap_in_flight_def)
  then have res: "op' = (q_op q')\<lparr>op_state := FILE_OP_FREE\<rparr>" "w' = release_gate (op_stream s) (seq s)
      (upd_stream (op_stream s) (\<lambda>st. st\<lparr>bounce_desc := (bounce_desc st)\<lparr>desc_n_bytes := t\<rparr>\<rparr>)
        (store_cell (bytes_read_p s) n (w\<lparr>mem := fold dma p (mem w)\<rparr>)))"
    unfolding complete_stream [OF mode] n_def [symmetric] t_def [symmetric] by simp_all
  have st: "op_state op' = FILE_OP_FREE" "gate (streams w' ! op_stream s) = 2 * seq s + 1"
    "cells w' (bytes_read_p s) = n" "mem w' = fold dma p (mem w)"
    "d = (bounce_desc (q_stream q'))\<lparr>desc_n_bytes := t\<rparr>"
    using assms(10,11) by (simp_all add: res assms(13) release_gate_def upd_stream_def store_cell_def)
  show ?thesis
  proof (cases "op_err (q_op q') = OPENDS_SUCCESS")
    case False
    then show ?thesis
      using st by (auto simp: n_def t_def)
  next
    case True
    have d: "d = (bounce_desc (q_stream q'))\<lparr>desc_n_bytes :=
      (if n_bounces (q_op q') = 0 then 0 else ucast (slot_nbytes (bounces (q_op q') ! 0)))\<rparr>"
      using st(5) True by (simp add: t_def)
    have buf: "bounce_fits g q'"
      "\<And>a. unat base \<le> a \<Longrightarrow> a < unat base + (unat rs + unat len - unat rs) \<Longrightarrow> \<not> in_bounce g q' a"
      using assms(7) by (simp_all add: bounce_apart_def)
    note plan = landed_plan [OF assms(1-3,5,6) True]
    have "run_bounce_copies_loop ideal_copy (slots (q_op q')) (fold dma p (mem w)) = (0, bounce_kernel d offs (mem w'))"
      unfolding st(4)
      by (rule stream_kernel [OF assms(2) landed_inv(1,2) [OF assms(1)] mode True plan(1) buf d assms(14,15)])
    then have "bytes_delivered g dev es (unat rs) (unat len) (unat base) q' (mem w) (bounce_kernel d offs (mem w'))"
      by (rule landed_bytes [OF assms(1-3,5,6) True assms(7,8) ideal_copies assms(9)])
    then show ?thesis
      using st(1-3) plan(2) True by (simp add: n_def)
  qed
qed
theorem stream_read_delivers_witness:
  "\<exists>op' w'. reap_in_flight ideal_copy (q_op demo_stream_q)
       (demo_world\<lparr>streams := [q_stream demo_stream_q], mem := fold demo_dma (rev (q_log demo_stream_q)) (mem demo_world)\<rparr>) = (op', w') \<and>
     op_state op' = FILE_OP_FREE \<and> gate (streams w' ! 0) = 3"
proof -
  let ?w = "demo_world\<lparr>streams := [q_stream demo_stream_q]\<rparr>"
  obtain op' w' where r: "reap_in_flight ideal_copy (q_op demo_stream_q)
      (?w\<lparr>mem := fold demo_dma (rev (q_log demo_stream_q)) (mem ?w)\<rparr>) = (op', w')"
    by fastforce
  have mode: "op_mode (q_op (demo_q (FILE_OP_STREAM demo_stream_op))) = FILE_OP_STREAM demo_stream_op"
    by (simp add: demo_q_def demo_op_def)
  from stream_read_delivers [OF demo_stream_landed demo_geo_ok(1) demo_extents_ok mode demo_stream_request _ _
      demo_dma_reads _ _ _ r refl, of 128 "kernel_offsets 128 (unat (desc_n_bytes (bounce_desc (streams w' ! op_stream demo_stream_op))))"]
  have "op_state op' = FILE_OP_FREE \<and> gate (streams w' ! op_stream demo_stream_op) = 2 * seq demo_stream_op + 1"
    using demo_stream_apart by (auto simp: kernel_order_def demo_stream_op_def)
  then show ?thesis
    using r by (auto simp: demo_stream_op_def)
qed

end
