(* ===== verification/Read_Plan.thy ===== *)
theory Read_Plan
  imports Read_Delivery
begin

unbundle bit_operations_syntax

text \<open>
  The commands of a read, before any of them has landed, and the geometry that \<open>open_device\<close> of
  src/opends_aisio.c accepts.
\<close>

section \<open>The device geometry\<close>

lemma ctz32_bits:
  assumes "w \<noteq> 0"
  shows "ctz32 w < 32" "bit w (ctz32 w)" "\<And>i. i < ctz32 w \<Longrightarrow> \<not> bit w i"
proof -
  let ?P = "\<lambda>i. \<not> bit w i"
  obtain i where i: "i < 32" "bit w i"
    using assms bit_word_eqI [of w 0] by auto
  have "length (takeWhile ?P [0..<32]) \<le> i"
  proof (rule ccontr)
    assume "\<not> ?thesis"
    then have "[0..<32] ! i \<in> set (takeWhile ?P [0..<32])"
      by (metis not_le nth_mem takeWhile_nth)
    then show False
      using set_takeWhileD i by fastforce
  qed
  then show less: "ctz32 w < 32"
    using i(1) by (simp add: ctz32_def)
  show "bit w (ctz32 w)"
    using nth_length_takeWhile [of ?P "[0..<32]"] less by (simp add: ctz32_def)
  show "\<not> bit w j" if "j < ctz32 w" for j
  proof -
    have "[0..<32] ! j = j"
      using that less by simp
    moreover have "takeWhile ?P [0..<32] ! j = [0..<32] ! j" "j < length (takeWhile ?P [0..<32])"
      using that by (simp_all add: ctz32_def takeWhile_nth)
    then have "[0..<32] ! j \<in> set (takeWhile ?P [0..<32])"
      by (metis nth_mem)
    ultimately show ?thesis
      using set_takeWhileD by fastforce
  qed
qed

lemma no_lower_one:
  fixes w :: u32
  assumes nz: "w \<noteq> 0" and one: "w AND (w - 1) = 0"
  shows "w = 2 ^ ctz32 w"
proof -
  define k where "k = ctz32 w"
  define r where "r = unset_bit k w"
  note k = ctz32_bits [OF nz, folded k_def]
  have lo: "\<not> bit r i" if "i \<le> k" for i
    using that k(3) [of i] by (cases "i = k") (auto simp: r_def bit_simps)
  have w: "w = r + 2 ^ k"
  proof -
    have "w = r OR 2 ^ k"
      by (rule bit_word_eqI) (use k in \<open>auto simp: r_def bit_simps\<close>)
    also have "\<dots> = r + 2 ^ k"
      by (rule disjunctive_add_eq_or [symmetric], rule bit_word_eqI) (use lo in \<open>auto simp: bit_simps\<close>)
    finally show ?thesis .
  qed
  have "w - 1 = r + mask k"
    by (simp add: w mask_eq_exp_minus_1)
  also have "\<dots> = r OR mask k"
    by (rule disjunctive_add_eq_or, rule bit_word_eqI) (use lo in \<open>auto simp: bit_simps\<close>)
  finally have minus: "w - 1 = r OR mask k" .
  have "r = 0"
  proof (rule bit_word_eqI)
    fix i
    assume "i < LENGTH(32)"
    have "bit r i \<Longrightarrow> bit w i"
      by (auto simp: r_def bit_simps)
    moreover have "\<not> (bit w i \<and> bit r i)"
      using arg_cong [OF one, of "\<lambda>v. bit v i"] by (auto simp: minus bit_simps)
    ultimately show "bit r i = bit (0 :: u32) i"
      by auto
  qed
  then have "w = 2 ^ k"
    using w by simp
  then show ?thesis
    unfolding k_def .
qed

lemma ctz32_exp: "k < 32 \<Longrightarrow> ctz32 (2 ^ k) = k"
proof -
  assume k: "k < 32"
  have nz: "(2 :: u32) ^ k \<noteq> 0"
    using k by simp
  show ?thesis
    using ctz32_bits [OF nz] k by (auto simp: bit_simps)
qed

lemma exp_has_no_lower: "k < 32 \<Longrightarrow> (2 :: u32) ^ k AND (2 ^ k - 1) = 0"
  by (rule bit_word_eqI) (auto simp: bit_simps mask_eq_exp_minus_1 [symmetric])

lemma open_geometry_result:
  "case open_device_geometry al x of
     None \<Rightarrow> (if geo_lba_nbytes x \<noteq> 0 then geo_lba_nbytes x else geo_nbytes x) \<notin> (\<lambda>k. 2 ^ k) ` {..<32}
   | Some g \<Rightarrow> geo_ok g \<and> lba_size g = (if geo_lba_nbytes x \<noteq> 0 then geo_lba_nbytes x else geo_nbytes x) \<and>
       mdts_nbytes g = (if geo_mdts_nbytes x \<noteq> 0 then geo_mdts_nbytes x else 131072)"
proof -
  define lba where "lba = (if geo_lba_nbytes x \<noteq> 0 then geo_lba_nbytes x else geo_nbytes x)"
  have zero: "lba \<noteq> 2 ^ k" if "lba = 0" "k < 32" for k
    using that by auto
  have lower: "lba \<noteq> 2 ^ k" if "lba AND (lba - 1) \<noteq> 0" "k < 32" for k
    using that exp_has_no_lower by auto
  have shift: "unat (of_nat (ctz32 lba) :: u32) = ctz32 lba" "ctz32 lba < 32" "lba = 2 ^ ctz32 lba"
    if "lba \<noteq> 0" "lba AND (lba - 1) = 0"
    using ctz32_bits(1) [OF that(1)] no_lower_one [OF that]
    by (simp_all add: unsigned_of_nat take_bit_eq_mod)
  show ?thesis
    unfolding open_device_geometry_def Let_def lba_def [symmetric]
    using zero lower shift by (auto simp: geo_ok_def DEFAULT_BOUNCE_SIZE_def)
qed

section \<open>The commands of a read\<close>

text \<open>
  C10: the commands of a read that \<open>start_read_op\<close> has started without an error, together with the
  bounce copies that end it, transfer exactly what is asked for: they are, in order, exact splits of
  the overlaps of the request with the file's extents, none of them longer than the device's
  transfer limit, each from its right device bytes to its right place in the buffer.
\<close>

theorem read_plan_exact:
  assumes "fresh_op q" "geo_ok g" "\<forall>e \<in> set es. ext_ok g e" "extents_sorted es"
    and "op_request cs (q_op q) = (len, rs, base)" "unat base + unat len < 2 ^ 64"
    and "start_read_op g cs alloc (Inr es) as q = Some (as', q')" "op_err (q_op q') = OPENDS_SUCCESS"
  shows "bounded_by (unat (mdts_nbytes g)) (plan g q') \<and>
    realises (plan g q') (needed g (unat rs) (unat rs + unat len) (unat base) es)"
  by (rule start_read_op_plan [OF assms])

theorem read_plan_exact_witness:
  "\<exists>as' q'. start_read_op demo_geo (\<lambda>_. 0) 65536 (Inr demo_extents) demo_attempts (demo_q (FILE_OP_ASYNC demo_async))
       = Some (as', q') \<and>
     realises (plan demo_geo q') [(4100, 5220, 1500)]"
proof -
  let ?q = "demo_q (FILE_OP_ASYNC demo_async)"
  obtain as' q' where run:
    "start_read_op demo_geo (\<lambda>_. 0) 65536 (Inr demo_extents) demo_attempts ?q = Some (as', q')"
    using demo_async_landed by (auto simp: read_landed_def split: option.splits)
  have good: "op_err (q_op q') = OPENDS_SUCCESS"
  proof -
    have "map_option (\<lambda>r. op_err (q_op (snd r)))
        (start_read_op demo_geo (\<lambda>_. 0) 65536 (Inr demo_extents) demo_attempts ?q) = Some OPENDS_SUCCESS"
      by code_simp
    then show ?thesis
      by (simp add: run)
  qed
  have "fresh_op ?q" "\<forall>e \<in> set demo_extents. ext_ok demo_geo e" "extents_sorted demo_extents"
    using demo_async_landed demo_extents_ok
    by (auto simp: read_landed_def extents_ok_def demo_extents_def extents_sorted_def)
  from read_plan_exact [OF this(1) demo_geo_ok(1) this(2,3) demo_async_request _ run good]
  have "realises (plan demo_geo q') (needed demo_geo 100 1600 4100 demo_extents)"
    by simp
  moreover have "needed demo_geo 100 1600 4100 demo_extents = [(4100, 5220, 1500)]"
    by (simp add: needed_def demo_extents_def overlap_def demo_geo_ok ext_start_def ext_stop_def Let_def)
  ultimately show ?thesis
    using run by auto
qed

end
