(* ===== verification/Read_Liveness.thy ===== *)
theory Read_Liveness
  imports Op_Completion
begin

text \<open>
  When the submission loops of a read end, and what the counters of an operation say: the loops wait
  for the queue only, so a read has submitted everything as soon as the device has accepted one
  command for each block and two for each extent of the request, however often the queue was full in
  between.
\<close>

definition accepts :: "attempt list \<Rightarrow> nat" where
  "accepts as = length (filter (\<lambda>a. a = Accept) as)"

lemma accepts_simps [simp]:
  "accepts [] = 0" "accepts (Accept # as) = Suc (accepts as)" "accepts (Reject # as) = accepts as"
  "accepts (No_Ctx cs # as) = accepts as" "accepts (Busy cs # as) = accepts as"
  by (simp_all add: accepts_def)

text \<open>A submission that cannot run out of answers: it returns and has used up at most \<open>n\<close> accepts.\<close>

definition returns_within :: "nat \<Rightarrow> attempt list \<Rightarrow> 'a submitted \<Rightarrow> bool" where
  "returns_within n as r \<longleftrightarrow> (\<exists>x as' q'. r = Some (x, as', q') \<and> accepts as \<le> n + accepts as')"

lemma returns_weaken: "returns_within n as r \<Longrightarrow> n \<le> m \<Longrightarrow> returns_within m as r"
  by (fastforce simp: returns_within_def)

lemma middle_loop_returns:
  assumes "0 < unat (max_chunk_lbas g)" "unat middle - unat done \<le> accepts as"
  shows "returns_within (unat middle - unat done) as (submit_read_middle_loop g c middle as done q)"
  using assms(2)
proof (induction as arbitrary: "done" q)
  case Nil
  then have "\<not> done < middle"
    by (simp add: word_less_nat_alt)
  then show ?case
    by (simp add: middle_loop_done returns_within_def)
next
  case (Cons a as)
  show ?case
  proof (cases "done < middle")
    case False
    then show ?thesis
      by (simp add: middle_loop_done returns_within_def)
  next
    case True
    define n where "n = chunk_lbas g (middle - done)"
    have lt: "unat done < unat middle"
      using True by (simp add: word_less_nat_alt)
    have left: "unat (middle - done) = unat middle - unat done"
      using True by (intro unat_sub_noof) simp
    have n: "0 < unat n" "unat done + unat n \<le> unat middle"
      using assms(1) lt left by (auto simp: n_def chunk_lbas_def NVME_MAX_NLB_def min_def word_le_nat_alt)
    then have sum: "unat (done + n) = unat done + unat n"
      using unat_u64_bound [of middle] by (intro unat_add_noof) simp
    note step = middle_loop_attempt [OF True, of g c]
    show ?thesis
    proof (cases a)
      case Accept
      have "unat middle - unat (done + n) \<le> accepts as"
        using Cons.prems Accept n unfolding sum by simp
      from Cons.IH [OF this, of "accept_chunk (chunk_cmd g c done n) q"] show ?thesis
        using Accept step n lt unfolding sum by (auto simp: returns_within_def n_def [symmetric])
    qed (use Cons step in \<open>auto simp: returns_within_def\<close>)
  qed
qed

lemma bounce_loop_returns:
  "0 < accepts as \<Longrightarrow> returns_within 1 as (submit_bounce_loop g c as q)"
proof (induction as arbitrary: q)
  case (Cons a as)
  then show ?case
    by (cases a) (auto simp: returns_within_def)
qed (simp add: returns_within_def)

lemma submit_bounce_read_returns:
  assumes "0 < accepts as"
  shows "returns_within 1 as (submit_bounce_read g buf dst lba off n as q)"
proof -
  define c where "c = \<lparr>cmd_kind = Bounce, cmd_slba = lba, cmd_nlb = 0,
    cmd_dst = buf + of_nat (n_bounces (q_op q)) * ucast (lba_size g)\<rparr>"
  obtain rc as' q' where "submit_bounce_loop g c as q = Some (rc, as', q')" "accepts as \<le> 1 + accepts as'"
    using bounce_loop_returns [OF assms, of g c q] by (auto simp: returns_within_def)
  then show ?thesis
    unfolding submit_bounce_read_def Let_def c_def by (auto simp: returns_within_def)
qed

lemma submit_partial_returns:
  assumes "0 < accepts as"
  shows "returns_within 1 as (submit_partial g alloc dst lba off n as q)"
proof -
  note one = submit_bounce_read_returns [OF assms]
  have "returns_within 1 as (submit_stream_bounce g dst lba n as q)"
    using one [of g "stream_bounce_buf (q_stream q)" dst lba 0 n q]
    by (auto simp: submit_stream_bounce_def returns_within_def)
  moreover have "returns_within 1 as (submit_host_bounce g alloc dst lba off n as q)"
    using one unfolding submit_host_bounce_def Let_def by (auto simp: returns_within_def)
  ultimately show ?thesis
    unfolding submit_partial_def by (auto simp: returns_within_def split: file_op_mode.splits)
qed

lemma read_tail_returns:
  "0 < accepts as \<Longrightarrow> returns_within 1 as (read_tail g alloc n c as q)"
  using submit_partial_returns [of as g alloc "abs_dst c" "cur_slba c" 0 n q]
  by (auto simp: read_tail_def returns_within_def)

lemma read_head_returns:
  "0 < accepts as \<Longrightarrow> returns_within 1 as (read_head g alloc n c as q)"
  using submit_partial_returns [of as g alloc "abs_dst c" "cur_slba c" n "head_bytes g n (remaining c)" q]
  by (auto simp: read_head_def returns_within_def Let_def)

lemma submit_read_middle_returns:
  assumes "0 < unat (max_chunk_lbas g)" "unat middle \<le> accepts as"
  shows "returns_within (unat middle) as (submit_read_middle g c middle as q)"
  using middle_loop_returns [OF assms(1), of middle 0 as c q] assms(2)
  by (auto simp: submit_read_middle_def returns_within_def)

lemma read_body_returns:
  assumes "0 < unat (max_chunk_lbas g)" "unat (remaining c) div lba_bytes g + 1 \<le> accepts as"
  shows "returns_within (unat (remaining c) div lba_bytes g + 1) as (read_body g alloc c as q)"
proof -
  define m where "m = drop_bit (unat (lba_shift g)) (remaining c - (remaining c AND lba_mask g))"
  have tail_le: "unat (remaining c AND lba_mask g) \<le> unat (remaining c)"
    using unat_and_le [of "lba_mask g" "remaining c"] by (simp add: and.commute)
  then have "unat (remaining c - (remaining c AND lba_mask g)) \<le> unat (remaining c)"
    by (subst unat_sub_noof) (simp_all add: word_le_nat_alt)
  then have m: "unat m \<le> unat (remaining c) div lba_bytes g"
    unfolding m_def geo_shift by (rule div_le_mono)
  show ?thesis
  proof (cases "m = 0")
    case True
    then show ?thesis
      using returns_weaken [OF read_tail_returns] assms(2) by (simp add: read_body_def Let_def m_def)
  next
    case False
    obtain rc1 c1 as1 q1 where mid: "submit_read_middle g c m as q = Some ((rc1, c1), as1, q1)"
      "accepts as \<le> unat m + accepts as1"
      using submit_read_middle_returns [OF assms(1), of m as c q] m assms(2)
      by (fastforce simp: returns_within_def)
    have "0 < accepts as1"
      using mid(2) m assms(2) by linarith
    then obtain rc2 as2 q2 where "read_tail g alloc (remaining c AND lba_mask g) c1 as1 q1 = Some (rc2, as2, q2)"
      "accepts as1 \<le> 1 + accepts as2"
      using read_tail_returns [of as1 g alloc "remaining c AND lba_mask g" c1 q1]
      by (auto simp: returns_within_def)
    then show ?thesis
      using mid m False by (auto simp: read_body_def Let_def m_def [symmetric] returns_within_def)
  qed
qed

text \<open>The commands that one extent of a request can take: its blocks, a partial head and a partial tail.\<close>

definition extent_cmds :: "nvme_geo \<Rightarrow> u64 \<Rightarrow> u64 \<Rightarrow> ds_extent \<Rightarrow> nat" where
  "extent_cmds g rs re e = unat (span_end re e - span_start rs e) div lba_bytes g + 2"

lemma read_extent_returns:
  assumes "0 < unat (max_chunk_lbas g)" "extent_cmds g rs re e \<le> accepts as"
  shows "returns_within (extent_cmds g rs re e) as (read_extent g alloc rs re dst e as q)"
proof -
  define n where "n = (span_start rs e - file_offset e) AND lba_mask g"
  define c where "c = \<lparr>cur_slba = slba e + drop_bit (unat (lba_shift g)) (span_start rs e - file_offset e),
    abs_dst = dst + (span_start rs e - rs), remaining = span_end re e - span_start rs e\<rparr>"
  have cmds: "extent_cmds g rs re e = unat (remaining c) div lba_bytes g + 2"
    by (simp add: extent_cmds_def c_def)
  obtain rc1 c1 as1 q1 where head: "read_head g alloc n c as q = Some ((rc1, c1), as1, q1)"
    "accepts as \<le> 1 + accepts as1"
    using read_head_returns [of as g alloc n c q] assms(2) cmds by (fastforce simp: returns_within_def)
  have ext: "read_extent g alloc rs re dst e as q =
      (if rc1 < 0 then Some (-1, as1, q1) else read_body g alloc c1 as1 q1)"
    using head(1) by (simp add: read_extent_def Let_def n_def c_def)
  show ?thesis
  proof (cases "rc1 < 0")
    case True
    then show ?thesis
      using ext head(2) cmds by (simp add: returns_within_def)
  next
    case False
    have rem: "unat (remaining c1) \<le> unat (remaining c)"
    proof (cases "n = 0")
      case True
      then show ?thesis
        using head(1) by (simp add: read_head_def)
    next
      case n: False
      have "head_bytes g n (remaining c) \<le> remaining c"
        by (auto simp: head_bytes_def)
      then have "unat (remaining c - head_bytes g n (remaining c)) \<le> unat (remaining c)"
        by (subst unat_sub_noof) (simp_all add: word_le_nat_alt)
      then show ?thesis
        using read_head_cases [OF head(1) n] False by (auto split: if_splits)
    qed
    then have "unat (remaining c1) div lba_bytes g \<le> unat (remaining c) div lba_bytes g"
      by (rule div_le_mono)
    moreover from this have "unat (remaining c1) div lba_bytes g + 1 \<le> accepts as1"
      using head(2) assms(2) cmds by linarith
    ultimately show ?thesis
      using read_body_returns [OF assms(1), of c1 as1 alloc q1] head(2) cmds
      unfolding ext by (fastforce simp: returns_within_def False)
  qed
qed

lemma read_extents_returns:
  assumes "0 < unat (max_chunk_lbas g)" "sum_list (map (extent_cmds g rs re) es) \<le> accepts as"
  shows "read_extents g alloc rs re dst es as q \<noteq> None"
  using assms(2)
proof (induction es arbitrary: as q)
  case (Cons e es)
  show ?case
  proof (cases "file_offset e \<ge> re \<or> span_start rs e \<ge> span_end re e")
    case True
    then show ?thesis
      using Cons by auto
  next
    case False
    obtain rc1 as1 q1 where one: "read_extent g alloc rs re dst e as q = Some (rc1, as1, q1)"
      "accepts as \<le> extent_cmds g rs re e + accepts as1"
      using read_extent_returns [OF assms(1), of rs re e as alloc dst q] Cons.prems
      by (auto simp: returns_within_def)
    then show ?thesis
      using Cons False by simp
  qed
qed simp

section \<open>Properties\<close>

text \<open>
  C13: \<open>start_read_op\<close> returns. However often the queue is full, whatever completions a poke brings and
  whatever the extents are, it only needs the device to accept one command for each whole block and
  two for each extent of the request.
\<close>

theorem start_read_op_returns:
  assumes "op_request cs (q_op q) = (len, rs, base)"
    and "sum_list (map (extent_cmds g rs (rs + len)) es) \<le> accepts as"
  shows "\<exists>as' q'. start_read_op g cs alloc (Inr es) as q = Some (as', q')"
proof (cases "drop_bit (unat (lba_shift g)) (mdts_nbytes g) = 0")
  case True
  then show ?thesis
    by (simp add: start_read_op_def)
next
  case False
  then have "unat (mdts_nbytes g) div lba_bytes g \<noteq> 0"
    by (simp add: unat_drop_bit_div [symmetric] lba_bytes_def unat_eq_0)
  then have "0 < unat (max_chunk_lbas g)"
    by (simp add: geo_max_chunk)
  from read_extents_returns [OF this assms(2)] show ?thesis
    using assms(1) by (auto simp: start_read_op_def)
qed

text \<open>
  C7: the two counters of an operation tell exactly when nothing of it is in flight: after
  \<open>start_read_op\<close> has returned, on success or on any of its errors, and after any completions,
  \<open>reap_in_flight\<close> finds both counters zero if and only if every command that the device accepted for
  the operation has completed. An operation is therefore never completed early, and never left behind.
\<close>

theorem counters_track_in_flight:
  assumes "fresh_op q" "start_read_op g cs alloc x as q = Some (as', q1)"
    and "q2 = queue_poke (lba_size g) pokes q1"
  shows "chunks_remaining (q_op q2) = 0 \<and> bounces_outstanding (q_op q2) = 0 \<longleftrightarrow> q_inflight q2 = []"
proof -
  have "op_inv g q2"
    unfolding assms(3) using start_read_op_inv [OF assms(2) fresh_op_inv [OF assms(1)]] by (blast intro: poke_inv)
  then have "chunks_remaining (q_op q2) = int (length (chunks_of (q_inflight q2)))"
    "bounces_outstanding (q_op q2) = int (length (bounces_of (q_inflight q2)))"
    by (simp_all add: op_inv_def counters_ok_def)
  then show ?thesis
    by (auto simp: chunks_of_def bounces_of_def filter_empty_conv)
qed

section \<open>Examples\<close>

text \<open>A request that is not aligned, on a queue that is full at first, and a device that fails one command.\<close>

definition live_geo :: nvme_geo where
  "live_geo = \<lparr>lba_size = 512, lba_shift = 9, mdts_nbytes = 512, assume_aligned_only = False\<rparr>"

definition live_q :: qop where
  "live_q = \<lparr>q_op = \<lparr>op_mode = FILE_OP_ASYNC \<lparr>req_size = 1500, req_file_offset = 100, req_buf_offset = 0, future = 1\<rparr>,
       is_write = False, op_state = FILE_OP_IN_FLIGHT, op_file = \<lparr>fd = 3, oflags = 0\<rparr>, buf_base = 4096,
       chunks_remaining = 0, bounces_outstanding = 0, bytes_acc = 0, op_err = OPENDS_SUCCESS,
       bounces = replicate 2 \<lparr>slot_dst = 0, slot_src = 0, slot_nbytes = 0\<rparr>, n_bounces = 0, op_bounce_buf = 0\<rparr>,
     q_stream = \<lparr>gate = 0, next_seq = 0, stream_bounce_buf = 0, bounce_desc = \<lparr>desc_dst = 0, desc_src = 0, desc_n_bytes = 0\<rparr>\<rparr>,
     q_inflight = [], q_log = []\<rparr>"

definition live_extents :: "ds_extent list" where
  "live_extents = [\<lparr>file_offset = 0, slba = 10, ext_length = 8192\<rparr>]"

definition live_attempts :: "attempt list" where
  "live_attempts = [No_Ctx [], Accept, Busy [(0, True)], Accept, Accept, Accept]"

theorem start_read_op_returns_witness:
  "\<exists>as' q'. start_read_op live_geo (\<lambda>_. 0) 65536 (Inr live_extents) live_attempts live_q = Some (as', q')"
proof (rule start_read_op_returns)
  show "op_request (\<lambda>_. 0) (q_op live_q) = (1500, 100, 4096)"
    by code_simp
  show "sum_list (map (extent_cmds live_geo 100 (100 + 1500)) live_extents) \<le> accepts live_attempts"
    by code_simp
qed

theorem counters_track_in_flight_witness:
  "\<exists>as' q1. start_read_op live_geo (\<lambda>_. 0) 65536 (Inr live_extents) live_attempts live_q = Some (as', q1) \<and>
     (chunks_remaining (q_op (queue_poke 512 [(1, False)] q1)) = 0 \<and>
      bounces_outstanding (q_op (queue_poke 512 [(1, False)] q1)) = 0 \<longleftrightarrow>
      q_inflight (queue_poke 512 [(1, False)] q1) = [])"
proof -
  have "start_read_op live_geo (\<lambda>_. 0) 65536 (Inr live_extents) live_attempts live_q \<noteq> None"
    by code_simp
  then obtain as' q1 where run: "start_read_op live_geo (\<lambda>_. 0) 65536 (Inr live_extents) live_attempts live_q = Some (as', q1)"
    by auto
  have "fresh_op live_q"
    by (simp add: fresh_op_def live_q_def BOUNCE_SLOTS_def)
  then show ?thesis
    using run counters_track_in_flight [OF _ run refl, of "[(1, False)]"] by (simp add: live_geo_def)
qed

text \<open>
  The check of the PRP alignment covers the blocks that follow a head in the same extent only. Where
  a misaligned head ends its extent and the request goes on with whole blocks of the next one, the
  operation is not refused, although the data pointer of their command is not a multiple of 4.
\<close>

definition split_extents :: "ds_extent list" where
  "split_extents = [\<lparr>file_offset = 0, slba = 10, ext_length = 512\<rparr>, \<lparr>file_offset = 512, slba = 90, ext_length = 512\<rparr>]"

definition split_q :: qop where
  "split_q = live_q\<lparr>q_op := (q_op live_q)\<lparr>op_mode := FILE_OP_ASYNC \<lparr>req_size = 1023, req_file_offset = 1,
     req_buf_offset = 0, future = 1\<rparr>\<rparr>\<rparr>"

lemma unaligned_chunk_submitted:
  "case start_read_op live_geo (\<lambda>_. 0) 65536 (Inr split_extents) [Accept, Accept] split_q of
     Some (_, q) \<Rightarrow> op_err (q_op q) = OPENDS_SUCCESS \<and>
       cmd_kind (q_log q ! 1) = Chunk \<and> cmd_dst (q_log q ! 1) = 4096 + 511
   | None \<Rightarrow> False"
  by code_simp

end
