(* ===== verification/Io_Worker.thy ===== *)
theory Io_Worker
  imports Op_Completion
begin

text \<open>
  One I/O worker of src/opends_aisio.c: its ring of file operations and the loop of
  \<open>io_thread_main\<close> that serves it, with the submitter's side of the ring from \<open>claim_slot_locked\<close>,
  \<open>submit_async_op\<close> and \<open>submit_stream_op\<close>. The ring's indices are 32-bit words that only grow and
  wrap around; the slot of an index is its remainder by the queue size.

  A slot holds its operation with the commands that are in flight for it. The stream of a slot's
  operation is the driver's, in the world; the slot's copy of it is not used between dispatches.
\<close>

record io_worker =
  file_op_queue :: "qop list"
  queue_head :: u32
  queue_tail :: u32

definition slot_of :: "u32 \<Rightarrow> nat" where
  "slot_of i = unat (i AND FILE_OP_QUEUE_MASK)"

definition slot_at :: "io_worker \<Rightarrow> u32 \<Rightarrow> qop" where
  "slot_at w i = file_op_queue w ! slot_of i"

definition set_slot :: "u32 \<Rightarrow> qop \<Rightarrow> io_worker \<Rightarrow> io_worker" where
  "set_slot i q w = w\<lparr>file_op_queue := (file_op_queue w)[slot_of i := q]\<rparr>"

definition state_at :: "io_worker \<Rightarrow> u32 \<Rightarrow> file_op_state" where
  "state_at w i = op_state (q_op (slot_at w i))"

section \<open>The submitter's side\<close>

definition has_room :: "io_worker \<Rightarrow> bool" where
  "has_room w \<longleftrightarrow> queue_head w - queue_tail w < FILE_OP_QUEUE_SIZE"

text \<open>What a submitter stores in the slot it has claimed, and the publication of the slot.\<close>

definition fill_op :: "file_op_mode \<Rightarrow> bool \<Rightarrow> registered_file \<Rightarrow> ptr \<Rightarrow> file_op \<Rightarrow> file_op" where
  "fill_op m wr h buf op = op\<lparr>op_mode := m, is_write := wr, op_file := h, buf_base := buf\<rparr>"

definition fill_slot :: "file_op_mode \<Rightarrow> bool \<Rightarrow> registered_file \<Rightarrow> ptr \<Rightarrow> io_worker \<Rightarrow> io_worker" where
  "fill_slot m wr h buf w =
     set_slot (queue_head w) (upd_op (fill_op m wr h buf) (slot_at w (queue_head w))) w"

definition publish_slot :: "io_worker \<Rightarrow> io_worker" where
  "publish_slot w =
     (set_slot (queue_head w) (upd_op (\<lambda>op. op\<lparr>op_state := FILE_OP_PENDING\<rparr>) (slot_at w (queue_head w))) w)
       \<lparr>queue_head := queue_head w + 1\<rparr>"

section \<open>The I/O thread's side\<close>

text \<open>
  What one visit of a slot meets: the answers to a dispatch, the accelerator's copy, the backend of
  writes, and the completions of other operations that the pokes inside the dispatch have run, as
  triples of slot index, in-flight position and failure.
\<close>

record visit_env =
  v_read :: read_env
  v_copy :: accel_copy
  v_write :: "registered_file \<Rightarrow> ptr \<times> u64 \<times> u64 \<Rightarrow> int"
  v_others :: "(u32 \<times> nat \<times> bool) list"

definition deliver_at :: "u32 \<Rightarrow> u32 \<times> nat \<times> bool \<Rightarrow> io_worker \<Rightarrow> io_worker" where
  "deliver_at lba x w = (case x of (i, c) \<Rightarrow> set_slot i (deliver lba c (slot_at w i)) w)"

definition worker_poke :: "u32 \<Rightarrow> (u32 \<times> nat \<times> bool) list \<Rightarrow> io_worker \<Rightarrow> io_worker" where
  "worker_poke lba xs w = fold (deliver_at lba) xs w"

text \<open>The switch on a slot's state. \<open>None\<close>: the dispatch is still waiting for the queue.\<close>

definition visit :: "nvme_geo \<Rightarrow> visit_env \<Rightarrow> u32 \<Rightarrow> io_worker \<Rightarrow> io_world \<Rightarrow> (bool \<times> io_worker \<times> io_world) option" where
  "visit g env i w wd =
     (let q = slot_at w i; op = q_op q in
      case op_state op of
        FILE_OP_PENDING \<Rightarrow>
          (case op_mode op of
             FILE_OP_ASYNC a \<Rightarrow>
               (case dispatch_pending g (v_write env) (v_read env) op wd of
                  None \<Rightarrow> None
                | Some (q', wd') \<Rightarrow> Some (False, worker_poke (lba_size g) (v_others env) (set_slot i q' w), wd'))
           | FILE_OP_STREAM s \<Rightarrow>
               (case poll_stream_pending g (v_write env) (v_read env) op s wd of
                  (gated, r) \<Rightarrow>
                    if gated then Some (True, w, wd)
                    else (case r of
                            None \<Rightarrow> None
                          | Some (q', wd') \<Rightarrow>
                              Some (False, worker_poke (lba_size g) (v_others env) (set_slot i q' w), wd'))))
      | FILE_OP_IN_FLIGHT \<Rightarrow>
          (case reap_in_flight (v_copy env) op wd of
             (op', wd') \<Rightarrow> Some (False, set_slot i (q\<lparr>q_op := op'\<rparr>) w, wd'))
      | FILE_OP_FREE \<Rightarrow> Some (False, w, wd))"

lemma dec_distance: "i \<noteq> head \<Longrightarrow> unat (head - (i + 1) :: u32) < unat (head - i)"
proof -
  assume "i \<noteq> head"
  then have "head - i \<noteq> 0"
    by simp
  then have "unat (head - i - 1) = unat (head - i) - 1" "0 < unat (head - i)"
    by (simp_all add: unat_minus_one unat_gt_0)
  then show ?thesis
    unfolding diff_diff_eq [symmetric] by simp
qed

text \<open>The loop over the slots from the tail to the head that was read at its start.\<close>

function scan :: "nvme_geo \<Rightarrow> (u32 \<Rightarrow> visit_env) \<Rightarrow> u32 \<Rightarrow> u32 \<Rightarrow> bool \<Rightarrow> io_worker \<Rightarrow> io_world
    \<Rightarrow> (bool \<times> io_worker \<times> io_world) option" where
  "scan g env head i busy w wd =
     (if i = head then Some (busy, w, wd)
      else case visit g (env i) i w wd of
             None \<Rightarrow> None
           | Some (b, w', wd') \<Rightarrow> scan g env head (i + 1) (busy \<or> b) w' wd')"
  by auto
termination
  by (relation "measure (\<lambda>(g, env, head, i, b, w, wd). unat (head - i))") (auto intro: dec_distance)

text \<open>The loop that gives free slots back: the tail stops at the first operation that is not free.\<close>

function retire_loop :: "u32 \<Rightarrow> io_worker \<Rightarrow> u32 \<Rightarrow> u32" where
  "retire_loop head w t =
     (if t = head then t else if state_at w t \<noteq> FILE_OP_FREE then t else retire_loop head w (t + 1))"
  by auto
termination
  by (relation "measure (\<lambda>(head, w, t). unat (head - t))") (auto intro: dec_distance)

definition retire :: "u32 \<Rightarrow> io_worker \<Rightarrow> io_worker" where
  "retire head w = w\<lparr>queue_tail := retire_loop head w (queue_tail w)\<rparr>"

declare scan.simps [simp del] retire_loop.simps [simp del]

text \<open>
  One pass of \<open>io_thread_main\<close>, with \<open>head\<close> the head it read: whether the thread leaves the loop, and
  the worker after the poke that ends a busy pass.
\<close>

definition io_pass ::
  "nvme_geo \<Rightarrow> (u32 \<Rightarrow> visit_env) \<Rightarrow> (u32 \<times> nat \<times> bool) list \<Rightarrow> bool \<Rightarrow> u32 \<Rightarrow> io_worker \<Rightarrow> io_world
    \<Rightarrow> (bool \<times> io_worker \<times> io_world) option" where
  "io_pass g env pokes stop head w wd =
     (case scan g env head (queue_tail w) False w wd of
        None \<Rightarrow> None
      | Some (busy0, w1, wd1) \<Rightarrow>
          let w2 = retire head w1; busy = (busy0 \<or> queue_tail w2 \<noteq> head) in
          if stop \<and> \<not> busy then Some (True, w2, wd1)
          else if busy then Some (False, worker_poke (lba_size g) pokes w2, wd1)
          else Some (False, w2, wd1))"


section \<open>The ring as a queue\<close>

text \<open>The operations between tail and head, oldest first.\<close>

definition ring_len :: "io_worker \<Rightarrow> nat" where
  "ring_len w = unat (queue_head w - queue_tail w)"

definition ring :: "io_worker \<Rightarrow> qop list" where
  "ring w = map (\<lambda>j. slot_at w (queue_tail w + of_nat j)) [0..<ring_len w]"

text \<open>
  The invariant: the queue has its slots, no more operations than slots, and every slot that no
  operation occupies is free.
\<close>

definition ring_ok :: "io_worker \<Rightarrow> bool" where
  "ring_ok w \<longleftrightarrow>
     length (file_op_queue w) = unat FILE_OP_QUEUE_SIZE \<and> ring_len w \<le> unat FILE_OP_QUEUE_SIZE \<and>
     (\<forall>j. ring_len w \<le> j \<longrightarrow> j < unat FILE_OP_QUEUE_SIZE \<longrightarrow> state_at w (queue_tail w + of_nat j) = FILE_OP_FREE)"

lemma queue_size: "unat FILE_OP_QUEUE_SIZE = 1024" "FILE_OP_QUEUE_MASK = mask 10"
  by (simp_all add: FILE_OP_QUEUE_SIZE_def FILE_OP_QUEUE_MASK_def mask_eq_exp_minus_1)

lemma slot_of_mod: "slot_of i = unat i mod 1024"
  by (simp add: slot_of_def queue_size unat_and_mask)

lemma slot_of_less: "slot_of i < 1024"
  by (simp add: slot_of_mod)

text \<open>Indices less than a queue size apart have different slots, across the wrap-around too.\<close>

lemma slot_of_add: "slot_of (t + of_nat j) = (slot_of t + j) mod 1024"
proof -
  have "unat (t + of_nat j) = (unat t + j) mod 2 ^ 32"
    by (simp add: unat_word_ariths unsigned_of_nat take_bit_eq_mod mod_add_right_eq)
  moreover have "x mod 2 ^ 32 mod 1024 = x mod (1024 :: nat)" for x
    by (rule mod_mod_cancel) simp
  ultimately show ?thesis
    by (simp add: slot_of_mod mod_add_left_eq)
qed

lemma mod_shift_inj:
  fixes N :: nat
  assumes "j < N" "k < N" "(s + j) mod N = (s + k) mod N"
  shows "j = k"
proof -
  have le: "a = b" if "a \<le> b" "b < N" "(s + b) mod N = (s + a) mod N" for a b
  proof -
    have "N dvd b - a"
      using that(1,3) by (simp add: mod_eq_dvd_iff_nat)
    then show ?thesis
      using that(1,2) by (auto dest: dvd_imp_le)
  qed
  show ?thesis
    using le [of j k] le [of k j] assms by (cases "j \<le> k") auto
qed

lemma mod_shift_sub: "N \<le> m \<Longrightarrow> (s + m) mod N = (s + (m - N)) mod (N :: nat)"
proof -
  assume "N \<le> m"
  then have "s + m = s + (m - N) + N"
    by simp
  then show ?thesis
    by (simp only: mod_add_self2)
qed

lemma unat_of_nat_u32: "n < 2 ^ 32 \<Longrightarrow> unat (of_nat n :: u32) = n"
  by (simp add: unsigned_of_nat take_bit_eq_mod)

lemma slot_of_inj:
  assumes "j < 1024" "k < 1024" "slot_of (t + of_nat j) = slot_of (t + of_nat k)"
  shows "j = k"
proof -
  have "(slot_of t + j) mod 1024 = (slot_of t + k) mod 1024"
    using assms(3) by (simp add: slot_of_add)
  then show ?thesis
    by (rule mod_shift_inj [OF assms(1,2)])
qed

lemma slot_at_set:
  assumes "length (file_op_queue w) = 1024"
  shows "slot_at (set_slot i q w) j = (if slot_of j = slot_of i then q else slot_at w j)"
  using assms slot_of_less [of i] by (simp add: slot_at_def set_slot_def nth_list_update)

lemma set_slot_simps [simp]:
  "queue_head (set_slot i q w) = queue_head w" "queue_tail (set_slot i q w) = queue_tail w"
  "length (file_op_queue (set_slot i q w)) = length (file_op_queue w)"
  "ring_len (set_slot i q w) = ring_len w"
  by (simp_all add: set_slot_def ring_len_def)

lemma ring_simps [simp]:
  "length (ring w) = ring_len w"
  "j < ring_len w \<Longrightarrow> ring w ! j = slot_at w (queue_tail w + of_nat j)"
  by (simp_all add: ring_def)

lemma ring_okD:
  assumes "ring_ok w"
  shows "length (file_op_queue w) = 1024" "ring_len w \<le> 1024"
    "ring_len w \<le> j \<Longrightarrow> j < 1024 \<Longrightarrow> state_at w (queue_tail w + of_nat j) = FILE_OP_FREE"
  using assms by (simp_all add: ring_ok_def queue_size)

text \<open>Storing into the slot of an operation of the ring changes that operation and no other.\<close>

lemma ring_set:
  assumes "ring_ok w" "j < ring_len w"
  shows "ring (set_slot (queue_tail w + of_nat j) q w) = (ring w)[j := q]"
    "ring_ok (set_slot (queue_tail w + of_nat j) q w)"
proof -
  note ok = ring_okD [OF assms(1)]
  have at: "slot_at (set_slot (queue_tail w + of_nat j) q w) (queue_tail w + of_nat k) =
      (if k = j then q else slot_at w (queue_tail w + of_nat k))" if "k < 1024" for k
    using slot_of_inj [of k j "queue_tail w"] that assms(2) ok(2) by (auto simp: slot_at_set ok(1))
  show "ring (set_slot (queue_tail w + of_nat j) q w) = (ring w)[j := q]"
    using at ok(2) by (intro nth_equalityI) (auto simp: nth_list_update)
  show "ring_ok (set_slot (queue_tail w + of_nat j) q w)"
    using ok at assms(2) by (auto simp: ring_ok_def queue_size state_at_def)
qed

lemma head_index: "queue_head w = queue_tail w + of_nat (ring_len w)"
  by (simp add: ring_len_def)

text \<open>Publishing appends to the queue.\<close>

definition pending_op :: "file_op_mode \<Rightarrow> bool \<Rightarrow> registered_file \<Rightarrow> ptr \<Rightarrow> file_op \<Rightarrow> file_op" where
  "pending_op m wr h buf op = (fill_op m wr h buf op)\<lparr>op_state := FILE_OP_PENDING\<rparr>"

lemma has_room_len: "has_room w \<longleftrightarrow> ring_len w < 1024"
  by (simp add: has_room_def ring_len_def word_less_nat_alt queue_size)

lemma submit_ring:
  assumes ok: "ring_ok w" and room: "has_room w"
  defines "q \<equiv> slot_at w (queue_head w)"
  shows "ring (publish_slot (fill_slot m wr h buf w)) = ring w @ [upd_op (pending_op m wr h buf) q]"
    "ring_ok (publish_slot (fill_slot m wr h buf w))"
    "op_state (q_op q) = FILE_OP_FREE"
proof -
  let ?w' = "publish_slot (fill_slot m wr h buf w)"
  note okd = ring_okD [OF ok]
  have n: "ring_len w < 1024"
    using room by (simp add: has_room_len)
  show "op_state (q_op q) = FILE_OP_FREE"
    using okd(3) [of "ring_len w"] n by (simp add: q_def state_at_def flip: head_index)
  have tl: "queue_tail ?w' = queue_tail w" and hd: "queue_head ?w' = queue_head w + 1"
    by (simp_all add: publish_slot_def fill_slot_def)
  have len: "ring_len ?w' = Suc (ring_len w)"
  proof -
    have "queue_head w + 1 - queue_tail w = of_nat (Suc (ring_len w))"
      using head_index [of w] by simp
    moreover have "Suc (ring_len w) < 2 ^ 32"
      using n by simp
    ultimately show ?thesis
      using n unfolding ring_len_def [of ?w'] tl hd by (simp only: unat_of_nat_u32)
  qed
  have qlen: "length (file_op_queue ?w') = 1024"
    using okd(1) by (simp add: publish_slot_def fill_slot_def)
  have at: "slot_at ?w' (queue_tail w + of_nat k) =
      (if k = ring_len w then upd_op (pending_op m wr h buf) q else slot_at w (queue_tail w + of_nat k))"
    if "k < 1024" for k
  proof -
    have "slot_of (queue_tail w + of_nat k) = slot_of (queue_head w) \<longleftrightarrow> k = ring_len w"
      using slot_of_inj [of k "ring_len w" "queue_tail w"] that n unfolding head_index [of w] by auto
    moreover have "slot_at ?w' i = (if slot_of i = slot_of (queue_head w)
        then upd_op (pending_op m wr h buf) q else slot_at w i)" for i
    proof -
      have "slot_at ?w' i = slot_at (set_slot (queue_head w) (upd_op (\<lambda>op. op\<lparr>op_state := FILE_OP_PENDING\<rparr>)
          (slot_at (fill_slot m wr h buf w) (queue_head w))) (fill_slot m wr h buf w)) i"
        by (simp add: publish_slot_def slot_at_def fill_slot_def)
      then show ?thesis
        using okd(1) by (simp add: slot_at_set fill_slot_def q_def upd_op_def pending_op_def)
    qed
    ultimately show ?thesis
      by simp
  qed
  show "ring ?w' = ring w @ [upd_op (pending_op m wr h buf) q]"
    using at n by (intro nth_equalityI) (auto simp: len tl nth_append less_Suc_eq)
  show "ring_ok ?w'"
    using okd at n by (auto simp: ring_ok_def queue_size len tl qlen state_at_def)
qed

text \<open>Retiring removes the free operations at the front.\<close>

lemma drop_ring:
  assumes ok: "ring_ok w" and n: "n \<le> ring_len w"
    and free: "\<And>j. j < n \<Longrightarrow> state_at w (queue_tail w + of_nat j) = FILE_OP_FREE"
  defines "w' \<equiv> w\<lparr>queue_tail := queue_tail w + of_nat n\<rparr>"
  shows "ring w' = drop n (ring w)" "ring_ok w'"
proof -
  note okd = ring_okD [OF ok]
  have len: "ring_len w' = ring_len w - n"
  proof -
    have "queue_head w - (queue_tail w + of_nat n) = of_nat (ring_len w - n)"
      using n head_index [of w] by (simp add: of_nat_diff)
    then show ?thesis
      using okd(2) by (simp add: w'_def ring_len_def unsigned_of_nat take_bit_eq_mod)
  qed
  have at: "slot_at w' i = slot_at w i" for i
    by (simp add: w'_def slot_at_def)
  have tl: "queue_tail w' = queue_tail w + of_nat n"
    by (simp add: w'_def)
  show "ring w' = drop n (ring w)"
    by (intro nth_equalityI) (use n in \<open>simp_all add: len at tl add.assoc\<close>)
  have "state_at w (queue_tail w + of_nat n + of_nat j) = FILE_OP_FREE" if "ring_len w - n \<le> j" "j < 1024" for j
  proof (cases "n + j < 1024")
    case True
    then show ?thesis
      using okd(3) [of "n + j"] that n by (simp add: add.assoc)
  next
    case False
    then have "slot_of (queue_tail w + of_nat (n + j)) = slot_of (queue_tail w + of_nat (n + j - 1024))"
      unfolding slot_of_add by (intro mod_shift_sub) simp
    moreover have "n + j - 1024 < n"
      using that False by simp
    ultimately show ?thesis
      using free [of "n + j - 1024"] by (simp add: state_at_def slot_at_def add.assoc)
  qed
  then show "ring_ok w'"
    using okd len by (auto simp: ring_ok_def queue_size tl state_at_def at) (simp add: w'_def)
qed

section \<open>What a visit does to the operations\<close>

text \<open>An operation whose commands have all completed.\<close>

definition idle :: "qop \<Rightarrow> bool" where
  "idle q \<longleftrightarrow> chunks_remaining (q_op q) = 0 \<and> bounces_outstanding (q_op q) = 0 \<and> q_inflight q = []"

definition op_shape :: "qop \<Rightarrow> bool" where
  "op_shape q \<longleftrightarrow> length (bounces (q_op q)) = BOUNCE_SLOTS"

text \<open>What completions may change of an operation.\<close>

definition poked :: "qop \<Rightarrow> qop \<Rightarrow> bool" where
  "poked q q' \<longleftrightarrow>
     op_state (q_op q') = op_state (q_op q) \<and> op_mode (q_op q') = op_mode (q_op q) \<and>
     is_write (q_op q') = is_write (q_op q) \<and> (idle q \<longrightarrow> idle q') \<and> (op_shape q \<longrightarrow> op_shape q')"

text \<open>
  What the I/O thread does to an operation it visits: it stays the same operation; an async operation leaves the pending state, a
  write at once for good; an operation in flight is completed as soon as it is idle; a free slot
  stays free.
\<close>

definition visited :: "qop \<Rightarrow> qop \<Rightarrow> bool" where
  "visited q q' \<longleftrightarrow>
     (op_shape q \<longrightarrow> op_shape q') \<and> op_mode (q_op q') = op_mode (q_op q) \<and> is_write (q_op q') = is_write (q_op q) \<and>
     (case op_state (q_op q) of
        FILE_OP_FREE \<Rightarrow> op_state (q_op q') = FILE_OP_FREE
      | FILE_OP_IN_FLIGHT \<Rightarrow>
          op_state (q_op q') \<noteq> FILE_OP_PENDING \<and> (idle q \<longrightarrow> op_state (q_op q') = FILE_OP_FREE)
      | FILE_OP_PENDING \<Rightarrow>
          (case op_mode (q_op q) of
             FILE_OP_ASYNC a \<Rightarrow> op_state (q_op q') = (if is_write (q_op q) then FILE_OP_FREE else FILE_OP_IN_FLIGHT)
           | FILE_OP_STREAM s \<Rightarrow> True))"

lemma poked_refl [simp]: "poked q q"
  by (simp add: poked_def)

lemma poked_trans: "poked q q' \<Longrightarrow> poked q' q'' \<Longrightarrow> poked q q''"
  by (simp add: poked_def)

lemma visited_poked: "visited q q' \<Longrightarrow> poked q' q'' \<Longrightarrow> visited q q''"
  by (auto simp: visited_def poked_def split: file_op_state.splits file_op_mode.splits)

lemma poked_visited: "poked q q' \<Longrightarrow> visited q' q'' \<Longrightarrow> visited q q''"
  by (auto simp: visited_def poked_def split: file_op_state.splits file_op_mode.splits)

lemma deliver_poked: "poked q (deliver lba c q)"
proof (cases c)
  case (Pair i failed)
  have same: "same_plan q (deliver lba (i, failed) q)"
    by (rule deliver_same_plan)
  then show ?thesis
    unfolding Pair by (auto simp: poked_def same_plan_def idle_def op_shape_def)
qed

text \<open>The slots of two states of a worker, compared one by one.\<close>

definition slots_rel :: "(nat \<Rightarrow> qop \<Rightarrow> qop \<Rightarrow> bool) \<Rightarrow> io_worker \<Rightarrow> io_worker \<Rightarrow> bool" where
  "slots_rel R w w' \<longleftrightarrow>
     queue_head w' = queue_head w \<and> queue_tail w' = queue_tail w \<and>
     length (file_op_queue w') = length (file_op_queue w) \<and>
     (\<forall>s < length (file_op_queue w). R s (file_op_queue w ! s) (file_op_queue w' ! s))"

lemma poke_slots: "slots_rel (\<lambda>_. poked) w (worker_poke lba xs w)"
proof (induction xs arbitrary: w)
  case Nil
  then show ?case
    by (simp add: worker_poke_def slots_rel_def)
next
  case (Cons x xs)
  obtain i c where x: "x = (i, c)"
    by (cases x)
  have "poked (file_op_queue w ! s) ((file_op_queue w)[slot_of i := deliver lba c (file_op_queue w ! slot_of i)] ! s)"
    if "s < length (file_op_queue w)" for s
    using that deliver_poked by (cases "s = slot_of i") auto
  then have one: "slots_rel (\<lambda>_. poked) w (deliver_at lba x w)"
    unfolding x by (simp add: slots_rel_def deliver_at_def set_slot_def slot_at_def del: deliver.simps)
  have "slots_rel (\<lambda>_. poked) (deliver_at lba x w) (worker_poke lba xs (deliver_at lba x w))"
    by (rule Cons.IH)
  then show ?case
    using one by (auto simp: slots_rel_def worker_poke_def intro: poked_trans)
qed

definition worker_ok :: "io_worker \<Rightarrow> bool" where
  "worker_ok w \<longleftrightarrow> ring_ok w \<and> (\<forall>q \<in> set (file_op_queue w). op_shape q)"

lemma dispatch_read_state:
  assumes "dispatch_read g env op w = Some (q', w')" "length (bounces op) = BOUNCE_SLOTS"
  shows "op_state (q_op q') = FILE_OP_IN_FLIGHT" "op_shape q'"
    "op_mode (q_op q') = op_mode op" "is_write (q_op q') = is_write op"
proof -
  define q where "q = \<lparr>q_op = reset_op op, q_stream = streams w ! op_stream_of op, q_inflight = [], q_log = []\<rparr>"
  obtain as' where run: "start_read_op g (cells w) (re_alloc env) (re_extents env (op_file op)) (re_attempts env) q = Some (as', q')"
    using assms(1) by (auto simp: dispatch_read_def q_def Let_def split: option.splits)
  have "fresh_op q"
    using assms(2) by (simp add: fresh_op_def q_def reset_op_def)
  then have "op_inv g q'" "kept q q'"
    using start_read_op_inv [OF run fresh_op_inv] by auto
  then show "op_state (q_op q') = FILE_OP_IN_FLIGHT" "op_shape q'"
    "op_mode (q_op q') = op_mode op" "is_write (q_op q') = is_write op"
    by (simp_all add: kept_def q_def reset_op_def op_inv_def slots_ok_def op_shape_def)
qed

lemma dispatch_write_state:
  assumes "dispatch_write pw op w = (op', w')"
  shows "op' = op\<lparr>op_state := FILE_OP_FREE\<rparr>"
  using assms by (simp add: dispatch_write_def Let_def)

lemma dispatch_pending_state:
  assumes res: "dispatch_pending g pw env op w = Some (q', w')" and shape: "length (bounces op) = BOUNCE_SLOTS"
  shows "op_state (q_op q') = (if is_write op then FILE_OP_FREE else FILE_OP_IN_FLIGHT)" "op_shape q'"
    "op_mode (q_op q') = op_mode op" "is_write (q_op q') = is_write op"
proof -
  obtain op1 w1 where dw: "dispatch_write pw op w = (op1, w1)"
    by fastforce
  have "op_state (q_op q') = (if is_write op then FILE_OP_FREE else FILE_OP_IN_FLIGHT) \<and> op_shape q' \<and>
    op_mode (q_op q') = op_mode op \<and> is_write (q_op q') = is_write op"
    using res shape dispatch_read_state [of g env op w q' w'] dispatch_write_state [OF dw] dw
    by (cases "is_write op") (auto simp: dispatch_pending_def op_shape_def)
  then show "op_state (q_op q') = (if is_write op then FILE_OP_FREE else FILE_OP_IN_FLIGHT)" "op_shape q'"
    "op_mode (q_op q') = op_mode op" "is_write (q_op q') = is_write op"
    by simp_all
qed

lemma complete_op:
  "fst (complete_read_op copy op w) = op\<lparr>op_state := FILE_OP_FREE\<rparr>"
  by (simp add: complete_read_op_def Let_def split: file_op_mode.splits prod.splits)

lemma reap_op:
  "fst (reap_in_flight copy op w) =
    (if chunks_remaining op = 0 \<and> bounces_outstanding op = 0 then op\<lparr>op_state := FILE_OP_FREE\<rparr> else op)"
  by (simp add: reap_in_flight_def complete_op)

text \<open>The three ways in which a visit ends: nothing to do, a dispatch, a look at an operation in flight.\<close>

lemma visit_cases:
  assumes res: "visit g env i w wd = Some (b, w', wd')"
  obtains (same) "w' = w" "wd' = wd"
      "op_state (q_op (slot_at w i)) = FILE_OP_FREE \<or>
       op_state (q_op (slot_at w i)) = FILE_OP_PENDING \<and> (\<exists>s. op_mode (q_op (slot_at w i)) = FILE_OP_STREAM s)"
    | (dispatched) q' where "op_state (q_op (slot_at w i)) = FILE_OP_PENDING"
      "dispatch_pending g (v_write env) (v_read env) (q_op (slot_at w i)) wd = Some (q', wd')"
      "w' = worker_poke (lba_size g) (v_others env) (set_slot i q' w)"
    | (reaped) op' where "op_state (q_op (slot_at w i)) = FILE_OP_IN_FLIGHT"
      "reap_in_flight (v_copy env) (q_op (slot_at w i)) wd = (op', wd')"
      "w' = set_slot i ((slot_at w i)\<lparr>q_op := op'\<rparr>) w"
proof (cases "op_state (q_op (slot_at w i))")
  case FILE_OP_FREE
  then show thesis
    using res same by (simp add: visit_def Let_def)
next
  case FILE_OP_IN_FLIGHT
  then show thesis
    using res by (cases "reap_in_flight (v_copy env) (q_op (slot_at w i)) wd") (simp add: visit_def Let_def reaped)
next
  case FILE_OP_PENDING
  show thesis
  proof (cases "op_mode (q_op (slot_at w i))")
    case (FILE_OP_ASYNC a)
    then show thesis
      using res FILE_OP_PENDING dispatched by (auto simp: visit_def Let_def split: option.splits)
  next
    case (FILE_OP_STREAM s)
    show thesis
    proof (cases "gate_closed (gate (streams wd ! op_stream s)) (seq s)")
      case True
      then show thesis
        using res FILE_OP_PENDING FILE_OP_STREAM by (intro same) (simp_all add: visit_def Let_def poll_stream_pending_def)
    next
      case False
      then show thesis
        using res FILE_OP_PENDING FILE_OP_STREAM dispatched
        by (simp add: visit_def Let_def poll_stream_pending_def split: option.splits prod.splits)
    qed
  qed
qed

lemma visit_slots:
  assumes res: "visit g env i w wd = Some (b, w', wd')"
    and len: "length (file_op_queue w) = 1024" and shape: "op_shape (slot_at w i)"
  shows "slots_rel (\<lambda>s. if s = slot_of i then visited else poked) w w'"
proof -
  define q where "q = slot_at w i"
  have stored: "slots_rel (\<lambda>s. if s = slot_of i then visited else poked) w (set_slot i q' w)" if "visited q q'" for q'
    using that len by (auto simp: slots_rel_def set_slot_def q_def slot_at_def nth_list_update)
  have poke: "slots_rel (\<lambda>s. if s = slot_of i then visited else poked) w (worker_poke lba xs w1)"
    if "slots_rel (\<lambda>s. if s = slot_of i then visited else poked) w w1" for lba xs w1
    using that poke_slots [of w1 lba xs] unfolding slots_rel_def
    by (auto intro: visited_poked poked_trans split: if_splits)
  show ?thesis
    using res
  proof (cases rule: visit_cases)
    case same
    then show ?thesis
      by (auto simp: slots_rel_def visited_def slot_at_def)
  next
    case (dispatched q')
    have "visited q q'"
      using dispatch_pending_state [OF dispatched(2)] shape dispatched(1)
      by (auto simp: visited_def op_shape_def q_def split: file_op_mode.splits)
    then show ?thesis
      unfolding dispatched(3) by (intro poke stored)
  next
    case (reaped op1)
    have "visited q (q\<lparr>q_op := op1\<rparr>)"
      using reap_op [of "v_copy env" "q_op q" wd] reaped(1,2)
      by (auto simp: q_def visited_def idle_def op_shape_def split: if_splits)
    then show ?thesis
      unfolding reaped(3) using stored by (simp add: q_def)
  qed
qed

text \<open>Every slot keeps its shape, and a free slot stays free: what keeps the ring in order.\<close>

definition stays :: "qop \<Rightarrow> qop \<Rightarrow> bool" where
  "stays q q' \<longleftrightarrow> (op_shape q \<longrightarrow> op_shape q') \<and>
     (op_state (q_op q) = FILE_OP_FREE \<longrightarrow> op_state (q_op q') = FILE_OP_FREE)"

lemma poked_stays: "poked q q' \<Longrightarrow> stays q q'"
  by (simp add: poked_def stays_def)

lemma visited_stays: "visited q q' \<Longrightarrow> stays q q'"
  by (auto simp: visited_def stays_def split: file_op_state.splits)

lemma worker_ok_slots:
  assumes rel: "slots_rel (\<lambda>_. stays) w w'" and ok: "worker_ok w"
  shows "worker_ok w'"
proof -
  note ring = ring_okD [OF conjunct1 [OF ok [unfolded worker_ok_def]]]
  have len: "length (file_op_queue w') = 1024"
    using rel ring(1) by (simp add: slots_rel_def)
  have slot: "stays (file_op_queue w ! s) (file_op_queue w' ! s)" if "s < 1024" for s
    using rel that ring(1) by (simp add: slots_rel_def)
  have rl: "ring_len w' = ring_len w" "queue_tail w' = queue_tail w"
    using rel by (simp_all add: slots_rel_def ring_len_def)
  have "state_at w' i = FILE_OP_FREE" if "state_at w i = FILE_OP_FREE" for i
    using slot [OF slot_of_less [of i]] that by (simp add: stays_def state_at_def slot_at_def)
  then have "ring_ok w'"
    using ring by (auto simp: ring_ok_def queue_size len rl)
  moreover have "op_shape q" if "q \<in> set (file_op_queue w')" for q
  proof -
    obtain s where s: "s < 1024" "q = file_op_queue w' ! s"
      using \<open>q \<in> _\<close> len by (auto simp: in_set_conv_nth)
    then have "op_shape (file_op_queue w ! s)"
      using ok ring(1) by (simp add: worker_ok_def)
    then show ?thesis
      using slot [OF s(1)] s(2) by (simp add: stays_def)
  qed
  ultimately show ?thesis
    by (simp add: worker_ok_def)
qed

lemma slot_shape: "worker_ok w \<Longrightarrow> op_shape (slot_at w i)"
  using slot_of_less [of i] by (auto simp: worker_ok_def slot_at_def ring_ok_def queue_size)

lemma visit_ok:
  assumes "visit g env i w wd = Some (b, w', wd')" "worker_ok w"
  shows "worker_ok w'"
proof -
  have "length (file_op_queue w) = 1024"
    using assms(2) by (simp add: worker_ok_def ring_ok_def queue_size)
  from visit_slots [OF assms(1) this slot_shape [OF assms(2)]]
  have "slots_rel (\<lambda>_. stays) w w'"
    by (auto simp: slots_rel_def intro: poked_stays visited_stays split: if_splits)
  then show ?thesis
    by (rule worker_ok_slots [OF _ assms(2)])
qed

text \<open>The slots of the indices from \<open>tail + k\<close> up to \<open>tail + n\<close>.\<close>

definition window :: "u32 \<Rightarrow> nat \<Rightarrow> nat \<Rightarrow> nat set" where
  "window t k n = (\<lambda>j. slot_of (t + of_nat j)) ` {k..<n}"

lemma window_step:
  assumes "k < n" "n \<le> 1024"
  shows "window t k n = insert (slot_of (t + of_nat k)) (window t (Suc k) n)"
    "slot_of (t + of_nat k) \<notin> window t (Suc k) n"
proof -
  have "{k..<n} = insert k {Suc k..<n}"
    using assms(1) by auto
  then show "window t k n = insert (slot_of (t + of_nat k)) (window t (Suc k) n)"
    by (simp add: window_def)
  show "slot_of (t + of_nat k) \<notin> window t (Suc k) n"
  proof
    assume "slot_of (t + of_nat k) \<in> window t (Suc k) n"
    then obtain j where j: "Suc k \<le> j" "j < n" "slot_of (t + of_nat k) = slot_of (t + of_nat j)"
      by (auto simp: window_def)
    then have "k = j"
      using assms by (intro slot_of_inj [of k j t]) simp_all
    then show False
      using j(1) by simp
  qed
qed

lemma scan_slots:
  assumes "scan g env head i busy w wd = Some (b, w', wd')" "worker_ok w"
    and "i = t + of_nat k" "head = t + of_nat n" "k \<le> n" "n \<le> 1024"
  shows "worker_ok w' \<and> slots_rel (\<lambda>s. if s \<in> window t k n then visited else poked) w w'"
  using assms
proof (induction "n - k" arbitrary: k i busy w wd)
  case 0
  then have "i = head"
    by simp
  with 0 show ?case
    by (auto simp: scan.simps slots_rel_def window_def)
next
  case (Suc d)
  have kn: "k < n"
    using Suc.hyps(2) by simp
  have ne: "i \<noteq> head"
  proof
    assume "i = head"
    then have "(of_nat k :: u32) = of_nat n"
      using Suc.prems(3,4) by simp
    then have "unat (of_nat k :: u32) = unat (of_nat n :: u32)"
      by simp
    then show False
      using kn Suc.prems(6) by (simp add: unat_of_nat_u32)
  qed
  obtain b1 w1 wd1 where one: "visit g (env i) i w wd = Some (b1, w1, wd1)"
    and rest: "scan g env head (i + 1) (busy \<or> b1) w1 wd1 = Some (b, w', wd')"
    using Suc.prems(1) ne by (subst (asm) scan.simps) (auto split: option.splits)
  have len: "length (file_op_queue w) = 1024"
    using Suc.prems(2) by (simp add: worker_ok_def ring_ok_def queue_size)
  have ok1: "worker_ok w1"
    by (rule visit_ok [OF one Suc.prems(2)])
  have rel1: "slots_rel (\<lambda>s. if s = slot_of i then visited else poked) w w1"
    by (rule visit_slots [OF one len slot_shape [OF Suc.prems(2)]])
  have "d = n - Suc k" "i + 1 = t + of_nat (Suc k)" "Suc k \<le> n"
    using Suc.hyps(2) Suc.prems(3) kn by simp_all
  from Suc.hyps(1) [OF this(1) rest ok1 this(2) Suc.prems(4) this(3) Suc.prems(6)]
  have rel2: "worker_ok w' \<and> slots_rel (\<lambda>s. if s \<in> window t (Suc k) n then visited else poked) w1 w'" .
  have "slots_rel (\<lambda>s. if s \<in> window t k n then visited else poked) w w'"
    using rel1 conjunct2 [OF rel2] window_step [OF kn Suc.prems(6), of t] Suc.prems(3)
    unfolding slots_rel_def by (auto intro: visited_poked poked_visited poked_trans split: if_splits)
  then show ?case
    using rel2 by simp
qed

definition free_op :: "qop \<Rightarrow> bool" where
  "free_op q \<longleftrightarrow> op_state (q_op q) = FILE_OP_FREE"

lemma retire_loop_stops:
  assumes "k \<le> n" "n \<le> 1024"
  shows "\<exists>m. k \<le> m \<and> m \<le> n \<and> retire_loop (t + of_nat n) w (t + of_nat k) = t + of_nat m \<and>
    (\<forall>j. k \<le> j \<longrightarrow> j < m \<longrightarrow> state_at w (t + of_nat j) = FILE_OP_FREE) \<and>
    (m = n \<or> state_at w (t + of_nat m) \<noteq> FILE_OP_FREE)"
  using assms
proof (induction "n - k" arbitrary: k)
  case 0
  then have "k = n"
    by simp
  then show ?case
    by (intro exI [of _ n]) (simp add: retire_loop.simps)
next
  case (Suc d)
  have kn: "k < n"
    using Suc.hyps(2) by simp
  have ne: "t + of_nat k \<noteq> (t + of_nat n :: u32)"
  proof
    assume "t + of_nat k = (t + of_nat n :: u32)"
    then have "unat (of_nat k :: u32) = unat (of_nat n :: u32)"
      by simp
    then show False
      using kn Suc.prems(2) by (simp add: unat_of_nat_u32)
  qed
  show ?case
  proof (cases "state_at w (t + of_nat k) = FILE_OP_FREE")
    case False
    then show ?thesis
      using kn ne by (intro exI [of _ k]) (simp add: retire_loop.simps)
  next
    case True
    have next_index: "t + of_nat (Suc k) = t + of_nat k + (1 :: u32)"
      by simp
    have "d = n - Suc k" "Suc k \<le> n"
      using Suc.hyps(2) kn by simp_all
    from Suc.hyps(1) [OF this Suc.prems(2)] obtain m where m: "Suc k \<le> m" "m \<le> n"
      "retire_loop (t + of_nat n) w (t + of_nat (Suc k)) = t + of_nat m"
      "\<forall>j. Suc k \<le> j \<longrightarrow> j < m \<longrightarrow> state_at w (t + of_nat j) = FILE_OP_FREE"
      "m = n \<or> state_at w (t + of_nat m) \<noteq> FILE_OP_FREE"
      by blast
    have "retire_loop (t + of_nat n) w (t + of_nat k) = t + of_nat m"
      using m(3) True ne unfolding next_index by (subst retire_loop.simps) simp
    moreover have "\<forall>j. k \<le> j \<longrightarrow> j < m \<longrightarrow> state_at w (t + of_nat j) = FILE_OP_FREE"
      using m(4) True by (metis le_antisym not_less_eq_eq)
    ultimately show ?thesis
      using m(1,2,5) by (intro exI [of _ m]) simp
  qed
qed

lemma drop_dropWhile:
  assumes "m \<le> length xs" "\<forall>j < m. P (xs ! j)" "m = length xs \<or> \<not> P (xs ! m)"
  shows "drop m xs = dropWhile P xs"
proof -
  have "xs = take m xs @ drop m xs"
    by simp
  moreover have "\<forall>x \<in> set (take m xs). P x"
    using assms(1,2) by (auto simp: in_set_conv_nth)
  moreover have "drop m xs = [] \<or> \<not> P (hd (drop m xs))"
    using assms(1,3) by (auto simp: hd_drop_conv_nth)
  ultimately show ?thesis
    by (metis dropWhile_append2 dropWhile_eq_self_iff)
qed

lemma retire_ring:
  assumes ok: "ring_ok w" and n: "n \<le> ring_len w"
  shows "ring (retire (queue_tail w + of_nat n) w) = dropWhile free_op (take n (ring w)) @ drop n (ring w)"
    "ring_ok (retire (queue_tail w + of_nat n) w)"
proof -
  have n1024: "n \<le> 1024"
    using n ring_okD(2) [OF ok] by simp
  obtain m where m: "m \<le> n" "retire_loop (queue_tail w + of_nat n) w (queue_tail w + of_nat 0) = queue_tail w + of_nat m"
    "\<forall>j. 0 \<le> j \<longrightarrow> j < m \<longrightarrow> state_at w (queue_tail w + of_nat j) = FILE_OP_FREE"
    "m = n \<or> state_at w (queue_tail w + of_nat m) \<noteq> FILE_OP_FREE"
    using retire_loop_stops [of 0 n "queue_tail w" w] n1024 by auto
  have r: "retire (queue_tail w + of_nat n) w = w\<lparr>queue_tail := queue_tail w + of_nat m\<rparr>"
    using m(2) by (simp add: retire_def)
  have ml: "m \<le> ring_len w"
    using m(1) n by simp
  have "drop m (take n (ring w)) = dropWhile free_op (take n (ring w))"
    using m n by (intro drop_dropWhile) (auto simp: free_op_def state_at_def)
  moreover have "drop m (ring w) = drop m (take n (ring w)) @ drop n (ring w)"
    using drop_append [of m "take n (ring w)" "drop n (ring w)"] m(1) n by simp
  ultimately show "ring (retire (queue_tail w + of_nat n) w) = dropWhile free_op (take n (ring w)) @ drop n (ring w)"
    using drop_ring(1) [OF ok ml] m(3) unfolding r by simp
  show "ring_ok (retire (queue_tail w + of_nat n) w)"
    using drop_ring(2) [OF ok ml] m(3) unfolding r by simp
qed

lemma slots_rel_ring:
  assumes rel: "slots_rel R w w'" and ok: "ring_ok w" and j: "j < ring_len w"
  shows "R (slot_of (queue_tail w + of_nat j)) (ring w ! j) (ring w' ! j)" "ring_len w' = ring_len w"
proof -
  show len: "ring_len w' = ring_len w"
    using rel by (simp add: slots_rel_def ring_len_def)
  show "R (slot_of (queue_tail w + of_nat j)) (ring w ! j) (ring w' ! j)"
    using rel j len ring_okD(1) [OF ok] slot_of_less [of "queue_tail w + of_nat j"]
    by (simp add: slots_rel_def slot_at_def)
qed

section \<open>A pass\<close>

text \<open>The scan visits the first \<open>n\<close> operations and lets the others be poked only.\<close>

lemma scan_ring:
  assumes ok: "worker_ok w" and n: "n \<le> ring_len w" and head: "head = queue_tail w + of_nat n"
    and scan: "scan g env head (queue_tail w) False w wd = Some (busy, w1, wd')"
  shows "worker_ok w1" "ring_len w1 = ring_len w" "queue_tail w1 = queue_tail w"
    "j < n \<Longrightarrow> visited (ring w ! j) (ring w1 ! j)"
    "n \<le> j \<Longrightarrow> j < ring_len w \<Longrightarrow> poked (ring w ! j) (ring w1 ! j)"
proof -
  have rok: "ring_ok w"
    using ok by (simp add: worker_ok_def)
  have n2: "n \<le> 1024"
    using n ring_okD(2) [OF rok] by simp
  have start: "queue_tail w = queue_tail w + of_nat 0"
    by simp
  have s: "worker_ok w1" "slots_rel (\<lambda>s. if s \<in> window (queue_tail w) 0 n then visited else poked) w w1"
    using scan_slots [OF scan ok start head _ n2] by simp_all
  show "worker_ok w1" "ring_len w1 = ring_len w" "queue_tail w1 = queue_tail w"
    using s by (simp_all add: slots_rel_def ring_len_def)
  have member: "slot_of (queue_tail w + of_nat j) \<in> window (queue_tail w) 0 n \<longleftrightarrow> j < n" if "j < ring_len w" for j
  proof
    assume "slot_of (queue_tail w + of_nat j) \<in> window (queue_tail w) 0 n"
    then obtain k where k: "k < n" "slot_of (queue_tail w + of_nat j) = slot_of (queue_tail w + of_nat k)"
      by (auto simp: window_def)
    then have "j = k"
      using that n2 ring_okD(2) [OF rok] by (intro slot_of_inj [of j k "queue_tail w"]) simp_all
    then show "j < n"
      using k(1) by simp
  qed (auto simp: window_def)
  have at: "(if j < n then visited else poked) (ring w ! j) (ring w1 ! j)" if "j < ring_len w" for j
    using slots_rel_ring(1) [OF s(2) rok that] member [OF that] by simp
  show "visited (ring w ! j) (ring w1 ! j)" if "j < n"
    using at [of j] that n by simp
  show "poked (ring w ! j) (ring w1 ! j)" if "n \<le> j" "j < ring_len w"
    using at [of j] that by simp
qed

text \<open>If the tail has come as far as the pass went, everything the pass found is free.\<close>

lemma retire_all_free:
  assumes ok: "ring_ok w" and n: "n \<le> ring_len w" and j: "j < n"
    and tl: "queue_tail (retire (queue_tail w + of_nat n) w) = queue_tail w + of_nat n"
  shows "free_op (ring w ! j)"
proof -
  let ?w' = "retire (queue_tail w + of_nat n) w"
  have "ring_len ?w' = unat (queue_head w - (queue_tail w + of_nat n))"
    using tl by (simp add: ring_len_def retire_def)
  also have "queue_head w - (queue_tail w + of_nat n) = of_nat (ring_len w - n)"
    using n head_index [of w] by (simp add: of_nat_diff)
  also have "unat (of_nat (ring_len w - n) :: u32) = ring_len w - n"
    using ring_okD(2) [OF ok] by (intro unat_of_nat_u32) simp
  finally have "ring_len ?w' = ring_len w - n" .
  moreover have "ring_len ?w' = length (dropWhile free_op (take n (ring w))) + (ring_len w - n)"
    using arg_cong [OF retire_ring(1) [OF ok n], of length] by simp
  ultimately have "\<forall>q \<in> set (take n (ring w)). free_op q"
    by (simp add: dropWhile_eq_Nil_conv)
  moreover have "ring w ! j \<in> set (take n (ring w))"
    using j n by (metis length_take min.absorb2 nth_mem nth_take ring_simps(1))
  ultimately show ?thesis
    by blast
qed

lemma io_pass_result:
  assumes "worker_ok w" "n \<le> length (ring w)" "head = queue_tail w + of_nat n"
    and "io_pass g env pokes stop head w wd = Some (leave, w', wd')"
  shows "worker_ok w' \<and> (\<exists>qs. length qs = length (ring w) \<and>
    (\<forall>j < n. visited (ring w ! j) (qs ! j)) \<and>
    (\<forall>j. n \<le> j \<longrightarrow> j < length (ring w) \<longrightarrow> poked (ring w ! j) (qs ! j)) \<and>
    list_all2 poked (dropWhile free_op (take n qs) @ drop n qs) (ring w') \<and>
    (leave \<longrightarrow> stop \<and> (\<forall>j < n. free_op (qs ! j))))"
proof -
  have n: "n \<le> ring_len w"
    using assms(2) by simp
  obtain busy w1 where scan: "scan g env head (queue_tail w) False w wd = Some (busy, w1, wd')"
    and out: "leave \<longleftrightarrow> stop \<and> \<not> (busy \<or> queue_tail (retire head w1) \<noteq> head)"
      "w' = (if busy \<or> queue_tail (retire head w1) \<noteq> head
             then worker_poke (lba_size g) pokes (retire head w1) else retire head w1)"
    using assms(4) unfolding io_pass_def Let_def by (auto split: option.splits if_splits)
  note s = scan_ring [OF assms(1) n assms(3) scan]
  have ok1: "ring_ok w1"
    using s(1) by (simp add: worker_ok_def)
  have head1: "head = queue_tail w1 + of_nat n" and n1: "n \<le> ring_len w1"
    using assms(3) n s(2,3) by simp_all
  note ret = retire_ring [OF ok1 n1, folded head1]
  have okr: "worker_ok (retire head w1)"
    using s(1) ret(2) by (simp add: worker_ok_def retire_def)
  have w': "slots_rel (\<lambda>_. poked) (retire head w1) w'"
    using poke_slots by (auto simp: out(2) slots_rel_def)
  have ok': "worker_ok w'"
    using w' by (intro worker_ok_slots [OF _ okr]) (auto simp: slots_rel_def intro: poked_stays)
  have "ring_len w' = ring_len (retire head w1)"
    using w' by (simp add: slots_rel_def ring_len_def)
  then have "list_all2 poked (ring (retire head w1)) (ring w')"
    using slots_rel_ring(1) [OF w' ret(2)] by (intro list_all2_all_nthI) simp_all
  moreover have "\<forall>j < n. free_op (ring w1 ! j)" if leave
    using retire_all_free [OF ok1 n1] that out(1) head1 by simp
  ultimately show ?thesis
    using ok' s ret(1) out(1) by (intro conjI exI [of _ "ring w1"]) simp_all
qed

section \<open>The length of the table of streams\<close>

lemma upd_stream_length [simp]: "length (streams (upd_stream i f wd)) = length (streams wd)"
  by (simp add: upd_stream_def)

lemma dispatch_streams:
  "dispatch_pending g pw env op wd = Some (q', wd') \<Longrightarrow> length (streams wd') = length (streams wd)"
  by (auto simp: dispatch_pending_def dispatch_write_def dispatch_read_def Let_def release_gate_def store_cell_def
      async_future_complete_def split: if_splits option.splits prod.splits file_op_mode.splits)

lemma reap_streams:
  "reap_in_flight copy op wd = (op', wd') \<Longrightarrow> length (streams wd') = length (streams wd)"
  by (auto simp: reap_in_flight_def complete_read_op_def Let_def release_gate_def store_cell_def
      async_future_complete_def split: if_splits prod.splits file_op_mode.splits)

lemma visit_streams: "visit g env i w wd = Some (b, w', wd') \<Longrightarrow> length (streams wd') = length (streams wd)"
  by (erule visit_cases) (simp_all add: dispatch_streams reap_streams)

lemma scan_streams: "scan g env head i busy w wd = Some (b, w', wd') \<Longrightarrow> length (streams wd') = length (streams wd)"
proof (induction g env head i busy w wd rule: scan.induct)
  case (1 g env head i busy w wd)
  show ?case
  proof (cases "i = head")
    case True
    then show ?thesis
      using "1.prems" by (simp add: scan.simps)
  next
    case False
    then obtain b1 w1 wd1 where v: "visit g (env i) i w wd = Some (b1, w1, wd1)" "scan g env head (i + 1) (busy \<or> b1) w1 wd1 = Some (b, w', wd')"
      using "1.prems" by (auto simp: scan.simps [of g env head i] split: option.splits)
    then show ?thesis
      using "1.IH" [OF False v(1) refl refl v(2)] visit_streams [OF v(1)] by simp
  qed
qed

lemma io_pass_streams: "io_pass g env pokes stop head w wd = Some (leave, w', wd') \<Longrightarrow> length (streams wd') = length (streams wd)"
  by (auto simp: io_pass_def Let_def dest: scan_streams split: option.splits if_splits)

section \<open>Properties\<close>

text \<open>
  C12: submission into a worker's ring. When \<open>claim_slot_locked\<close> finds room, the slot it hands out is
  free, filling and publishing it appends exactly the new pending operation to the worker's queue and
  changes no other operation, and the ring stays well formed: at most 1024 operations, in 1024
  different slots, through every wrap-around of the 32-bit indices. A full ring, 1024 operations, is
  exactly the case in which there is no room.
\<close>

theorem submit_appends:
  assumes "ring_ok w"
  shows "(\<not> has_room w \<longleftrightarrow> length (ring w) = 1024) \<and>
    (has_room w \<longrightarrow>
       free_op (slot_at w (queue_head w)) \<and>
       ring (publish_slot (fill_slot m wr h buf w)) =
         ring w @ [upd_op (pending_op m wr h buf) (slot_at w (queue_head w))] \<and>
       ring_ok (publish_slot (fill_slot m wr h buf w)))"
  using submit_ring [OF assms] ring_okD(2) [OF assms]
  by (auto simp: has_room_len free_op_def)


section \<open>Examples\<close>

text \<open>A worker whose indices are about to wrap around, with one asynchronous write to carry out.\<close>

definition demo_slot :: "file_op_state \<Rightarrow> qop" where
  "demo_slot st = \<lparr>q_op = \<lparr>op_mode = FILE_OP_ASYNC \<lparr>req_size = 100, req_file_offset = 0, req_buf_offset = 0, future = 7\<rparr>,
       is_write = True, op_state = st, op_file = \<lparr>fd = 3, oflags = 0\<rparr>, buf_base = 4096,
       chunks_remaining = 0, bounces_outstanding = 0, bytes_acc = 0, op_err = OPENDS_SUCCESS,
       bounces = replicate 2 \<lparr>slot_dst = 0, slot_src = 0, slot_nbytes = 0\<rparr>, n_bounces = 0, op_bounce_buf = 0\<rparr>,
     q_stream = \<lparr>gate = 0, next_seq = 0, stream_bounce_buf = 0, bounce_desc = \<lparr>desc_dst = 0, desc_src = 0, desc_n_bytes = 0\<rparr>\<rparr>,
     q_inflight = [], q_log = []\<rparr>"

definition demo_worker :: io_worker where
  "demo_worker = \<lparr>file_op_queue = replicate 1023 (demo_slot FILE_OP_FREE) @ [demo_slot FILE_OP_PENDING],
     queue_head = 0, queue_tail = - 1\<rparr>"

definition demo_visit :: visit_env where
  "demo_visit = \<lparr>v_read = \<lparr>re_alloc = 0, re_extents = (\<lambda>_. Inr []), re_attempts = []\<rparr>,
     v_copy = (\<lambda>_ _ _ m. (0, m)), v_write = (\<lambda>_ _. 100), v_others = []\<rparr>"

definition idle_world :: io_world where
  "idle_world = \<lparr>cells = (\<lambda>_. 0), futures = (\<lambda>_. \<lparr>fut_done = False, fut_result = 0\<rparr>), streams = [], mem = (\<lambda>_. 0)\<rparr>"

definition worker_geo :: nvme_geo where
  "worker_geo = \<lparr>lba_size = 512, lba_shift = 9, mdts_nbytes = 4096, assume_aligned_only = False\<rparr>"

lemma demo_worker_ok: "worker_ok demo_worker" "length (ring demo_worker) = 1" "ring_ok demo_worker"
proof -
  have len: "ring_len demo_worker = 1"
    by (simp add: ring_len_def demo_worker_def)
  then show "length (ring demo_worker) = 1"
    by simp
  have slot: "slot_of (- 1) = 1023"
    by (simp add: slot_of_mod unsigned_minus_1_eq_mask mask_eq_exp_minus_1)
  have "state_at demo_worker (- 1 + of_nat j) = FILE_OP_FREE" if "1 \<le> j" "j < 1024" for j
  proof -
    have "slot_of (- 1 + of_nat j) = j - 1"
      unfolding slot_of_add slot using that by (simp add: mod_if)
    then show ?thesis
      using that by (simp add: state_at_def slot_at_def demo_worker_def demo_slot_def nth_append)
  qed
  then show ok: "ring_ok demo_worker"
    using len by (simp add: ring_ok_def queue_size) (simp add: demo_worker_def)
  then show "worker_ok demo_worker"
    by (auto simp: worker_ok_def demo_worker_def op_shape_def demo_slot_def BOUNCE_SLOTS_def)
qed

lemma demo_pass:
  "\<exists>w' wd'. io_pass worker_geo (\<lambda>_. demo_visit) [] True 0 demo_worker idle_world = Some (True, w', wd')"
proof -
  have slot: "slot_of (- 1) = 1023"
    by (simp add: slot_of_mod unsigned_minus_1_eq_mask mask_eq_exp_minus_1)
  show ?thesis
    by (simp add: io_pass_def scan.simps visit_def slot_at_def set_slot_def slot retire_def retire_loop.simps
        state_at_def demo_worker_def demo_slot_def dispatch_pending_def dispatch_write_def demo_visit_def
        nth_append worker_poke_def Let_def)
qed

theorem submit_appends_witness:
  "has_room demo_worker \<and>
   (\<forall>m wr h buf. ring (publish_slot (fill_slot m wr h buf demo_worker)) =
     ring demo_worker @ [upd_op (pending_op m wr h buf) (slot_at demo_worker 0)])"
proof -
  have "has_room demo_worker" "queue_head demo_worker = 0"
    by (simp_all add: has_room_def demo_worker_def FILE_OP_QUEUE_SIZE_def)
  then show ?thesis
    using submit_appends [OF demo_worker_ok(3)] by simp
qed


end
