(* ===== verification/Config.thy ===== *)
theory Config
  imports Aisio_Types
begin

unbundle bit_operations_syntax

text \<open>
  The configuration of the aisio backend: \<open>env_int\<close>, \<open>read_env_config\<close> and \<open>mask_nth_cpu\<close> of
  src/opends_aisio.c. The environment is a partial function on names. \<open>strtol\<close> and \<open>strtoull\<close> are those
  of C17 with a 64-bit \<open>long\<close>, which saturate, and return the part of the string after the number. The
  messages on stderr are not modelled.
\<close>

type_synonym environ = "string \<Rightarrow> string option"

section \<open>Numbers in strings\<close>

definition is_space :: "char \<Rightarrow> bool" where
  "is_space c = (of_char c = (32 :: nat) \<or> 9 \<le> (of_char c :: nat) \<and> of_char c \<le> (13 :: nat))"

definition digit_in :: "nat \<Rightarrow> char \<Rightarrow> nat option" where
  "digit_in base c =
     (let n = of_char c :: nat;
          v = (if 48 \<le> n \<and> n \<le> 57 then Some (n - 48)
               else if 65 \<le> n \<and> n \<le> 90 then Some (n - 55)
               else if 97 \<le> n \<and> n \<le> 122 then Some (n - 87) else None)
      in case v of None \<Rightarrow> None | Some d \<Rightarrow> if d < base then Some d else None)"

abbreviation is_digit :: "nat \<Rightarrow> char \<Rightarrow> bool" where
  "is_digit base c \<equiv> digit_in base c \<noteq> None"

definition digits_value :: "nat \<Rightarrow> string \<Rightarrow> nat" where
  "digits_value base ds = foldl (\<lambda>n c. n * base + the (digit_in base c)) 0 ds"

fun take_sign :: "string \<Rightarrow> bool \<times> string" where
  "take_sign [] = (False, [])"
| "take_sign (c # cs) = (if c = CHR ''-'' then (True, cs) else if c = CHR ''+'' then (False, cs) else (False, c # cs))"

definition clamp :: "int \<Rightarrow> int" where
  "clamp n = (if n < - (2 ^ 63) then - (2 ^ 63) else if n > 2 ^ 63 - 1 then 2 ^ 63 - 1 else n)"

definition strtol10 :: "string \<Rightarrow> int \<times> string" where
  "strtol10 s =
     (case take_sign (dropWhile is_space s) of (neg, body) \<Rightarrow>
        let ds = takeWhile (is_digit 10) body; n = int (digits_value 10 ds)
        in if ds = [] then (0, s) else (clamp (if neg then - n else n), dropWhile (is_digit 10) body))"

definition strtoull_body :: "string \<Rightarrow> nat \<times> string" where
  "strtoull_body s =
     (case s of
        z # x # d # _ \<Rightarrow>
          if z = CHR ''0'' \<and> (x = CHR ''x'' \<or> x = CHR ''X'') \<and> is_digit 16 d then (16, drop 2 s)
          else if z = CHR ''0'' then (8, s) else (10, s)
      | z # _ \<Rightarrow> if z = CHR ''0'' then (8, s) else (10, s)
      | [] \<Rightarrow> (10, s))"

definition strtoull0 :: "string \<Rightarrow> u64" where
  "strtoull0 s =
     (case take_sign (dropWhile is_space s) of (neg, s1) \<Rightarrow>
      case strtoull_body s1 of (base, body) \<Rightarrow>
        let n = digits_value base (takeWhile (is_digit base) body)
        in if n \<ge> 2 ^ 64 then - 1 else if neg then - of_nat n else of_nat n)"

section \<open>Configuration\<close>

datatype env_error = ENV_NOT_A_NUMBER | ENV_OUT_OF_RANGE | ENV_NO_HOST_FUNC | ENV_NO_GATE_OPS

text \<open>All four of them are \<open>-EINVAL\<close>, and differ in the message.\<close>

definition env_int :: "environ \<Rightarrow> string \<Rightarrow> int \<Rightarrow> int \<Rightarrow> int \<Rightarrow> env_error + int" where
  "env_int env name def lo hi =
     (case env name of
        None \<Rightarrow> Inr def
      | Some v \<Rightarrow>
          if v = [] then Inr def
          else case strtol10 v of (n, rest) \<Rightarrow>
                 if rest = v \<or> rest \<noteq> [] then Inl ENV_NOT_A_NUMBER
                 else if n < lo \<or> n > hi then Inl ENV_OUT_OF_RANGE
                 else Inr n)"

definition DEFAULT_IO_THREADS :: int where "DEFAULT_IO_THREADS = 2"
definition MAX_IO_THREADS :: int where "MAX_IO_THREADS = 15"
definition DEFAULT_QUEUE_DEPTH :: int where "DEFAULT_QUEUE_DEPTH = 8"
definition MAX_QUEUE_DEPTH :: int where "MAX_QUEUE_DEPTH = 4096"
definition DEFAULT_IDLE_SPIN_US :: int where "DEFAULT_IDLE_SPIN_US = 200"
definition MAX_IDLE_SPIN_US :: int where "MAX_IDLE_SPIN_US = 1000000"

record driver_config =
  n_io_threads :: int
  queue_depth :: u32
  idle_spin_us :: u32
  busy_spin :: bool
  cpu_mask :: u64
  cfg_aligned_only :: bool

text \<open>Which of the optional operations of \<open>struct ds_accel_ops\<close> the vendor provides.\<close>

record accel_caps =
  has_launch_host_func :: bool
  has_stream_write_value32 :: bool
  has_stream_wait_value32_geq :: bool

definition env_spin :: "environ \<Rightarrow> bool \<times> (env_error + int)" where
  "env_spin env =
     (let busy = (env ''OPENDS_AISIO_IDLE_SPIN'' = Some ''busy'')
      in (busy, if busy then Inr DEFAULT_IDLE_SPIN_US
                else env_int env ''OPENDS_AISIO_IDLE_SPIN'' DEFAULT_IDLE_SPIN_US 0 MAX_IDLE_SPIN_US))"

definition env_mask :: "environ \<Rightarrow> u64" where
  "env_mask env = (case env ''OPENDS_AISIO_CPU_MASK'' of None \<Rightarrow> 0 | Some m \<Rightarrow> if m = [] then 0 else strtoull0 m)"

definition env_aligned :: "environ \<Rightarrow> bool" where
  "env_aligned env =
     (case env ''OPENDS_AISIO_ASSUME_ALIGNED_ONLY'' of None \<Rightarrow> False | Some a \<Rightarrow> a \<noteq> [] \<and> hd a \<noteq> CHR ''0'')"

definition read_env_config :: "environ \<Rightarrow> accel_caps \<Rightarrow> env_error + driver_config" where
  "read_env_config env caps =
     (case env_int env ''OPENDS_AISIO_IO_THREADS'' DEFAULT_IO_THREADS 1 MAX_IO_THREADS of
        Inl e \<Rightarrow> Inl e
      | Inr threads \<Rightarrow>
     (case env_int env ''OPENDS_AISIO_QUEUE_DEPTH'' DEFAULT_QUEUE_DEPTH 1 MAX_QUEUE_DEPTH of
        Inl e \<Rightarrow> Inl e
      | Inr depth \<Rightarrow>
     (case env_spin env of
        (busy, Inl e) \<Rightarrow> Inl e
      | (busy, Inr us) \<Rightarrow>
          let aligned = env_aligned env
          in if aligned \<and> \<not> has_launch_host_func caps then Inl ENV_NO_HOST_FUNC
             else if \<not> aligned \<and> (\<not> has_stream_write_value32 caps \<or> \<not> has_stream_wait_value32_geq caps)
             then Inl ENV_NO_GATE_OPS
             else Inr \<lparr>n_io_threads = threads, queue_depth = of_int depth, idle_spin_us = of_int us,
                       busy_spin = busy, cpu_mask = env_mask env, cfg_aligned_only = aligned\<rparr>)))"

section \<open>Processor masks\<close>

fun mask_scan :: "u64 \<Rightarrow> int \<Rightarrow> nat list \<Rightarrow> int" where
  "mask_scan m n [] = -1"
| "mask_scan m n (cpu # cpus) =
     (if drop_bit cpu m AND 1 \<noteq> 0 then if n = 0 then int cpu else mask_scan m (n - 1) cpus
      else mask_scan m n cpus)"

definition mask_nth_cpu :: "u64 \<Rightarrow> int \<Rightarrow> int" where
  "mask_nth_cpu m n = mask_scan m n [0..<64]"

text \<open>\<open>__builtin_popcountll\<close>, and the affinity that \<open>workers_setup\<close> gives the thread of worker \<open>i\<close>.\<close>

definition popcount64 :: "u64 \<Rightarrow> nat" where
  "popcount64 m = length (filter (\<lambda>cpu. bit m cpu) [0..<64])"

definition worker_cpu :: "u64 \<Rightarrow> nat \<Rightarrow> int option" where
  "worker_cpu m i =
     (if popcount64 m \<noteq> 0 then Some (mask_nth_cpu m (int (i mod popcount64 m))) else None)"

section \<open>Lemmas\<close>

lemma mask_scan_nth:
  "0 \<le> n \<Longrightarrow> mask_scan m n cpus =
     (let set_cpus = filter (bit m) cpus in if nat n < length set_cpus then int (set_cpus ! nat n) else -1)"
proof (induction m n cpus rule: mask_scan.induct)
  case (2 m n cpu cpus)
  have b: "drop_bit cpu m AND 1 \<noteq> 0 \<longleftrightarrow> bit m cpu"
    by (simp add: and_one_eq bit_iff_odd_drop_bit odd_iff_mod_2_eq_one)
  show ?case
    using 2 by (cases "n = 0") (auto simp: b Let_def nth_Cons' nat_diff_distrib)
qed simp

lemma popcount_zero_iff: "popcount64 m = 0 \<longleftrightarrow> m = 0"
proof
  assume "popcount64 m = 0"
  then have "\<not> bit m n" if "n < 64" for n
    using that by (auto simp: popcount64_def filter_empty_conv)
  then show "m = 0"
    by (intro bit_word_eqI) auto
qed (simp add: popcount64_def)

lemma takeWhile_all: "(\<forall>c \<in> set xs. P c) \<Longrightarrow> (ys = [] \<or> \<not> P (hd ys)) \<Longrightarrow> takeWhile P (xs @ ys) = xs \<and> dropWhile P (xs @ ys) = ys"
  by (induction xs) (cases ys; auto)+

lemma sign_not_space: "\<not> is_space CHR ''-''" "\<not> is_space CHR ''+''"
  by (simp_all add: is_space_def)

lemma digit_not_space: "is_digit 10 c \<Longrightarrow> \<not> is_space c"
  by (auto simp: is_space_def digit_in_def Let_def split: if_splits)

lemma digit_not_sign: "is_digit 10 c \<Longrightarrow> c \<noteq> CHR ''-'' \<and> c \<noteq> CHR ''+''"
  by (auto simp: digit_in_def Let_def split: if_splits)

text \<open>The strings that are a number: \<open>strtol\<close> takes them to their end.\<close>

definition number_text :: "string \<Rightarrow> int \<Rightarrow> bool" where
  "number_text v n \<longleftrightarrow> (\<exists>ws sg ds. v = ws @ sg @ ds \<and> (\<forall>c \<in> set ws. is_space c) \<and> sg \<in> {[], ''-'', ''+''} \<and>
     ds \<noteq> [] \<and> (\<forall>c \<in> set ds. is_digit 10 c) \<and>
     n = (if sg = ''-'' then - int (digits_value 10 ds) else int (digits_value 10 ds)))"

lemma take_sign_split:
  "take_sign s = (neg, body) \<Longrightarrow> \<exists>t. s = t @ body \<and> t \<in> {[], ''-'', ''+''} \<and> (neg \<longleftrightarrow> t = ''-'')"
proof (induction s rule: take_sign.induct)
  case (2 c cs)
  show ?case
    using 2 by (cases "c = CHR ''-''"; cases "c = CHR ''+''")
      (auto intro: exI [of _ "''-''"] exI [of _ "''+''"] exI [of _ "[]"])
qed simp

lemma strtol10_number: "strtol10 v = (k, []) \<and> v \<noteq> [] \<longleftrightarrow> (\<exists>n. number_text v n \<and> k = clamp n)"
proof
  assume run: "strtol10 v = (k, []) \<and> v \<noteq> []"
  obtain neg body where sg: "take_sign (dropWhile is_space v) = (neg, body)"
    by fastforce
  define ds where "ds = takeWhile (is_digit 10) body"
  define n where "n = (if neg then - int (digits_value 10 ds) else int (digits_value 10 ds))"
  have body: "ds \<noteq> []" "k = clamp n" "dropWhile (is_digit 10) body = []"
    using run sg unfolding strtol10_def ds_def n_def Let_def by (auto split: if_splits)
  then have "body = ds"
    unfolding ds_def by (metis append_Nil2 takeWhile_dropWhile_id)
  moreover have "\<forall>c \<in> set ds. is_digit 10 c"
    unfolding ds_def using set_takeWhileD by fastforce
  moreover have "\<forall>c \<in> set (takeWhile is_space v). is_space c"
    using set_takeWhileD by fastforce
  moreover obtain t where t: "dropWhile is_space v = t @ body" "t \<in> {[], ''-'', ''+''}" "neg \<longleftrightarrow> t = ''-''"
    using take_sign_split [OF sg] by blast
  moreover have "v = takeWhile is_space v @ t @ body"
    using takeWhile_dropWhile_id [of is_space v] t(1) by simp
  ultimately have "v = takeWhile is_space v @ t @ ds \<and> (\<forall>c \<in> set (takeWhile is_space v). is_space c) \<and>
      t \<in> {[], ''-'', ''+''} \<and> ds \<noteq> [] \<and> (\<forall>c \<in> set ds. is_digit 10 c) \<and>
      n = (if t = ''-'' then - int (digits_value 10 ds) else int (digits_value 10 ds))"
    using body(1) unfolding n_def by simp
  then have "number_text v n"
    unfolding number_text_def by blast
  then show "\<exists>n. number_text v n \<and> k = clamp n"
    using body(2) by blast
next
  assume "\<exists>n. number_text v n \<and> k = clamp n"
  then obtain ws sg ds where v: "v = ws @ sg @ ds" "\<forall>c \<in> set ws. is_space c" "sg \<in> {[], ''-'', ''+''}"
    "ds \<noteq> []" "\<forall>c \<in> set ds. is_digit 10 c"
    "k = clamp (if sg = ''-'' then - int (digits_value 10 ds) else int (digits_value 10 ds))"
    unfolding number_text_def by blast
  have hd: "is_digit 10 (hd ds)"
    using v(4,5) by simp
  have "\<not> is_space (hd (sg @ ds))"
    using v(3,4) hd sign_not_space digit_not_space by (auto simp: hd_append)
  then have skip: "dropWhile is_space v = sg @ ds"
    using takeWhile_all [OF v(2), of "sg @ ds"] v(1) by simp
  have sign: "take_sign (sg @ ds) = (sg = ''-'', ds)"
    using v(3,4) hd digit_not_sign [of "hd ds"] by (cases ds) auto
  have all: "takeWhile (is_digit 10) ds = ds" "dropWhile (is_digit 10) ds = []"
    using v(5) by (simp_all add: takeWhile_eq_all_conv dropWhile_eq_Nil_conv)
  have "strtol10 v = (k, [])"
    unfolding strtol10_def skip sign prod.case Let_def all v(6) using v(4) by (simp only: if_False)
  then show "strtol10 v = (k, []) \<and> v \<noteq> []"
    using v(1,4) by simp
qed

lemma clamp_range: "- (2 ^ 63) < lo \<Longrightarrow> hi < 2 ^ 63 - 1 \<Longrightarrow> lo \<le> clamp n \<and> clamp n \<le> hi \<longleftrightarrow> lo \<le> n \<and> n \<le> hi"
  "- (2 ^ 63) < lo \<Longrightarrow> hi < 2 ^ 63 - 1 \<Longrightarrow> lo \<le> n \<and> n \<le> hi \<Longrightarrow> clamp n = n"
  by (auto simp: clamp_def)

lemma env_int_result:
  assumes v: "env name = Some v" "v \<noteq> []" and b: "- (2 ^ 63) < lo" "hi < 2 ^ 63 - 1"
  shows "env_int env name def lo hi = Inr n \<longleftrightarrow> number_text v n \<and> lo \<le> n \<and> n \<le> hi"
    "env_int env name def lo hi = Inl ENV_NOT_A_NUMBER \<longleftrightarrow> (\<nexists>n. number_text v n)"
proof -
  obtain k rest where run: "strtol10 v = (k, rest)"
    by fastforce
  have res: "env_int env name def lo hi =
      (if rest \<noteq> [] then Inl ENV_NOT_A_NUMBER else if lo \<le> k \<and> k \<le> hi then Inr k else Inl ENV_OUT_OF_RANGE)"
    using v run by (auto simp: env_int_def)
  have num: "rest = [] \<and> k = j \<longleftrightarrow> (\<exists>n. number_text v n \<and> j = clamp n)" for j
    using strtol10_number [of v j] run v(2) by auto
  show "env_int env name def lo hi = Inr n \<longleftrightarrow> number_text v n \<and> lo \<le> n \<and> n \<le> hi"
  proof
    assume "env_int env name def lo hi = Inr n"
    then have "rest = []" "k = n" "lo \<le> n \<and> n \<le> hi"
      by (simp_all add: res split: if_splits)
    then obtain m where m: "number_text v m" "n = clamp m"
      using num [of n] by auto
    then have "clamp m = m"
      using \<open>lo \<le> n \<and> n \<le> hi\<close> clamp_range [OF b, of m] by simp
    then show "number_text v n \<and> lo \<le> n \<and> n \<le> hi"
      using m \<open>lo \<le> n \<and> n \<le> hi\<close> by simp
  next
    assume n: "number_text v n \<and> lo \<le> n \<and> n \<le> hi"
    then have "clamp n = n"
      using clamp_range(2) [OF b] by simp
    then show "env_int env name def lo hi = Inr n"
      using num [of n] n by (auto simp: res)
  qed
  show "env_int env name def lo hi = Inl ENV_NOT_A_NUMBER \<longleftrightarrow> (\<nexists>n. number_text v n)"
    using num by (auto simp: res)
qed

lemma env_int_range: "env_int env name def lo hi = Inr n \<Longrightarrow> lo \<le> def \<Longrightarrow> def \<le> hi \<Longrightarrow> lo \<le> n \<and> n \<le> hi"
  by (auto simp: env_int_def split: option.splits prod.splits if_splits)

lemma unat_of_small_int: "0 \<le> n \<Longrightarrow> n < 2 ^ 32 \<Longrightarrow> unat (of_int n :: u32) = nat n"
  by (simp add: unsigned_of_int take_bit_int_eq_self)

section \<open>Properties\<close>

text \<open>
  C37: a setting of the environment that is present is accepted exactly when it is the text of a number in
  the allowed range, with leading space and a sign if it has them and nothing after its digits, and
  then it is that number, however long the text; it is refused as not a number exactly when it is
  no such text.
\<close>

theorem env_int_accepts:
  assumes "env name = Some v" "v \<noteq> []" "- (2 ^ 63) < lo" "hi < 2 ^ 63 - 1"
  shows "(env_int env name def lo hi = Inr n \<longleftrightarrow> number_text v n \<and> lo \<le> n \<and> n \<le> hi) \<and>
    (env_int env name def lo hi = Inl ENV_NOT_A_NUMBER \<longleftrightarrow> (\<nexists>n. number_text v n))"
  using env_int_result [where ?env = env and ?name = name, OF assms] by blast

lemma config_bounds:
  assumes "read_env_config env caps = Inr c"
  shows "1 \<le> n_io_threads c \<and> n_io_threads c \<le> 15 \<and> 1 \<le> unat (queue_depth c) \<and> unat (queue_depth c) \<le> 4096 \<and>
    unat (idle_spin_us c) \<le> 1000000 \<and>
    (if cfg_aligned_only c then has_launch_host_func caps
     else has_stream_write_value32 caps \<and> has_stream_wait_value32_geq caps)"
proof -
  obtain t q us where
    t: "env_int env ''OPENDS_AISIO_IO_THREADS'' DEFAULT_IO_THREADS 1 MAX_IO_THREADS = Inr t"
    and q: "env_int env ''OPENDS_AISIO_QUEUE_DEPTH'' DEFAULT_QUEUE_DEPTH 1 MAX_QUEUE_DEPTH = Inr q"
    and us: "snd (env_spin env) = Inr us"
    and c: "n_io_threads c = t" "queue_depth c = of_int q" "idle_spin_us c = of_int us"
      "if cfg_aligned_only c then has_launch_host_func caps
       else has_stream_write_value32 caps \<and> has_stream_wait_value32_geq caps"
    using assms by (auto simp: read_env_config_def Let_def split: sum.splits prod.splits if_splits)
  have "0 \<le> us \<and> us \<le> MAX_IDLE_SPIN_US"
    using us env_int_range [of env "''OPENDS_AISIO_IDLE_SPIN''" DEFAULT_IDLE_SPIN_US 0 MAX_IDLE_SPIN_US us]
    by (auto simp: env_spin_def Let_def DEFAULT_IDLE_SPIN_US_def MAX_IDLE_SPIN_US_def split: if_splits)
  then show ?thesis
    using env_int_range [OF t] env_int_range [OF q] c unat_of_small_int [of q] unat_of_small_int [of us]
    by (simp add: DEFAULT_IO_THREADS_def MAX_IO_THREADS_def DEFAULT_QUEUE_DEPTH_def MAX_QUEUE_DEPTH_def
        MAX_IDLE_SPIN_US_def nat_le_iff del: of_int_eq_numeral_iff) linarith
qed

text \<open>
  C38: a configuration that \<open>read_env_config\<close> returns is usable: between 1 and 15 workers, so that routing
  never divides by zero, queues of 1 to 4096 entries, at most a second of spinning, and the vendor
  provides the operations that the chosen gate mechanism calls.
\<close>

theorem read_env_config_bounds:
  assumes "read_env_config env caps = Inr c"
  shows "1 \<le> n_io_threads c \<and> n_io_threads c \<le> 15 \<and> 1 \<le> unat (queue_depth c) \<and> unat (queue_depth c) \<le> 4096 \<and>
    unat (idle_spin_us c) \<le> 1000000 \<and>
    (if cfg_aligned_only c then has_launch_host_func caps
     else has_stream_write_value32 caps \<and> has_stream_wait_value32_geq caps)"
  by (rule config_bounds [OF assms])

text \<open>
  With an affinity mask every worker is pinned to a processor of the mask, in turn: workers share a
  processor exactly when their numbers agree modulo the size of the mask, and as many workers as
  the mask has processors use them all. Without a mask no worker is pinned.
\<close>

theorem workers_spread:
  shows "if m = 0 then worker_cpu m i = None
    else (\<exists>c. worker_cpu m i = Some (int c) \<and> c < 64 \<and> bit m c) \<and>
      (worker_cpu m i = worker_cpu m j \<longleftrightarrow> i mod popcount64 m = j mod popcount64 m) \<and>
      {c. bit m c} = {c. \<exists>k. k < popcount64 m \<and> worker_cpu m k = Some (int c)}"
proof (cases "m = 0")
  case False
  define cs where "cs = filter (bit m) [0..<64]"
  have p: "popcount64 m = length cs" "length cs > 0"
    using False popcount_zero_iff [of m] by (auto simp: popcount64_def cs_def)
  have cpu: "worker_cpu m k = Some (int (cs ! (k mod length cs)))" for k
    using p by (simp add: worker_cpu_def mask_nth_cpu_def mask_scan_nth Let_def flip: cs_def)
  have mod: "k mod length cs < length cs" for k
    using p(2) by simp
  have set: "set cs = {c. bit m c}"
    using bit_imp_le_length [of m] by (auto simp: cs_def)
  have "cs ! (i mod length cs) < 64 \<and> bit m (cs ! (i mod length cs))"
    using nth_mem [OF mod, of i] by (simp add: cs_def)
  moreover have "worker_cpu m i = worker_cpu m j \<longleftrightarrow> i mod length cs = j mod length cs"
    using nth_eq_iff_index_eq [of cs "i mod length cs" "j mod length cs"] mod by (simp add: cpu cs_def)
  moreover have "{c. bit m c} = {c. \<exists>k. k < length cs \<and> worker_cpu m k = Some (int c)}"
    unfolding set [symmetric] by (auto simp: cpu in_set_conv_nth) (metis mod_less)
  ultimately show ?thesis
    using False p(1) cpu by simp
qed (simp add: worker_cpu_def popcount_zero_iff)

section \<open>Examples\<close>

lemma demo_number: "number_text '' +0012'' 12"
  unfolding number_text_def
  by (intro exI [of _ "'' ''"] exI [of _ "''+''"] exI [of _ "''0012''"])
    (simp add: is_space_def digit_in_def digits_value_def)

theorem env_int_accepts_witness:
  "env_int [''X'' \<mapsto> '' +0012''] ''X'' 2 1 15 = Inr 12"
  using env_int_accepts [of "[''X'' \<mapsto> '' +0012'']" "''X''" "'' +0012''" 1 15 2 12] demo_number by simp

definition demo_env :: environ where
  "demo_env = [''OPENDS_AISIO_IO_THREADS'' \<mapsto> ''4'', ''OPENDS_AISIO_IDLE_SPIN'' \<mapsto> ''busy'']"

definition demo_caps :: accel_caps where
  "demo_caps = \<lparr>has_launch_host_func = False, has_stream_write_value32 = True, has_stream_wait_value32_geq = True\<rparr>"

definition demo_config :: driver_config where
  "demo_config = \<lparr>n_io_threads = 4, queue_depth = 8, idle_spin_us = 200, busy_spin = True, cpu_mask = 0, cfg_aligned_only = False\<rparr>"

lemma demo_config_read: "read_env_config demo_env demo_caps = Inr demo_config"
  by (simp add: read_env_config_def demo_env_def demo_caps_def demo_config_def env_int_def strtol10_def is_space_def
      digit_in_def digits_value_def env_spin_def env_mask_def env_aligned_def clamp_def
      DEFAULT_IO_THREADS_def MAX_IO_THREADS_def DEFAULT_QUEUE_DEPTH_def MAX_QUEUE_DEPTH_def DEFAULT_IDLE_SPIN_US_def)

theorem read_env_config_bounds_witness:
  "read_env_config demo_env demo_caps = Inr demo_config \<and> n_io_threads demo_config \<le> 15"
  using read_env_config_bounds [OF demo_config_read] demo_config_read by blast

end
