(* ===== verification/Async_Contract.thy ===== *)
theory Async_Contract
  imports Op_Completion
begin

text \<open>
  What src/opends_batch_async.c and src/opends_sync_async.c rely on from a backend: the operations
  \<open>opends_async_read\<close>, \<open>opends_async_write\<close> and \<open>opends_async_await\<close>, with their contract, stated
  once as a locale. The aisio and the ref backend are interpretations of it.
\<close>

section \<open>Requests\<close>

text \<open>The arguments of a submission; a null file handle is \<open>None\<close>, a null buffer 0.\<close>

record async_request =
  r_write :: bool
  r_fh :: "registered_file option"
  r_buf :: ptr
  r_size :: u64
  r_file_offset :: u64
  r_buf_offset :: u64

type_synonym 's submit_fn = "('s \<Rightarrow> 's) list \<Rightarrow> async_request \<Rightarrow> ptr \<Rightarrow> 's \<Rightarrow> (opends_error \<times> 's) option"
type_synonym 's future_fn = "'s \<Rightarrow> ptr \<Rightarrow> opends_async_future"

definition zero_future :: opends_async_future where
  "zero_future = \<lparr>fut_done = False, fut_result = 0\<rparr>"

section \<open>Waiting\<close>

text \<open>
  Both backends wait in the same way. \<open>others\<close> is what the rest of the program does at each
  \<open>sched_yield\<close>; \<open>None\<close> means that the future is not done after the last of them.
\<close>

fun opends_async_await :: "'s future_fn \<Rightarrow> ('s \<Rightarrow> 's) list \<Rightarrow> ptr \<Rightarrow> 's \<Rightarrow> (u64 \<times> 's) option" where
  "opends_async_await fut others p s =
     (if p = 0 then Some (neg_err OPENDS_INVALID_VALUE, s)
      else if fut_done (fut s p) then Some (fut_result (fut s p), s)
      else case others of
             [] \<Rightarrow> None
           | f # fs \<Rightarrow> opends_async_await fut fs p (f s))"

declare opends_async_await.simps [simp del]

lemma await_steps:
  assumes "opends_async_await fut others p s = Some (x, s')" "\<forall>f \<in> set others. \<forall>s. R\<^sup>*\<^sup>* s (f s)"
  shows "R\<^sup>*\<^sup>* s s'"
  using assms
proof (induction others arbitrary: s)
  case Nil
  then show ?case
    by (auto simp: opends_async_await.simps split: if_splits)
next
  case (Cons f fs)
  then show ?case
    using rtranclp_trans [of R s "f s" s'] by (auto simp: opends_async_await.simps split: if_splits)
qed

section \<open>The contract\<close>

text \<open>
  How the rest of the program may change the futures in \<open>F\<close>: one that no operation will write keeps
  its value and is given to no operation; one that an operation will write stays so or is done.
\<close>

definition futures_kept :: "'s future_fn \<Rightarrow> ('s \<Rightarrow> ptr \<Rightarrow> bool) \<Rightarrow> ptr set \<Rightarrow> 's \<Rightarrow> 's \<Rightarrow> bool" where
  "futures_kept fut busy F s s' \<longleftrightarrow>
     (\<forall>p \<in> F. if busy s p then busy s' p \<or> fut_done (fut s' p)
              else \<not> busy s' p \<and> fut s' p = fut s p)"

lemma futures_kept_refl [simp]: "futures_kept fut busy F s s"
  by (simp add: futures_kept_def)

lemma futures_kept_trans:
  assumes "futures_kept fut busy F s s1" "futures_kept fut busy F s1 s2"
    and "\<forall>p. busy s1 p \<longrightarrow> \<not> fut_done (fut s1 p)"
  shows "futures_kept fut busy F s s2"
  using assms unfolding futures_kept_def by (smt (verit, best))

lemma futures_kept_mono: "futures_kept fut busy F s s' \<Longrightarrow> G \<subseteq> F \<Longrightarrow> futures_kept fut busy G s s'"
  unfolding futures_kept_def by blast

text \<open>
  \<open>busy s p\<close>: an accepted operation will write the future at \<open>p\<close>. \<open>prog F\<close>: a step of the backend or
  of other callers, who do not use the futures in \<open>F\<close>. \<open>reset p\<close>: the caller clears its own future.
\<close>

locale async_service =
  fixes submit :: "'s submit_fn"
    and fut :: "'s future_fn"
    and reset :: "ptr \<Rightarrow> 's \<Rightarrow> 's"
    and busy :: "'s \<Rightarrow> ptr \<Rightarrow> bool"
    and ok :: "'s \<Rightarrow> bool"
    and prog :: "ptr set \<Rightarrow> 's \<Rightarrow> 's \<Rightarrow> bool"
  assumes busy_open: "ok s \<Longrightarrow> busy s p \<Longrightarrow> \<not> fut_done (fut s p)"
    and prog: "prog F s s' \<Longrightarrow> ok s \<Longrightarrow> ok s' \<and> futures_kept fut busy F s s'"
    and reset: "ok s \<Longrightarrow> \<not> busy s p \<Longrightarrow>
      ok (reset p s) \<and> fut (reset p s) = (fut s)(p := zero_future) \<and> busy (reset p s) = busy s"
    and submit: "submit others r p s = Some (e, s') \<Longrightarrow> ok s \<Longrightarrow> \<not> busy s p \<Longrightarrow> p \<in> F \<Longrightarrow>
      \<forall>f \<in> set others. \<forall>s. (prog F)\<^sup>*\<^sup>* s (f s) \<Longrightarrow>
      ok s' \<and> futures_kept fut busy (F - {p}) s s' \<and>
      (if err e = OPENDS_SUCCESS then busy s' p \<or> fut_done (fut s' p)
       else \<not> busy s' p \<and> fut s' p = fut s p)"
begin

definition rest_ok :: "ptr set \<Rightarrow> ('s \<Rightarrow> 's) list \<Rightarrow> bool" where
  "rest_ok F others \<longleftrightarrow> (\<forall>f \<in> set others. \<forall>s. (prog F)\<^sup>*\<^sup>* s (f s))"

lemma rest_ok_simps [simp]:
  "rest_ok F []" "rest_ok F (f # fs) \<longleftrightarrow> (\<forall>s. (prog F)\<^sup>*\<^sup>* s (f s)) \<and> rest_ok F fs"
  by (auto simp: rest_ok_def)

lemma progs: "(prog F)\<^sup>*\<^sup>* s s' \<Longrightarrow> ok s \<Longrightarrow> ok s' \<and> futures_kept fut busy F s s'"
proof (induction rule: rtranclp_induct)
  case (step s1 s2)
  then show ?case
    using prog [of F s1 s2] futures_kept_trans [of fut busy F s s1 s2] busy_open by auto
qed simp

lemma futs_kept_trans:
  "futures_kept fut busy F s s1 \<Longrightarrow> futures_kept fut busy F s1 s2 \<Longrightarrow> ok s1 \<Longrightarrow> futures_kept fut busy F s s2"
  by (rule futures_kept_trans) (auto dest: busy_open)

text \<open>A future that was busy or done and is waited for is done, and no longer busy, with its final result.\<close>

lemma await:
  assumes "opends_async_await fut others p s = Some (r, s')" "ok s" "rest_ok F others" "p \<noteq> 0"
  shows "ok s' \<and> futures_kept fut busy F s s' \<and> fut_done (fut s' p) \<and> \<not> busy s' p \<and> r = fut_result (fut s' p)"
  using assms
proof (induction others arbitrary: s)
  case Nil
  then show ?case
    using busy_open [of s p] by (auto simp: opends_async_await.simps split: if_splits)
next
  case (Cons f fs)
  show ?case
  proof (cases "fut_done (fut s p)")
    case True
    then show ?thesis
      using Cons.prems busy_open [of s p] by (auto simp: opends_async_await.simps)
  next
    case False
    have f: "ok (f s) \<and> futures_kept fut busy F s (f s)"
      using Cons.prems(2,3) progs [of F s "f s"] by simp
    have "opends_async_await fut fs p (f s) = Some (r, s')"
      using Cons.prems(1,4) False by (simp add: opends_async_await.simps)
    from Cons.IH [OF this] f Cons.prems(3,4) show ?thesis
      using futs_kept_trans [of F s "f s" s'] by auto
  qed
qed

lemma await_done:
  "p \<noteq> 0 \<Longrightarrow> fut_done (fut s p) \<Longrightarrow> opends_async_await fut others p s = Some (fut_result (fut s p), s)"
  by (simp add: opends_async_await.simps)

end

end
