(* ===== verification/Batch.thy ===== *)
theory Batch
  imports Async_Contract "HOL-Library.Multiset"
begin

text \<open>
  src/opends_batch_async.c: batches of operations on top of any backend that keeps the contract of
  theory Async_Contract. A batch's futures lie in its entries; an entry knows the address of its own.
  The backend's operations are arguments of the definitions.
\<close>

section \<open>Data\<close>

datatype opends_opcode = OPENDS_READ | OPENDS_WRITE

datatype opends_status =
    OPENDS_WAITING | OPENDS_PENDING | OPENDS_INVALID | OPENDS_CANCELED | OPENDS_COMPLETE
  | OPENDS_TIMEOUT | OPENDS_FAILED

record opends_io_params =
  p_cookie :: ptr
  p_opcode :: opends_opcode
  p_fh :: "registered_file option"
  p_dev_ptr_base :: ptr
  p_size :: u64
  p_file_offset :: u64
  p_dev_ptr_offset :: u64

record opends_io_events =
  ev_cookie :: ptr
  ev_status :: opends_status
  ev_ret :: u64

record batch_entry =
  e_future :: ptr
  e_cookie :: ptr
  e_failed :: bool
  e_canceled :: bool
  e_delivered :: bool

record async_batch =
  entries :: "batch_entry list"
  used :: u32
  inflight :: u32
  capacity :: u32

type_synonym timespec = "int \<times> int"

section \<open>Operations\<close>

definition entry_done :: "'s future_fn \<Rightarrow> batch_entry \<Rightarrow> 's \<Rightarrow> bool" where
  "entry_done fut e s \<longleftrightarrow> e_failed e \<or> fut_done (fut s (e_future e))"

definition zero_entry :: "ptr \<Rightarrow> batch_entry" where
  "zero_entry p = \<lparr>e_future = p, e_cookie = 0, e_failed = False, e_canceled = False, e_delivered = False\<rparr>"

text \<open>The index of the entry that \<open>entry_take\<close> returns a pointer to, with the batch after it.\<close>

definition entry_take :: "(ptr \<Rightarrow> 's \<Rightarrow> 's) \<Rightarrow> async_batch \<Rightarrow> 's \<Rightarrow> nat \<times> async_batch \<times> 's" where
  "entry_take reset b s =
     (case find (\<lambda>i. e_delivered (entries b ! i)) [0..<unat (used b)] of
        Some i \<Rightarrow>
          (let p = e_future (entries b ! i)
           in (i, b\<lparr>entries := (entries b)[i := zero_entry p]\<rparr>, reset p s))
      | None \<Rightarrow> (unat (used b), b\<lparr>used := used b + 1\<rparr>, s))"

text \<open>\<open>calloc\<close> of the entries, with the addresses of their futures, or a failure of one of the two.\<close>

definition opends_batch_setup :: "bool \<Rightarrow> bool \<Rightarrow> ptr list option \<Rightarrow> u32 \<Rightarrow> opends_error \<times> async_batch option" where
  "opends_batch_setup idp calloc_ok futs nr =
     (if \<not> idp \<or> nr = 0 then (opends_err OPENDS_INVALID_VALUE, None)
      else if \<not> calloc_ok then (opends_err OPENDS_INTERNAL_ERROR, None)
      else case futs of
             None \<Rightarrow> (opends_err OPENDS_INTERNAL_ERROR, None)
           | Some ps \<Rightarrow> (opends_ok, Some \<lparr>entries = map zero_entry ps, used = 0, inflight = 0, capacity = nr\<rparr>))"

definition request_of :: "opends_io_params \<Rightarrow> async_request" where
  "request_of p = \<lparr>r_write = (p_opcode p \<noteq> OPENDS_READ), r_fh = p_fh p, r_buf = p_dev_ptr_base p,
     r_size = p_size p, r_file_offset = p_file_offset p, r_buf_offset = p_dev_ptr_offset p\<rparr>"

definition upd_entry :: "nat \<Rightarrow> (batch_entry \<Rightarrow> batch_entry) \<Rightarrow> async_batch \<Rightarrow> async_batch" where
  "upd_entry i f b = b\<lparr>entries := (entries b)[i := f (entries b ! i)]\<rparr>"

definition submit_one ::
  "'s submit_fn \<Rightarrow> (ptr \<Rightarrow> 's \<Rightarrow> 's) \<Rightarrow> opends_io_params \<times> ('s \<Rightarrow> 's) list \<Rightarrow> async_batch \<times> 's
    \<Rightarrow> (async_batch \<times> 's) option" where
  "submit_one submit reset x bs =
     (case x of (p, others) \<Rightarrow> (case bs of (b, s) \<Rightarrow>
      (case entry_take reset b s of (i, b1, s1) \<Rightarrow>
        let b2 = upd_entry i (\<lambda>e. e\<lparr>e_cookie := p_cookie p\<rparr>) b1
        in (case submit others (request_of p) (e_future (entries b2 ! i)) s1 of
             None \<Rightarrow> None
           | Some (r, s2) \<Rightarrow>
               let b3 = (if err r \<noteq> OPENDS_SUCCESS then upd_entry i (\<lambda>e. e\<lparr>e_failed := True\<rparr>) b2 else b2)
               in Some (b3\<lparr>inflight := inflight b3 + 1\<rparr>, s2)))))"

fun submit_all ::
  "'s submit_fn \<Rightarrow> (ptr \<Rightarrow> 's \<Rightarrow> 's) \<Rightarrow> (opends_io_params \<times> ('s \<Rightarrow> 's) list) list \<Rightarrow> async_batch \<times> 's
    \<Rightarrow> (async_batch \<times> 's) option" where
  "submit_all submit reset [] bs = Some bs"
| "submit_all submit reset (x # xs) bs =
     (case submit_one submit reset x bs of None \<Rightarrow> None | Some bs' \<Rightarrow> submit_all submit reset xs bs')"

text \<open>The array of parameters, with what the rest of the program does while each is submitted.\<close>

definition opends_batch_submit ::
  "'s submit_fn \<Rightarrow> (ptr \<Rightarrow> 's \<Rightarrow> 's) \<Rightarrow> u32 \<Rightarrow> (opends_io_params \<times> ('s \<Rightarrow> 's) list) list option \<Rightarrow>
    async_batch option \<times> 's \<Rightarrow> (opends_error \<times> async_batch option \<times> 's) option" where
  "opends_batch_submit submit reset nr iocbp bs =
     (case (fst bs, iocbp) of
        (Some b, Some ps) \<Rightarrow>
          if nr > capacity b - inflight b then Some (opends_err OPENDS_BATCH_FULL, bs)
          else (case submit_all submit reset (take (unat nr) ps) (b, snd bs) of
                  None \<Rightarrow> None
                | Some (b', s') \<Rightarrow> Some (opends_ok, Some b', s'))
      | _ \<Rightarrow> Some (opends_err OPENDS_INVALID_VALUE, bs))"

definition count_ready :: "'s future_fn \<Rightarrow> async_batch \<Rightarrow> 's \<Rightarrow> u32" where
  "count_ready fut b s =
     fold (\<lambda>i n. if \<not> e_delivered (entries b ! i) \<and> entry_done fut (entries b ! i) s then n + 1 else n)
       [0..<unat (used b)] 0"

definition batch_deadline :: "timespec \<Rightarrow> timespec \<Rightarrow> timespec" where
  "batch_deadline now timeout =
     (let sec = fst now + fst timeout; nsec = snd now + snd timeout
      in if nsec \<ge> 1000000000 then (sec + 1, nsec - 1000000000) else (sec, nsec))"

definition expired :: "timespec option \<Rightarrow> timespec \<Rightarrow> bool" where
  "expired deadline now \<longleftrightarrow>
     (case deadline of
        None \<Rightarrow> False
      | Some d \<Rightarrow> fst now > fst d \<or> fst now = fst d \<and> snd now \<ge> snd d)"

text \<open>
  The waiting loop: each turn reads the clock and yields. \<open>None\<close>: it is still waiting after the last
  turn listed.
\<close>

fun wait_ready ::
  "'s future_fn \<Rightarrow> async_batch \<Rightarrow> u32 \<Rightarrow> timespec option \<Rightarrow> (timespec \<times> ('s \<Rightarrow> 's)) list \<Rightarrow> 's \<Rightarrow> 's option" where
  "wait_ready fut b min_nr deadline turns s =
     (if \<not> count_ready fut b s < min_nr then Some s
      else case turns of
             [] \<Rightarrow> None
           | (now, f) # ts \<Rightarrow> if expired deadline now then Some s else wait_ready fut b min_nr deadline ts (f s))"

declare wait_ready.simps [simp del]

definition event_of :: "'s future_fn \<Rightarrow> batch_entry \<Rightarrow> 's \<Rightarrow> opends_io_events" where
  "event_of fut e s =
     (let r = fut_result (fut s (e_future e))
      in if e_canceled e then \<lparr>ev_cookie = e_cookie e, ev_status = OPENDS_CANCELED, ev_ret = 0\<rparr>
         else if e_failed e then \<lparr>ev_cookie = e_cookie e, ev_status = OPENDS_FAILED, ev_ret = 0\<rparr>
         else if sint r < 0 then \<lparr>ev_cookie = e_cookie e, ev_status = OPENDS_FAILED, ev_ret = 0\<rparr>
         else \<lparr>ev_cookie = e_cookie e, ev_status = OPENDS_COMPLETE, ev_ret = r\<rparr>)"

text \<open>
  The loop that delivers, with the events it has stored so far; \<open>late i\<close> is what the rest of the
  program does before entry \<open>i\<close> is looked at. The await on a done future returns at once.
\<close>

fun collect ::
  "'s future_fn \<Rightarrow> (nat \<Rightarrow> 's \<Rightarrow> 's) \<Rightarrow> nat \<Rightarrow> nat list \<Rightarrow> async_batch \<Rightarrow> 's \<Rightarrow> opends_io_events list
    \<Rightarrow> opends_io_events list \<times> async_batch \<times> 's" where
  "collect fut late nr [] b s out = (out, b, s)"
| "collect fut late nr (i # is) b s out =
     (if \<not> length out < nr then (out, b, s)
      else let s1 = late i s; e = entries b ! i
           in if e_delivered e \<or> \<not> entry_done fut e s1 then collect fut late nr is b s1 out
              else let b1 = upd_entry i (\<lambda>e. e\<lparr>e_delivered := True\<rparr>) b
                   in collect fut late nr is (b1\<lparr>inflight := inflight b1 - 1\<rparr>) s1 (out @ [event_of fut e s1]))"

text \<open>\<open>now\<close> is the clock at the start; the result is the error, the events, whose number goes to \<open>*nr\<close>, and the batch.\<close>

definition opends_batch_get_status ::
  "'s future_fn \<Rightarrow> timespec \<Rightarrow> (timespec \<times> ('s \<Rightarrow> 's)) list \<Rightarrow> (nat \<Rightarrow> 's \<Rightarrow> 's) \<Rightarrow>
    u32 \<Rightarrow> u32 option \<Rightarrow> bool \<Rightarrow> timespec option \<Rightarrow> async_batch option \<times> 's \<Rightarrow>
    (opends_error \<times> opends_io_events list \<times> async_batch option \<times> 's) option" where
  "opends_batch_get_status fut now turns late min_nr nr iocbp timeout bs =
     (case (fst bs, nr, iocbp) of
        (Some b, Some n, True) \<Rightarrow>
          if min_nr > n \<or> min_nr > inflight b then Some (opends_err OPENDS_INVALID_VALUE, [], bs)
          else (case wait_ready fut b min_nr (map_option (batch_deadline now) timeout) turns (snd bs) of
                  None \<Rightarrow> None
                | Some s1 \<Rightarrow>
                    case collect fut late (unat n) [0..<unat (used b)] b s1 [] of
                      (out, b', s') \<Rightarrow> Some (opends_ok, out, Some b', s'))
      | _ \<Rightarrow> Some (opends_err OPENDS_INVALID_VALUE, [], bs))"

text \<open>\<open>others i\<close> is what the rest of the program does while entry \<open>i\<close> is awaited.\<close>

fun cancel_loop ::
  "'s future_fn \<Rightarrow> (nat \<Rightarrow> ('s \<Rightarrow> 's) list) \<Rightarrow> nat list \<Rightarrow> async_batch \<Rightarrow> 's \<Rightarrow> (async_batch \<times> 's) option" where
  "cancel_loop fut others [] b s = Some (b, s)"
| "cancel_loop fut others (i # is) b s =
     (let e = entries b ! i
      in if e_delivered e then cancel_loop fut others is b s
         else case (if \<not> e_failed e then opends_async_await fut (others i) (e_future e) s else Some (0, s)) of
                None \<Rightarrow> None
              | Some (_, s1) \<Rightarrow> cancel_loop fut others is (upd_entry i (\<lambda>e. e\<lparr>e_canceled := True\<rparr>) b) s1)"

definition opends_batch_cancel ::
  "'s future_fn \<Rightarrow> (nat \<Rightarrow> ('s \<Rightarrow> 's) list) \<Rightarrow> async_batch option \<times> 's \<Rightarrow> (opends_error \<times> async_batch option \<times> 's) option" where
  "opends_batch_cancel fut others bs =
     (case fst bs of
        None \<Rightarrow> Some (opends_err OPENDS_INVALID_VALUE, bs)
      | Some b \<Rightarrow>
          (case cancel_loop fut others [0..<unat (used b)] b (snd bs) of
            None \<Rightarrow> None
          | Some (b', s') \<Rightarrow> Some (opends_ok, Some b', s')))"

fun destroy_loop ::
  "'s future_fn \<Rightarrow> (nat \<Rightarrow> ('s \<Rightarrow> 's) list) \<Rightarrow> nat list \<Rightarrow> async_batch \<Rightarrow> 's \<Rightarrow> 's option" where
  "destroy_loop fut others [] b s = Some s"
| "destroy_loop fut others (i # is) b s =
     (let e = entries b ! i
      in case (if \<not> e_failed e then opends_async_await fut (others i) (e_future e) s else Some (0, s)) of
           None \<Rightarrow> None
         | Some (_, s1) \<Rightarrow> destroy_loop fut others is b s1)"

text \<open>The state in which the batch's memory is freed.\<close>

definition opends_batch_destroy ::
  "'s future_fn \<Rightarrow> (nat \<Rightarrow> ('s \<Rightarrow> 's) list) \<Rightarrow> async_batch option \<times> 's \<Rightarrow> 's option" where
  "opends_batch_destroy fut others bs =
     (case fst bs of
        None \<Rightarrow> Some (snd bs)
      | Some b \<Rightarrow> destroy_loop fut others [0..<unat (used b)] b (snd bs))"

end
