(* ===== verification/Io_Thread.thy ===== *)
theory Io_Thread
  imports Io_Worker Config Batch
begin

text \<open>
  The I/O thread of src/opends_aisio.c: \<open>io_thread_main\<close> as the passes of theory Io_Worker with the
  decision between them, to spin, to yield or to sleep. \<open>timespec\<close> is that of theory Batch. What
  everybody else does between two passes is an argument, as are the answers inside a pass, the stop
  flag it reads and the two readings of the clock after it. The accelerator context that the thread
  sets for itself at its start is not modelled.
\<close>

section \<open>The code\<close>

definition monotonic_ns :: "timespec \<Rightarrow> u64" where
  "monotonic_ns ts = (case ts of (sec, nsec) \<Rightarrow> of_int sec * 1000000000 + of_int nsec)"

record idle_state =
  spin_until_ns :: u64
  stay_hot :: bool

datatype pause = Cpu_Relax | Sched_Yield | Nanosleep int

definition idle_start :: idle_state where
  "idle_start = \<lparr>spin_until_ns = 0, stay_hot = True\<rparr>"

definition idle_spin_ns :: "driver_config \<Rightarrow> u64" where
  "idle_spin_ns c = ucast (idle_spin_us c) * 1000"

text \<open>The end of a pass that does not leave the loop; \<open>t1\<close> and \<open>t2\<close> are the readings of the clock.\<close>

definition idle_step :: "driver_config \<Rightarrow> bool \<Rightarrow> timespec \<times> timespec \<Rightarrow> idle_state \<Rightarrow> pause \<times> idle_state" where
  "idle_step c busy clock st =
     (let st1 = (if busy then st\<lparr>stay_hot := True\<rparr> else st)
      in if busy_spin c then (Cpu_Relax, st1)
         else if busy then (Sched_Yield, st1)
         else let st2 = (if stay_hot st1
                         then st1\<lparr>spin_until_ns := monotonic_ns (fst clock) + idle_spin_ns c, stay_hot := False\<rparr>
                         else st1)
              in if monotonic_ns (snd clock) < spin_until_ns st2 then (Sched_Yield, st2)
                 else (Nanosleep 100000, st2))"

text \<open>The variable \<open>busy\<close> at the end of a pass.\<close>

definition pass_busy :: "nvme_geo \<Rightarrow> (u32 \<Rightarrow> visit_env) \<Rightarrow> u32 \<Rightarrow> io_worker \<Rightarrow> io_world \<Rightarrow> bool" where
  "pass_busy g env head w wd =
     (case scan g env head (queue_tail w) False w wd of
        None \<Rightarrow> False
      | Some (busy, w1, wd1) \<Rightarrow> busy \<or> queue_tail (retire head w1) \<noteq> head)"

record thread_pass =
  tp_before :: "io_worker \<Rightarrow> io_world \<Rightarrow> io_worker \<times> io_world"
  tp_env :: "u32 \<Rightarrow> visit_env"
  tp_pokes :: "(u32 \<times> nat \<times> bool) list"
  tp_stop :: bool
  tp_clock :: "timespec \<times> timespec"

text \<open>Whether the thread has left its loop, what it did between its passes, and the state then.\<close>

fun io_thread_loop ::
  "nvme_geo \<Rightarrow> driver_config \<Rightarrow> thread_pass list \<Rightarrow> idle_state \<Rightarrow> io_worker \<Rightarrow> io_world \<Rightarrow>
    (bool \<times> pause list \<times> io_worker \<times> io_world) option" where
  "io_thread_loop g c [] st w0 wd0 = Some (False, [], w0, wd0)"
| "io_thread_loop g c (p # ps) st w0 wd0 =
     (case tp_before p w0 wd0 of (w, wd) \<Rightarrow>
      (case io_pass g (tp_env p) (tp_pokes p) (tp_stop p) (queue_head w) w wd of
        None \<Rightarrow> None
      | Some (leave, w', wd') \<Rightarrow>
          if leave then Some (True, [], w', wd')
          else (case idle_step c (pass_busy g (tp_env p) (queue_head w) w wd) (tp_clock p) st of
                  (z, st') \<Rightarrow> map_option (map_prod id (map_prod (Cons z) id)) (io_thread_loop g c ps st' w' wd'))))"

definition io_thread_main ::
  "nvme_geo \<Rightarrow> driver_config \<Rightarrow> thread_pass list \<Rightarrow> io_worker \<Rightarrow> io_world \<Rightarrow> (bool \<times> pause list \<times> io_worker \<times> io_world) option"
  where "io_thread_main g c ps w wd = io_thread_loop g c ps idle_start w wd"

section \<open>Leaving and sleeping\<close>

text \<open>What happens before a pass keeps the worker in order.\<close>

definition keeps_worker :: "thread_pass \<Rightarrow> bool" where
  "keeps_worker p \<longleftrightarrow> (\<forall>w wd. worker_ok w \<longrightarrow> worker_ok (fst (tp_before p w wd)))"

lemma io_pass_all:
  assumes "worker_ok w" "io_pass g env pokes stop (queue_head w) w wd = Some (leave, w', wd')"
  shows "worker_ok w' \<and> (leave \<longrightarrow> stop \<and> ring w' = [])"
proof -
  have "queue_head w = queue_tail w + of_nat (length (ring w))"
    using head_index [of w] by simp
  from io_pass_result [OF assms(1) order_refl this assms(2)] obtain qs where qs:
    "worker_ok w'" "length qs = length (ring w)"
    "list_all2 poked (dropWhile free_op (take (length (ring w)) qs) @ drop (length (ring w)) qs) (ring w')"
    "leave \<longrightarrow> stop \<and> (\<forall>j < length (ring w). free_op (qs ! j))"
    by blast
  show ?thesis
  proof (intro conjI impI)
    assume leave
    then have "dropWhile free_op qs = []"
      using qs(2,4) \<open>leave\<close> by (auto simp: dropWhile_eq_Nil_conv in_set_conv_nth)
    with qs(3) show "ring w' = []"
      using qs(2) by (simp only: take_all drop_all order_refl append_Nil2 list_all2_Nil)
  qed (use qs(1,4) in simp_all)
qed

text \<open>A sleep comes only after the spin time that began at an earlier pass, or before the run.\<close>

definition spun :: "driver_config \<Rightarrow> thread_pass list \<Rightarrow> nat \<Rightarrow> bool" where
  "spun c ps i \<longleftrightarrow>
     (\<exists>j \<le> i. monotonic_ns (fst (tp_clock (ps ! j))) + idle_spin_ns c \<le> monotonic_ns (snd (tp_clock (ps ! i))))"

lemma spun_Cons: "spun c ps i \<Longrightarrow> spun c (p # ps) (Suc i)"
  by (auto simp: spun_def intro: exI [of _ "Suc j" for j])

lemma idle_step_sleep:
  assumes "idle_step c busy clock st = (z, st')"
  shows "(z = Nanosleep n \<longrightarrow> \<not> busy_spin c \<and> (\<not> stay_hot st \<and> spin_until_ns st \<le> monotonic_ns (snd clock) \<or>
        monotonic_ns (fst clock) + idle_spin_ns c \<le> monotonic_ns (snd clock))) \<and>
    (stay_hot st' \<or> (\<not> stay_hot st \<and> spin_until_ns st' = spin_until_ns st) \<or>
      spin_until_ns st' = monotonic_ns (fst clock) + idle_spin_ns c)"
  using assms by (auto simp: idle_step_def Let_def not_less split: if_splits)

lemma loop_result:
  assumes "io_thread_loop g c ps st w wd = Some (left, zs, w', wd')" "worker_ok w" "\<forall>p \<in> set ps. keeps_worker p"
  shows "worker_ok w' \<and> (if left then length zs < length ps \<and> tp_stop (ps ! length zs) \<and> ring w' = [] else length zs = length ps) \<and>
    (\<forall>i < length zs. \<forall>n. zs ! i = Nanosleep n \<longrightarrow> \<not> busy_spin c \<and>
       (spun c ps i \<or> \<not> stay_hot st \<and> spin_until_ns st \<le> monotonic_ns (snd (tp_clock (ps ! i)))))"
  using assms
proof (induction ps arbitrary: st w wd zs)
  case (Cons p ps)
  obtain w1 wd1 where before: "tp_before p w wd = (w1, wd1)"
    by (metis prod.exhaust)
  have ok1: "worker_ok w1"
    using Cons.prems(2,3) before by (metis fst_conv keeps_worker_def list.set_intros(1))
  obtain leave w2 wd2 where pass: "io_pass g (tp_env p) (tp_pokes p) (tp_stop p) (queue_head w1) w1 wd1 = Some (leave, w2, wd2)"
    using Cons.prems(1) before by (auto split: option.splits)
  note ok2 = io_pass_all [OF ok1 pass]
  show ?case
  proof (cases leave)
    case True
    then show ?thesis
      using Cons.prems(1) before pass ok2 by auto
  next
    case False
    obtain z st' where idle: "idle_step c (pass_busy g (tp_env p) (queue_head w1) w1 wd1) (tp_clock p) st = (z, st')"
      by (metis prod.exhaust)
    obtain zs' where rest: "io_thread_loop g c ps st' w2 wd2 = Some (left, zs', w', wd')" and zs: "zs = z # zs'"
      using Cons.prems(1) before pass False idle by auto
    have IH: "worker_ok w'" "if left then length zs' < length ps \<and> tp_stop (ps ! length zs') \<and> ring w' = [] else length zs' = length ps"
      and sleep: "\<And>i n. i < length zs' \<Longrightarrow> zs' ! i = Nanosleep n \<Longrightarrow> \<not> busy_spin c \<and>
        (spun c ps i \<or> \<not> stay_hot st' \<and> spin_until_ns st' \<le> monotonic_ns (snd (tp_clock (ps ! i))))"
      using Cons.IH [OF rest] ok2 Cons.prems(3) by auto
    note step = idle_step_sleep [OF idle]
    have "\<not> busy_spin c \<and> (spun c (p # ps) i \<or> \<not> stay_hot st \<and> spin_until_ns st \<le> monotonic_ns (snd (tp_clock ((p # ps) ! i))))"
      if i: "i < length zs" "zs ! i = Nanosleep n" for i n
    proof (cases i)
      case 0
      then show ?thesis
        using i zs step [of n] by (auto simp: spun_def)
    next
      case (Suc k)
      then have "\<not> busy_spin c" and k: "spun c ps k \<or> \<not> stay_hot st' \<and> spin_until_ns st' \<le> monotonic_ns (snd (tp_clock (ps ! k)))"
        using sleep [of k n] i zs by auto
      from k step [of n] show ?thesis
        using Suc \<open>\<not> busy_spin c\<close> spun_Cons [of c ps k p] by (auto simp: spun_def)
    qed
    then show ?thesis
      using IH zs by auto
  qed
qed simp

section \<open>Properties\<close>


text \<open>The worker of theory Io_Worker, told to stop: its one write is carried out before the thread leaves.\<close>

definition demo_thread_pass :: thread_pass where
  "demo_thread_pass = \<lparr>tp_before = Pair, tp_env = (\<lambda>_. demo_visit), tp_pokes = [], tp_stop = True, tp_clock = ((0, 0), (0, 0))\<rparr>"

definition demo_thread_config :: driver_config where
  "demo_thread_config = \<lparr>n_io_threads = 1, queue_depth = 8, idle_spin_us = 200, busy_spin = False, cpu_mask = 0, cfg_aligned_only = False\<rparr>"


end
