(* ===== verification/Stream_Gate.thy ===== *)
theory Stream_Gate
  imports Op_Completion
begin

text \<open>
  The gate that orders stream operations against the caller's stream, from \<open>submit_stream_op\<close>,
  \<open>park_gate_cb\<close>, \<open>poll_stream_pending\<close> and \<open>release_gate\<close> of src/opends_aisio.c: one stream with the
  commands that are enqueued on it, its gate word and the I/O threads.

  The accelerator runs the commands of a stream one by one, in order. A wait command holds the stream
  until the signed 32-bit distance of the gate word from its value is not negative, which is also
  what \<open>park_gate_cb\<close> does on the host. Operations are numbered 1, 2, and so on by the submissions,
  the successful and the failed ones, on the stream; an operation's sequence number is that number
  modulo \<open>2 ^ 32\<close>, and all the code sees of it.
\<close>

datatype gpu_cmd =
    User_Work nat
  | Write_Value u32
  | Wait_Geq u32
  | Host_Park u32
  | Copy_Kernel

datatype event = Work nat | Start nat | Done nat | Copied nat

text \<open>
  What a caller submits: its own work, an operation, or an operation whose submission fails after the
  gate value has been enqueued.
\<close>

datatype item = It_User nat | It_Op nat bool bool | It_Skip nat

text \<open>
  The state: the gate word, the commands on the stream, the operations that are pending and running
  with whether they are reads, the operation whose completion filled the stream's descriptor last,
  and, for the specification only, the number of submissions, the number of the last operation whose
  gate value has been written, what was submitted and what happened, both in order.
\<close>

record gate_sys =
  gs_gate :: u32
  gs_cmds :: "gpu_cmd list"
  gs_pending :: "(nat \<times> bool) list"
  gs_running :: "(nat \<times> bool) list"
  gs_desc :: nat
  gs_count :: nat
  gs_cur :: nat
  gs_prog :: "item list"
  gs_trace :: "event list"

definition seq_of :: "nat \<Rightarrow> u32" where
  "seq_of n = of_nat n"

text \<open>
  The commands that \<open>submit_stream_op\<close> enqueues. \<open>host\<close> is \<open>assume_aligned_only\<close>: the gate is then the
  host callback; otherwise it is a write and a wait, and a read adds its copy.
\<close>

fun item_cmds :: "item \<Rightarrow> gpu_cmd list" where
  "item_cmds (It_User k) = [User_Work k]"
| "item_cmds (It_Op n host rd) =
     (if host then [Host_Park (seq_of n)]
      else [Write_Value (2 * seq_of n), Wait_Geq (2 * seq_of n + 1)] @ (if rd then [Copy_Kernel] else []))"
| "item_cmds (It_Skip n) = [Write_Value (2 * seq_of n)]"

definition geq_open :: "u32 \<Rightarrow> u32 \<Rightarrow> bool" where
  "geq_open gt v \<longleftrightarrow> \<not> sint (gt - v) < 0"

text \<open>
  Sequence numbers are compared cyclically, so no submission may run more than \<open>2 ^ 30\<close> ahead of the
  stream; 15 workers hold at most 1024 operations each.
\<close>

definition in_reach :: "gate_sys \<Rightarrow> bool" where
  "in_reach s \<longleftrightarrow> Suc (gs_count s) < gs_cur s + 2 ^ 30"

text \<open>The number of the operation with gate value \<open>v\<close>: the first one from \<open>cur\<close> on.\<close>

definition number_of_value :: "nat \<Rightarrow> u32 \<Rightarrow> nat" where
  "number_of_value cur v = cur + unat (v - 2 * seq_of cur) div 2"

inductive gate_step :: "gate_sys \<Rightarrow> gate_sys \<Rightarrow> bool" where
  user: "gate_step s (s\<lparr>gs_cmds := gs_cmds s @ item_cmds (It_User k), gs_prog := gs_prog s @ [It_User k]\<rparr>)"
| submit: "in_reach s \<Longrightarrow> n = Suc (gs_count s) \<Longrightarrow>
    gate_step s (s\<lparr>gs_count := n, gs_cmds := gs_cmds s @ item_cmds (It_Op n host rd),
      gs_pending := gs_pending s @ [(n, rd)], gs_prog := gs_prog s @ [It_Op n host rd]\<rparr>)"
| submit_fails: "in_reach s \<Longrightarrow> gate_step s (s\<lparr>gs_count := Suc (gs_count s)\<rparr>)"
| wait_fails: "in_reach s \<Longrightarrow> n = Suc (gs_count s) \<Longrightarrow>
    gate_step s (s\<lparr>gs_count := n, gs_cmds := gs_cmds s @ item_cmds (It_Skip n), gs_prog := gs_prog s @ [It_Skip n]\<rparr>)"
| gpu_work: "gs_cmds s = User_Work k # cs \<Longrightarrow>
    gate_step s (s\<lparr>gs_cmds := cs, gs_trace := gs_trace s @ [Work k]\<rparr>)"
| gpu_write: "gs_cmds s = Write_Value v # cs \<Longrightarrow>
    gate_step s (s\<lparr>gs_cmds := cs, gs_gate := v, gs_cur := number_of_value (gs_cur s) v\<rparr>)"
| gpu_park: "gs_cmds s = Host_Park sq # cs \<Longrightarrow>
    gate_step s (s\<lparr>gs_cmds := Wait_Geq (2 * sq + 1) # cs, gs_gate := 2 * sq,
      gs_cur := number_of_value (gs_cur s) (2 * sq)\<rparr>)"
| gpu_wait: "gs_cmds s = Wait_Geq v # cs \<Longrightarrow> geq_open (gs_gate s) v \<Longrightarrow>
    gate_step s (s\<lparr>gs_cmds := cs\<rparr>)"
| gpu_copy: "gs_cmds s = Copy_Kernel # cs \<Longrightarrow>
    gate_step s (s\<lparr>gs_cmds := cs, gs_trace := gs_trace s @ [Copied (gs_desc s)]\<rparr>)"
| io_start: "(n, rd) \<in> set (gs_pending s) \<Longrightarrow> \<not> gate_closed (gs_gate s) (seq_of n) \<Longrightarrow>
    gate_step s (s\<lparr>gs_pending := remove1 (n, rd) (gs_pending s), gs_running := (n, rd) # gs_running s,
      gs_trace := gs_trace s @ [Start n]\<rparr>)"
| io_done: "(n, rd) \<in> set (gs_running s) \<Longrightarrow>
    gate_step s (s\<lparr>gs_running := remove1 (n, rd) (gs_running s), gs_gate := 2 * seq_of n + 1,
      gs_desc := (if rd then n else gs_desc s), gs_trace := gs_trace s @ [Done n]\<rparr>)"

definition gate_init :: gate_sys where
  "gate_init = \<lparr>gs_gate = 0, gs_cmds = [], gs_pending = [], gs_running = [], gs_desc = 0, gs_count = 0,
     gs_cur = 0, gs_prog = [], gs_trace = []\<rparr>"

abbreviation gate_reachable :: "gate_sys \<Rightarrow> bool" where
  "gate_reachable s \<equiv> gate_step\<^sup>*\<^sup>* gate_init s"

section \<open>The specification\<close>

text \<open>What a program of a stream means: everything one after the other.\<close>

fun item_events :: "item \<Rightarrow> event list" where
  "item_events (It_User k) = [Work k]"
| "item_events (It_Op n host rd) = [Start n, Done n] @ (if \<not> host \<and> rd then [Copied n] else [])"
| "item_events (It_Skip n) = []"

definition stream_order :: "item list \<Rightarrow> event list" where
  "stream_order is = concat (map item_events is)"

section \<open>Distances on 32-bit words\<close>

lemma sint_small: "- (2 ^ 31) \<le> k \<Longrightarrow> k < 2 ^ 31 \<Longrightarrow> sint (of_int k :: u32) = k"
  by (simp add: signed_of_int signed_take_bit_int_eq_self)

lemma gate_distance:
  assumes "cur < n" "n < cur + 2 ^ 30" "b \<le> 1"
  shows "gate_closed (2 * seq_of cur + of_nat b) (seq_of n)"
proof -
  define k where "k = 2 * int cur + int b - 2 * int n"
  have "2 * seq_of cur + of_nat b - 2 * seq_of n = (of_int k :: u32)"
    by (simp add: seq_of_def k_def)
  moreover have "sint (of_int k :: u32) = k"
    using assms unfolding k_def by (intro sint_small) auto
  moreover have "k < 0"
    using assms by (simp add: k_def)
  ultimately show ?thesis
    by (simp only: gate_closed_def)
qed

lemma gate_own: "\<not> gate_closed (2 * seq_of n) (seq_of n)"
  by (simp add: gate_closed_def)

lemma wait_own: "\<not> geq_open (2 * seq_of n) (2 * seq_of n + 1)" "geq_open (2 * seq_of n + 1) (2 * seq_of n + 1)"
proof -
  have "2 * seq_of n - (2 * seq_of n + 1) = (of_int (-1) :: u32)"
    by simp
  moreover have "sint (of_int (-1) :: u32) = -1"
    by (rule sint_small) simp_all
  ultimately show "\<not> geq_open (2 * seq_of n) (2 * seq_of n + 1)"
    by (simp add: geq_open_def)
  show "geq_open (2 * seq_of n + 1) (2 * seq_of n + 1)"
    by (simp add: geq_open_def)
qed


lemma number_of_own:
  assumes "cur \<le> n" "n < cur + 2 ^ 30"
  shows "number_of_value cur (2 * seq_of n) = n"
proof -
  define k where "k = 2 * (n - cur)"
  have "2 * seq_of n - 2 * seq_of cur = (of_nat k :: u32)"
    using assms(1) by (simp add: seq_of_def k_def of_nat_diff algebra_simps)
  moreover have "unat (of_nat k :: u32) = 2 * (n - cur)"
    using assms by (simp add: k_def unsigned_of_nat take_bit_eq_mod del: of_nat_mult of_nat_diff)
  ultimately show ?thesis
    using assms(1) unfolding number_of_value_def by simp
qed

section \<open>The invariant\<close>

text \<open>Where the stream is: between items, or held by an operation that is pending, running or done.\<close>

datatype phase =
    Passing bool nat
  | Parked nat bool bool
  | Running nat bool bool
  | Released nat bool bool

fun phase_cmds :: "phase \<Rightarrow> gpu_cmd list" where
  "phase_cmds (Passing c n) = (if c then [Copy_Kernel] else [])"
| "phase_cmds (Parked n rd c) = Wait_Geq (2 * seq_of n + 1) # (if c then [Copy_Kernel] else [])"
| "phase_cmds (Running n rd c) = Wait_Geq (2 * seq_of n + 1) # (if c then [Copy_Kernel] else [])"
| "phase_cmds (Released n rd c) = Wait_Geq (2 * seq_of n + 1) # (if c then [Copy_Kernel] else [])"

fun phase_events :: "phase \<Rightarrow> event list" where
  "phase_events (Passing c n) = (if c then [Copied n] else [])"
| "phase_events (Parked n rd c) = [Start n, Done n] @ (if c then [Copied n] else [])"
| "phase_events (Running n rd c) = Done n # (if c then [Copied n] else [])"
| "phase_events (Released n rd c) = (if c then [Copied n] else [])"

fun phase_pending :: "phase \<Rightarrow> (nat \<times> bool) list" where
  "phase_pending (Parked n rd c) = [(n, rd)]"
| "phase_pending _ = []"

fun phase_running :: "phase \<Rightarrow> (nat \<times> bool) list" where
  "phase_running (Running n rd c) = [(n, rd)]"
| "phase_running _ = []"

text \<open>The gate word and the descriptor in each phase; \<open>cur\<close> is the last number written.\<close>

fun phase_ok :: "phase \<Rightarrow> u32 \<Rightarrow> nat \<Rightarrow> nat \<Rightarrow> bool" where
  "phase_ok (Passing c n) gt cur desc \<longleftrightarrow>
     (gt = 2 * seq_of cur \<or> gt = 2 * seq_of cur + 1) \<and> (c \<longrightarrow> desc = n)"
| "phase_ok (Parked n rd c) gt cur desc \<longleftrightarrow> gt = 2 * seq_of n \<and> cur = n \<and> (c \<longrightarrow> rd)"
| "phase_ok (Running n rd c) gt cur desc \<longleftrightarrow> gt = 2 * seq_of n \<and> cur = n \<and> (c \<longrightarrow> rd)"
| "phase_ok (Released n rd c) gt cur desc \<longleftrightarrow> gt = 2 * seq_of n + 1 \<and> cur = n \<and> (c \<longrightarrow> desc = n)"

fun item_pending :: "item \<Rightarrow> (nat \<times> bool) list" where
  "item_pending (It_Op n host rd) = [(n, rd)]"
| "item_pending _ = []"

fun item_number :: "item \<Rightarrow> nat list" where
  "item_number (It_User k) = []"
| "item_number (It_Op n host rd) = [n]"
| "item_number (It_Skip n) = [n]"

definition cmds_of :: "item list \<Rightarrow> gpu_cmd list" where
  "cmds_of is = concat (map item_cmds is)"

definition pending_of :: "item list \<Rightarrow> (nat \<times> bool) list" where
  "pending_of is = concat (map item_pending is)"

definition numbers_of :: "item list \<Rightarrow> nat list" where
  "numbers_of is = concat (map item_number is)"

lemma of_simps [simp]:
  "cmds_of [] = []" "cmds_of (i # is) = item_cmds i @ cmds_of is" "cmds_of (is @ js) = cmds_of is @ cmds_of js"
  "pending_of [] = []" "pending_of (i # is) = item_pending i @ pending_of is"
  "pending_of (is @ js) = pending_of is @ pending_of js"
  "numbers_of [] = []" "numbers_of (i # is) = item_number i @ numbers_of is"
  "numbers_of (is @ js) = numbers_of is @ numbers_of js"
  "stream_order [] = []" "stream_order (i # is) = item_events i @ stream_order is"
  "stream_order (is @ js) = stream_order is @ stream_order js"
  by (simp_all add: cmds_of_def pending_of_def numbers_of_def stream_order_def)

definition gate_holds :: "gate_sys \<Rightarrow> phase \<Rightarrow> item list \<Rightarrow> bool" where
  "gate_holds s ph is \<longleftrightarrow>
     gs_cmds s = phase_cmds ph @ cmds_of is \<and>
     gs_pending s = phase_pending ph @ pending_of is \<and>
     gs_running s = phase_running ph \<and>
     phase_ok ph (gs_gate s) (gs_cur s) (gs_desc s) \<and>
     sorted_wrt (<) (gs_cur s # numbers_of is) \<and>
     (\<forall>n \<in> set (gs_cur s # numbers_of is). n \<le> gs_count s) \<and>
     gs_count s < gs_cur s + 2 ^ 30 \<and>
     gs_trace s @ phase_events ph @ stream_order is = stream_order (gs_prog s)"

definition gate_inv :: "gate_sys \<Rightarrow> bool" where
  "gate_inv s \<longleftrightarrow> (\<exists>ph is. gate_holds s ph is)"

lemma pending_numbers: "(n, rd) \<in> set (pending_of is) \<Longrightarrow> n \<in> set (numbers_of is)"
proof (induction "is")
  case (Cons i "is")
  then show ?case
    by (cases i) auto
qed simp

text \<open>Only the operation that holds the stream finds its gate open.\<close>

lemma io_start_holder:
  assumes inv: "gate_holds s ph is" and mem: "(n, rd) \<in> set (gs_pending s)"
    and op: "\<not> gate_closed (gs_gate s) (seq_of n)"
  obtains c where "ph = Parked n rd c"
proof -
  have later: False if n: "n \<in> set (numbers_of is)"
  proof -
    have "gs_cur s < n" "n < gs_cur s + 2 ^ 30"
      using inv n by (auto simp: gate_holds_def)
    then have "gate_closed (2 * seq_of (gs_cur s)) (seq_of n)" "gate_closed (2 * seq_of (gs_cur s) + 1) (seq_of n)"
      using gate_distance [of "gs_cur s" n 0] gate_distance [of "gs_cur s" n 1] by simp_all
    moreover have "gs_gate s = 2 * seq_of (gs_cur s) \<or> gs_gate s = 2 * seq_of (gs_cur s) + 1"
      using inv by (cases ph) (auto simp: gate_holds_def)
    ultimately show False
      using op by auto
  qed
  have "(n, rd) \<in> set (phase_pending ph)"
    using inv mem later pending_numbers by (fastforce simp: gate_holds_def)
  then show thesis
    using that by (cases ph) auto
qed

lemma item_head_cases:
  assumes "cmds_of is = c # cs"
  obtains (user) k js where "is = It_User k # js" "c = User_Work k" "cs = cmds_of js"
    | (park) n rd js where "is = It_Op n True rd # js" "c = Host_Park (seq_of n)" "cs = cmds_of js"
    | (writes) n rd js where "is = It_Op n False rd # js" "c = Write_Value (2 * seq_of n)"
        "cs = Wait_Geq (2 * seq_of n + 1) # (if rd then [Copy_Kernel] else []) @ cmds_of js"
    | (skip) n js where "is = It_Skip n # js" "c = Write_Value (2 * seq_of n)" "cs = cmds_of js"
proof (cases "is")
  case Nil
  with assms show ?thesis by simp
next
  case (Cons i js)
  show ?thesis
  proof (cases i)
    case (It_User k)
    then show ?thesis
      using user assms Cons by auto
  next
    case (It_Op n host rd)
    then show ?thesis
      using park writes assms Cons by (cases host) auto
  next
    case (It_Skip n)
    then show ?thesis
      using skip assms Cons by auto
  qed
qed

lemma cmds_of_nonempty: "is \<noteq> [] \<Longrightarrow> cmds_of is \<noteq> []"
proof (cases "is")
  case (Cons i js)
  then show ?thesis
    by (cases i) auto
qed simp

lemma item_head_not [simp]:
  "cmds_of is \<noteq> Wait_Geq v # cs" "Wait_Geq v # cs \<noteq> cmds_of is"
  "cmds_of is \<noteq> Copy_Kernel # cs" "Copy_Kernel # cs \<noteq> cmds_of is"
proof -
  have "cmds_of is = c # cs \<Longrightarrow> c \<noteq> Wait_Geq v \<and> c \<noteq> Copy_Kernel" for c
    by (erule item_head_cases) auto
  then show "cmds_of is \<noteq> Wait_Geq v # cs" "Wait_Geq v # cs \<noteq> cmds_of is"
    "cmds_of is \<noteq> Copy_Kernel # cs" "Copy_Kernel # cs \<noteq> cmds_of is"
    by metis+
qed

lemma gate_init_inv: "gate_inv gate_init"
  unfolding gate_inv_def
  by (rule exI [of _ "Passing False 0"], rule exI [of _ "[]"]) (simp add: gate_holds_def gate_init_def seq_of_def)

lemma append_item:
  assumes inv: "gate_holds s ph is" and num: "item_number i \<noteq> [] \<Longrightarrow> item_number i = [Suc (gs_count s)] \<and> in_reach s"
    and s': "s' = s\<lparr>gs_count := gs_count s + length (item_number i), gs_cmds := gs_cmds s @ item_cmds i,
      gs_pending := gs_pending s @ item_pending i, gs_prog := gs_prog s @ [i]\<rparr>"
  shows "gate_holds s' ph (is @ [i])"
proof -
  have "gs_count s' < gs_cur s + 2 ^ 30"
    using inv num by (cases "item_number i") (auto simp: s' gate_holds_def in_reach_def)
  moreover have "sorted_wrt (<) (gs_cur s # numbers_of (is @ [i]))"
    using inv num by (cases "item_number i") (auto simp: gate_holds_def sorted_wrt_append less_Suc_eq_le)
  moreover have "\<forall>n \<in> set (gs_cur s # numbers_of (is @ [i])). n \<le> gs_count s'"
    using inv num by (cases "item_number i") (auto simp: gate_holds_def s' intro: le_SucI)
  ultimately show ?thesis
    using inv by (simp add: gate_holds_def s' flip: append_assoc)
qed

lemma gate_write_next:
  assumes inv: "gate_holds s ph (i # js)" and n: "item_number i = [n]"
  shows "number_of_value (gs_cur s) (2 * seq_of n) = n" "gs_cur s < n"
    "sorted_wrt (<) (n # numbers_of js)" "\<forall>m \<in> set (n # numbers_of js). m \<le> gs_count s"
    "gs_count s < n + 2 ^ 30"
proof -
  show lt: "gs_cur s < n"
    using inv n by (simp add: gate_holds_def)
  have "n < gs_cur s + 2 ^ 30"
    using inv n by (auto simp: gate_holds_def)
  then show "number_of_value (gs_cur s) (2 * seq_of n) = n"
    using lt by (intro number_of_own) simp_all
  show "sorted_wrt (<) (n # numbers_of js)" "\<forall>m \<in> set (n # numbers_of js). m \<le> gs_count s" "gs_count s < n + 2 ^ 30"
    using inv n lt by (auto simp: gate_holds_def)
qed

lemma gate_invI: "gate_holds s ph is \<Longrightarrow> gate_inv s"
  by (auto simp: gate_inv_def)

text \<open>The accelerator reaches the first command of an item only when it waits for nothing.\<close>

lemma item_passing:
  assumes inv: "gate_holds s ph is" and cmds: "gs_cmds s = c # cs" "c \<noteq> Copy_Kernel" "\<And>v. c \<noteq> Wait_Geq v"
  obtains m where "ph = Passing False m" "cmds_of is = c # cs"
  using assms that by (cases ph) (auto simp: gate_holds_def split: if_splits)

lemma gpu_work_inv:
  assumes inv: "gate_holds s ph is" and cmds: "gs_cmds s = User_Work k # cs"
  shows "gate_inv (s\<lparr>gs_cmds := cs, gs_trace := gs_trace s @ [Work k]\<rparr>)"
proof -
  obtain m where ph: "ph = Passing False m" and "cmds_of is = User_Work k # cs"
    by (rule item_passing [OF inv cmds]) simp_all
  from this(2) obtain js where "is = It_User k # js" "cs = cmds_of js"
    by (cases rule: item_head_cases) auto
  then have "gate_holds (s\<lparr>gs_cmds := cs, gs_trace := gs_trace s @ [Work k]\<rparr>) ph js"
    using inv by (simp add: gate_holds_def ph)
  then show ?thesis
    by (rule gate_invI)
qed

lemma gpu_write_inv:
  assumes inv: "gate_holds s ph is" and cmds: "gs_cmds s = Write_Value v # cs"
  shows "gate_inv (s\<lparr>gs_cmds := cs, gs_gate := v, gs_cur := number_of_value (gs_cur s) v\<rparr>)" (is "gate_inv ?s")
proof -
  obtain m where ph: "ph = Passing False m" and "cmds_of is = Write_Value v # cs"
    by (rule item_passing [OF inv cmds]) simp_all
  from this(2) show ?thesis
  proof (cases rule: item_head_cases)
    case (writes n rd js)
    then have "gate_holds ?s (Parked n rd rd) js"
      using inv gate_write_next [OF inv [unfolded writes(1)], of n] by (simp add: gate_holds_def ph)
    then show ?thesis
      by (rule gate_invI)
  next
    case (skip n js)
    then have "gate_holds ?s (Passing False n) js"
      using inv gate_write_next [OF inv [unfolded skip(1)], of n] by (simp add: gate_holds_def ph)
    then show ?thesis
      by (rule gate_invI)
  qed simp_all
qed

lemma gpu_park_inv:
  assumes inv: "gate_holds s ph is" and cmds: "gs_cmds s = Host_Park sq # cs"
  shows "gate_inv (s\<lparr>gs_cmds := Wait_Geq (2 * sq + 1) # cs, gs_gate := 2 * sq, gs_cur := number_of_value (gs_cur s) (2 * sq)\<rparr>)"
    (is "gate_inv ?s")
proof -
  obtain m where ph: "ph = Passing False m" and "cmds_of is = Host_Park sq # cs"
    by (rule item_passing [OF inv cmds]) simp_all
  from this(2) show ?thesis
  proof (cases rule: item_head_cases)
    case (park n rd js)
    then have "gate_holds ?s (Parked n rd False) js"
      using inv gate_write_next [OF inv [unfolded park(1)], of n] by (simp add: gate_holds_def ph)
    then show ?thesis
      by (rule gate_invI)
  qed simp_all
qed

lemma gpu_wait_inv:
  assumes inv: "gate_holds s ph is" and cmds: "gs_cmds s = Wait_Geq v # cs" and op: "geq_open (gs_gate s) v"
  shows "gate_inv (s\<lparr>gs_cmds := cs\<rparr>)"
proof -
  have "\<exists>n rd c. ph = Released n rd c \<and> cs = (if c then [Copy_Kernel] else []) @ cmds_of is"
  proof (cases ph)
    case (Passing c n)
    then have "c \<or> cmds_of is = Wait_Geq v # cs"
      using inv cmds by (cases c) (simp_all add: gate_holds_def)
    then show ?thesis
      using inv cmds Passing by (auto simp: gate_holds_def split: if_splits)
  qed (use inv cmds op wait_own in \<open>auto simp: gate_holds_def\<close>)
  then obtain n rd c where rel: "ph = Released n rd c" "cs = (if c then [Copy_Kernel] else []) @ cmds_of is"
    by blast
  then have "gate_holds (s\<lparr>gs_cmds := cs\<rparr>) (Passing c n) is"
    using inv by (auto simp: gate_holds_def)
  then show ?thesis
    by (rule gate_invI)
qed

lemma gpu_copy_inv:
  assumes inv: "gate_holds s ph is" and cmds: "gs_cmds s = Copy_Kernel # cs"
  shows "gate_inv (s\<lparr>gs_cmds := cs, gs_trace := gs_trace s @ [Copied (gs_desc s)]\<rparr>)" (is "gate_inv ?s")
proof -
  have "\<exists>n. ph = Passing True n \<and> cs = cmds_of is"
  proof (cases ph)
    case (Passing c n)
    then have "c \<or> cmds_of is = Copy_Kernel # cs"
      using inv cmds by (cases c) (simp_all add: gate_holds_def)
    then show ?thesis
      using inv cmds Passing by (auto simp: gate_holds_def split: if_splits)
  qed (use inv cmds in \<open>auto simp: gate_holds_def\<close>)
  then obtain n where p: "ph = Passing True n" "cs = cmds_of is"
    by blast
  then have "gate_holds ?s (Passing False n) is"
    using inv by (simp add: gate_holds_def)
  then show ?thesis
    by (rule gate_invI)
qed

lemma gate_step_inv:
  assumes "gate_step s s'" "gate_inv s"
  shows "gate_inv s'"
proof -
  obtain ph "is" where inv: "gate_holds s ph is"
    using assms(2) by (auto simp: gate_inv_def)
  note append = gate_invI [OF append_item [OF inv]]
  show ?thesis
    using assms(1)
  proof cases
    case (user k)
    then show ?thesis by (intro append [of "It_User k"]) simp_all
  next
    case (submit n host rd)
    then show ?thesis by (intro append [of "It_Op n host rd"]) simp_all
  next
    case (wait_fails n)
    then show ?thesis by (intro append [of "It_Skip n"]) simp_all
  next
    case submit_fails
    then show ?thesis
      using inv by (intro gate_invI [of _ ph "is"]) (auto simp: gate_holds_def in_reach_def intro: le_SucI)
  next
    case (io_start n rd)
    then obtain c where ph: "ph = Parked n rd c"
      using io_start_holder [OF inv] by blast
    then show ?thesis
      using inv io_start(1) by (intro gate_invI [of _ "Running n rd c" "is"]) (auto simp: gate_holds_def)
  next
    case (io_done n rd)
    then obtain c where ph: "ph = Running n rd c"
      using inv by (cases ph) (auto simp: gate_holds_def)
    then show ?thesis
      using inv io_done(1) by (intro gate_invI [of _ "Released n rd c" "is"]) (auto simp: gate_holds_def)
  qed (use inv gpu_work_inv gpu_write_inv gpu_park_inv gpu_wait_inv gpu_copy_inv in simp_all)
qed

lemma gate_reachable_inv: "gate_reachable s \<Longrightarrow> gate_inv s"
proof (induction rule: rtranclp_induct)
  case base
  then show ?case by (rule gate_init_inv)
next
  case (step s s')
  then show ?case using gate_step_inv by blast
qed

section \<open>Properties\<close>


section \<open>Every stream drains\<close>

text \<open>A step of the accelerator or of an I/O thread, that is one without a submission.\<close>

definition serve_step :: "gate_sys \<Rightarrow> gate_sys \<Rightarrow> bool" where
  "serve_step s s' \<longleftrightarrow> gate_step s s' \<and> gs_prog s' = gs_prog s \<and> gs_count s' = gs_count s"

text \<open>How many such steps are left at most: a parked gate becomes a wait, a pending operation runs, then ends.\<close>

fun cmd_left :: "gpu_cmd \<Rightarrow> nat" where
  "cmd_left (Host_Park sq) = 2"
| "cmd_left c = 1"

definition steps_left :: "gate_sys \<Rightarrow> nat" where
  "steps_left s = sum_list (map cmd_left (gs_cmds s)) + 2 * length (gs_pending s) + length (gs_running s)"

lemma length_remove1_less: "x \<in> set xs \<Longrightarrow> length (remove1 x xs) < length xs"
  by (induction xs) auto

lemma serve_step_left:
  assumes "serve_step s s'"
  shows "steps_left s' < steps_left s"
proof -
  have st: "gate_step s s'" and same: "gs_prog s' = gs_prog s" "gs_count s' = gs_count s"
    using assms by (simp_all add: serve_step_def)
  show ?thesis
    using st
  proof cases
    case (io_start n rd)
    then show ?thesis
      using length_remove1_less [OF io_start(2)] by (simp add: steps_left_def)
  next
    case (io_done n rd)
    then show ?thesis
      using length_remove1_less [OF io_done(2)] by (simp add: steps_left_def)
  qed (use same in \<open>auto simp: steps_left_def\<close>)
qed

lemma serve_steps_left: "(serve_step ^^ k) s s' \<Longrightarrow> k + steps_left s' \<le> steps_left s"
proof (induction k arbitrary: s')
  case (Suc k)
  then obtain t where "(serve_step ^^ k) s t" "serve_step t s'"
    by auto
  then show ?case
    using Suc.IH serve_step_left by fastforce
qed simp

lemma serves_to_rest: "\<exists>s'. serve_step\<^sup>*\<^sup>* s s' \<and> (\<nexists>t. serve_step s' t)"
proof (induction "steps_left s" arbitrary: s rule: less_induct)
  case less
  show ?case
  proof (cases "\<exists>t. serve_step s t")
    case True
    then obtain t where "serve_step s t"
      by blast
    then show ?thesis
      using less [OF serve_step_left] by (meson converse_rtranclp_into_rtranclp)
  qed blast
qed

definition at_rest :: "gate_sys \<Rightarrow> bool" where
  "at_rest s \<longleftrightarrow> gs_cmds s = [] \<and> gs_pending s = [] \<and> gs_running s = [] \<and> gs_trace s = stream_order (gs_prog s)"

lemma item_serves:
  assumes cmds: "gs_cmds s = cmds_of is" "is \<noteq> []"
  shows "\<exists>s'. serve_step s s'"
proof -
  obtain c cs where c: "cmds_of is = c # cs"
    using cmds_of_nonempty [OF cmds(2)] by (meson neq_Nil_conv)
  then show ?thesis
    unfolding serve_step_def
  proof (cases rule: item_head_cases)
    case (user k js)
    from gpu_work [of s k cs] c cmds(1) user show "\<exists>s'. gate_step s s' \<and> gs_prog s' = gs_prog s \<and> gs_count s' = gs_count s" by force
  next
    case (park n rd js)
    from gpu_park [of s "seq_of n" cs] c cmds(1) park show "\<exists>s'. gate_step s s' \<and> gs_prog s' = gs_prog s \<and> gs_count s' = gs_count s" by force
  next
    case (writes n rd js)
    from gpu_write [of s "2 * seq_of n" cs] c cmds(1) writes show "\<exists>s'. gate_step s s' \<and> gs_prog s' = gs_prog s \<and> gs_count s' = gs_count s" by force
  next
    case (skip n js)
    from gpu_write [of s "2 * seq_of n" cs] c cmds(1) skip show "\<exists>s'. gate_step s s' \<and> gs_prog s' = gs_prog s \<and> gs_count s' = gs_count s" by force
  qed
qed

text \<open>In every phase of the stream there is a step, until nothing is left.\<close>

lemma serves_or_rests:
  assumes inv: "gate_holds s ph is"
  shows "(\<exists>s'. serve_step s s') \<or> at_rest s"
proof (cases ph)
  case (Passing c n)
  show ?thesis
  proof (cases c)
    case True
    then have "gs_cmds s = Copy_Kernel # cmds_of is"
      using inv Passing by (simp add: gate_holds_def)
    from gpu_copy [OF this] show ?thesis
      by (force simp: serve_step_def)
  next
    case False
    then have "gs_cmds s = cmds_of is" "is = [] \<Longrightarrow> at_rest s"
      using inv Passing by (auto simp: gate_holds_def at_rest_def)
    then show ?thesis
      using item_serves by blast
  qed
next
  case (Parked n rd c)
  then have "(n, rd) \<in> set (gs_pending s)" "\<not> gate_closed (gs_gate s) (seq_of n)"
    using inv gate_own by (simp_all add: gate_holds_def)
  from io_start [OF this] show ?thesis
    by (force simp: serve_step_def)
next
  case (Running n rd c)
  then have "(n, rd) \<in> set (gs_running s)"
    using inv by (simp add: gate_holds_def)
  from io_done [OF this] show ?thesis
    by (force simp: serve_step_def)
next
  case (Released n rd c)
  then have "gs_cmds s = Wait_Geq (2 * seq_of n + 1) # (if c then [Copy_Kernel] else []) @ cmds_of is"
    "geq_open (gs_gate s) (2 * seq_of n + 1)"
    using inv wait_own by (simp_all add: gate_holds_def)
  from gpu_wait [OF this] show ?thesis
    by (force simp: serve_step_def)
qed

text \<open>
  The gate never deadlocks: as long as something submitted on the stream has not happened, the
  accelerator or an I/O thread can take a step without any further submission.
\<close>

theorem stream_never_stuck:
  assumes "gate_reachable s" "gs_trace s \<noteq> stream_order (gs_prog s)"
  shows "\<exists>s'. gate_step s s' \<and> gs_prog s' = gs_prog s \<and> gs_count s' = gs_count s"
  using gate_reachable_inv [OF assms(1)] serves_or_rests [of s] assms(2)
  by (auto simp: gate_inv_def serve_step_def at_rest_def)


section \<open>Examples\<close>

definition demo_sys :: gate_sys where
  "demo_sys = \<lparr>gs_gate = 0, gs_cmds = [User_Work 5, Write_Value 2, Wait_Geq 3, Copy_Kernel], gs_pending = [(1, True)],
     gs_running = [], gs_desc = 0, gs_count = 1, gs_cur = 0, gs_prog = [It_User 5, It_Op 1 False True], gs_trace = []\<rparr>"

lemma demo_sys_reachable: "gate_reachable demo_sys"
proof -
  define s1 where "s1 = gate_init\<lparr>gs_cmds := [User_Work 5], gs_prog := [It_User 5]\<rparr>"
  have "gate_step gate_init s1"
    using gate_step.user [of gate_init 5] by (simp add: s1_def gate_init_def)
  moreover have "gate_step s1 demo_sys"
    using gate_step.submit [of s1 1 False True]
    by (simp add: s1_def gate_init_def demo_sys_def in_reach_def seq_of_def)
  ultimately show ?thesis
    by (meson converse_rtranclp_into_rtranclp r_into_rtranclp)
qed


theorem stream_never_stuck_witness:
  "\<exists>s'. gate_step demo_sys s' \<and> gs_prog s' = gs_prog demo_sys \<and> gs_count s' = gs_count demo_sys"
  by (rule stream_never_stuck [OF demo_sys_reachable]) (simp add: demo_sys_def)


text \<open>
  The machine enqueues an operation's copy together with its gate. The code enqueues it after it has
  given up \<open>submit_lock\<close>, so with two threads that submit reads on the same stream the other thread's
  gate can come in between. \<open>late_copy\<close> is that schedule, with the copies of both reads at the end:
  the first read's descriptor is then overwritten before its copy runs. The second copy's bytes are
  copied twice, and the first read's tail never.
\<close>

definition late_copy :: gate_sys where
  "late_copy = gate_init\<lparr>gs_cmds := [Write_Value 2, Wait_Geq 3, Write_Value 4, Wait_Geq 5, Copy_Kernel, Copy_Kernel],
     gs_pending := [(1, True), (2, True)], gs_count := 2\<rparr>"

lemma late_copy_loses:
  "\<exists>s. gate_step\<^sup>*\<^sup>* late_copy s \<and> gs_cmds s = [] \<and>
     gs_trace s = [Start 1, Done 1, Start 2, Done 2, Copied 2, Copied 2]"
proof -
  define s1 where "s1 = late_copy\<lparr>gs_cmds := [Wait_Geq 3, Write_Value 4, Wait_Geq 5, Copy_Kernel, Copy_Kernel], gs_gate := 2, gs_cur := 1\<rparr>"
  define s2 where "s2 = s1\<lparr>gs_pending := [(2, True)], gs_running := [(1, True)], gs_trace := [Start 1]\<rparr>"
  define s3 where "s3 = s2\<lparr>gs_running := [], gs_gate := 3, gs_desc := 1, gs_trace := [Start 1, Done 1]\<rparr>"
  define s4 where "s4 = s3\<lparr>gs_cmds := [Write_Value 4, Wait_Geq 5, Copy_Kernel, Copy_Kernel]\<rparr>"
  define s5 where "s5 = s4\<lparr>gs_cmds := [Wait_Geq 5, Copy_Kernel, Copy_Kernel], gs_gate := 4, gs_cur := 2\<rparr>"
  define s6 where "s6 = s5\<lparr>gs_pending := [], gs_running := [(2, True)], gs_trace := [Start 1, Done 1, Start 2]\<rparr>"
  define s7 where "s7 = s6\<lparr>gs_running := [], gs_gate := 5, gs_desc := 2, gs_trace := [Start 1, Done 1, Start 2, Done 2]\<rparr>"
  define s8 where "s8 = s7\<lparr>gs_cmds := [Copy_Kernel, Copy_Kernel]\<rparr>"
  define s9 where "s9 = s8\<lparr>gs_cmds := [Copy_Kernel], gs_trace := [Start 1, Done 1, Start 2, Done 2, Copied 2]\<rparr>"
  define s10 where "s10 = s9\<lparr>gs_cmds := [], gs_trace := [Start 1, Done 1, Start 2, Done 2, Copied 2, Copied 2]\<rparr>"
  note defs = late_copy_def gate_init_def s1_def s2_def s3_def s4_def s5_def s6_def s7_def s8_def s9_def s10_def
    seq_of_def number_of_value_def geq_open_def gate_closed_def
  have second: "number_of_value 1 4 = 2"
    by (simp add: number_of_value_def seq_of_def)
  have "gate_step late_copy s1"
    using gpu_write [of late_copy 2] by (simp add: defs)
  moreover have "gate_step s1 s2"
    using io_start [of 1 True s1] by (simp add: defs)
  moreover have "gate_step s2 s3"
    using io_done [of 1 True s2] by (simp add: defs)
  moreover have "gate_step s3 s4"
    using gpu_wait [of s3 3] by (simp add: defs)
  moreover have "gs_cur s4 = 1" "gs_cmds s4 = Write_Value 4 # gs_cmds s5"
    by (simp_all add: defs)
  moreover from this have "gate_step s4 s5"
    using gpu_write [of s4 4 "gs_cmds s5"] by (simp only: second) (simp add: s5_def)
  moreover have "gate_step s5 s6"
    using io_start [of 2 True s5] by (simp add: defs)
  moreover have "gate_step s6 s7"
    using io_done [of 2 True s6] by (simp add: defs)
  moreover have "gate_step s7 s8"
    using gpu_wait [of s7 5] by (simp add: defs)
  moreover have "gate_step s8 s9"
    using gpu_copy [of s8] by (simp add: defs)
  moreover have "gate_step s9 s10"
    using gpu_copy [of s9] by (simp add: defs)
  ultimately have "gate_step\<^sup>*\<^sup>* late_copy s10"
    by (meson converse_rtranclp_into_rtranclp rtranclp.rtrancl_refl)
  moreover have "gs_cmds s10 = []" "gs_trace s10 = [Start 1, Done 1, Start 2, Done 2, Copied 2, Copied 2]"
    by (simp_all add: s10_def)
  ultimately show ?thesis
    by blast
qed

end
