(* ===== verification/Batch_Correct.thy ===== *)
theory Batch_Correct
  imports Batch
begin

text \<open>
  The invariant of a batch and what its operations do, for every backend that keeps the contract.
\<close>

section \<open>The invariant\<close>

text \<open>The entries in use whose completion has not been delivered, and their cookies.\<close>

definition live :: "async_batch \<Rightarrow> nat set" where
  "live b = {i. i < unat (used b) \<and> \<not> e_delivered (entries b ! i)}"

definition cookies_of :: "async_batch \<Rightarrow> nat set \<Rightarrow> ptr multiset" where
  "cookies_of b I = image_mset (\<lambda>i. e_cookie (entries b ! i)) (mset_set I)"

definition batch_futs :: "async_batch \<Rightarrow> ptr set" where
  "batch_futs b = e_future ` set (entries b)"

definition entry_ok :: "'s future_fn \<Rightarrow> ('s \<Rightarrow> ptr \<Rightarrow> bool) \<Rightarrow> batch_entry \<Rightarrow> 's \<Rightarrow> bool" where
  "entry_ok fut busy e s \<longleftrightarrow>
     (if e_failed e then \<not> busy s (e_future e)
      else if e_delivered e \<or> e_canceled e then \<not> busy s (e_future e) \<and> fut_done (fut s (e_future e))
      else busy s (e_future e) \<or> fut_done (fut s (e_future e)))"

definition batch_shape :: "async_batch \<Rightarrow> bool" where
  "batch_shape b \<longleftrightarrow>
     length (entries b) = unat (capacity b) \<and> used b \<le> capacity b \<and> unat (inflight b) = card (live b) \<and>
     distinct (map e_future (entries b)) \<and> 0 \<notin> batch_futs b"

definition batch_ok :: "'s future_fn \<Rightarrow> ('s \<Rightarrow> ptr \<Rightarrow> bool) \<Rightarrow> async_batch \<Rightarrow> 's \<Rightarrow> bool" where
  "batch_ok fut busy b s \<longleftrightarrow> batch_shape b \<and>
     (\<forall>i < length (entries b).
        if i < unat (used b) then entry_ok fut busy (entries b ! i) s
        else entries b ! i = zero_entry (e_future (entries b ! i)) \<and> \<not> busy s (e_future (entries b ! i)))"

lemma live_finite [simp]: "finite (live b)"
  by (simp add: live_def)

lemma batch_shapeD:
  assumes "batch_shape b"
  shows "length (entries b) = unat (capacity b)" "unat (used b) \<le> length (entries b)"
    "unat (inflight b) = card (live b)" "card (live b) \<le> unat (used b)"
    "i < length (entries b) \<Longrightarrow> e_future (entries b ! i) \<noteq> 0"
    "i < length (entries b) \<Longrightarrow> e_future (entries b ! i) \<in> batch_futs b"
    "i < length (entries b) \<Longrightarrow> j < length (entries b) \<Longrightarrow>
       e_future (entries b ! i) = e_future (entries b ! j) \<Longrightarrow> i = j"
proof -
  show "length (entries b) = unat (capacity b)" "unat (inflight b) = card (live b)"
    using assms by (simp_all add: batch_shape_def)
  show "unat (used b) \<le> length (entries b)"
    using assms by (simp add: batch_shape_def word_le_nat_alt)
  have "live b \<subseteq> {..<unat (used b)}"
    by (auto simp: live_def)
  then show "card (live b) \<le> unat (used b)"
    using card_mono [of "{..<unat (used b)}" "live b"] by simp
  show mem: "i < length (entries b) \<Longrightarrow> e_future (entries b ! i) \<in> batch_futs b" for i
    by (simp add: batch_futs_def)
  show "i < length (entries b) \<Longrightarrow> e_future (entries b ! i) \<noteq> 0"
    using assms mem [of i] by (metis batch_shape_def)
  show "i < length (entries b) \<Longrightarrow> j < length (entries b) \<Longrightarrow>
       e_future (entries b ! i) = e_future (entries b ! j) \<Longrightarrow> i = j"
    using assms nth_eq_iff_index_eq [of "map e_future (entries b)" i j] by (simp add: batch_shape_def)
qed

lemma batch_okD:
  assumes "batch_ok fut busy b s"
  shows "batch_shape b" "i < unat (used b) \<Longrightarrow> entry_ok fut busy (entries b ! i) s"
    "unat (used b) \<le> i \<Longrightarrow> i < length (entries b) \<Longrightarrow>
       entries b ! i = zero_entry (e_future (entries b ! i)) \<and> \<not> busy s (e_future (entries b ! i))"
proof -
  show sh: "batch_shape b"
    using assms by (simp add: batch_ok_def)
  show "i < unat (used b) \<Longrightarrow> entry_ok fut busy (entries b ! i) s"
    using assms batch_shapeD(2) [OF sh] by (auto simp: batch_ok_def)
  show "unat (used b) \<le> i \<Longrightarrow> i < length (entries b) \<Longrightarrow>
       entries b ! i = zero_entry (e_future (entries b ! i)) \<and> \<not> busy s (e_future (entries b ! i))"
    using assms by (auto simp: batch_ok_def)
qed

lemma cookies_insert:
  "i \<notin> I \<Longrightarrow> finite I \<Longrightarrow> cookies_of b (insert i I) = add_mset (e_cookie (entries b ! i)) (cookies_of b I)"
  by (simp add: cookies_of_def)

lemma cookies_cong:
  "(\<And>i. i \<in> I \<Longrightarrow> e_cookie (entries b' ! i) = e_cookie (entries b ! i)) \<Longrightarrow> cookies_of b' I = cookies_of b I"
  unfolding cookies_of_def by (cases "finite I") (auto intro!: image_mset_cong)

section \<open>One entry changes\<close>

text \<open>Entry \<open>i\<close> changes in other fields than its address, within a batch whose number in use stays or grows to cover it.\<close>

lemma upd_entry_simps [simp]:
  "used (upd_entry i f b) = used b" "inflight (upd_entry i f b) = inflight b"
  "capacity (upd_entry i f b) = capacity b" "length (entries (upd_entry i f b)) = length (entries b)"
  "entries (upd_entry i f b) = (entries b)[i := f (entries b ! i)]"
  by (simp_all add: upd_entry_def)

lemma map_update_same: "f y = f (xs ! i) \<Longrightarrow> map f (xs[i := y]) = map f xs"
  by (metis list_update_id map_update)

lemma futs_update:
  assumes "e_future e = e_future (entries b ! i)" "entries b' = (entries b)[i := e]"
  shows "map e_future (entries b') = map e_future (entries b)" "batch_futs b' = batch_futs b"
proof -
  show m: "map e_future (entries b') = map e_future (entries b)"
    using assms by (simp add: map_update_same)
  then show "batch_futs b' = batch_futs b"
    unfolding batch_futs_def by (metis list.set_map)
qed

context async_service
begin

text \<open>What the rest of the program does keeps every entry.\<close>

lemma entry_kept:
  assumes "entry_ok fut busy e s" "futures_kept fut busy F s s'" "e_future e \<in> F" "ok s" "ok s'"
  shows "entry_ok fut busy e s'"
  using assms busy_open [of s "e_future e"] busy_open [of s' "e_future e"]
  by (auto simp: entry_ok_def futures_kept_def split: if_splits)

lemma batch_kept:
  assumes b: "batch_ok fut busy b s" and k: "futures_kept fut busy F s s'" and F: "batch_futs b \<subseteq> F" and ok: "ok s" "ok s'"
  shows "batch_ok fut busy b s'"
proof -
  have mem: "e_future (entries b ! i) \<in> F" if "i < length (entries b)" for i
    using that F by (auto simp: batch_futs_def)
  have "entry_ok fut busy (entries b ! i) s'" if "i < unat (used b)" for i
    using entry_kept [OF batch_okD(2) [OF b that] k mem ok] batch_shapeD(2) [OF batch_okD(1) [OF b]] that by simp
  moreover have "\<not> busy s' (e_future (entries b ! i))" if "unat (used b) \<le> i" "i < length (entries b)" for i
    using batch_okD(3) [OF b that] mem [OF that(2)] k by (auto simp: futures_kept_def split: if_splits)
  ultimately show ?thesis
    using b by (auto simp: batch_ok_def)
qed

lemma batch_progs:
  assumes "(prog F)\<^sup>*\<^sup>* s s'" "batch_ok fut busy b s" "batch_futs b \<subseteq> F" "ok s"
  shows "ok s' \<and> batch_ok fut busy b s'"
  using progs [OF assms(1,4)] batch_kept [OF assms(2) _ assms(3,4)] by blast

text \<open>\<open>entry_take\<close> hands out an entry that is inside the array and free, and clears it.\<close>

lemma entry_take_free:
  assumes b: "batch_ok fut busy b s" and ok: "ok s" and room: "unat (inflight b) < unat (capacity b)"
    and take: "entry_take reset b s = (i, b1, s1)"
  shows "i < length (entries b)" "i \<notin> live b" "ok s1" "\<not> busy s (e_future (entries b ! i))"
    "entries b1 = (entries b)[i := zero_entry (e_future (entries b ! i))]"
    "unat (used b1) = max (unat (used b)) (Suc i)" "inflight b1 = inflight b" "capacity b1 = capacity b"
    "\<And>p. p \<noteq> e_future (entries b ! i) \<Longrightarrow> fut s1 p = fut s p" "busy s1 = busy s" "i \<le> unat (used b)"
proof -
  note sh = batch_shapeD [OF batch_okD(1) [OF b]]
  let ?P = "\<lambda>i. e_delivered (entries b ! i)"
  have all: "i < length (entries b) \<and> i \<notin> live b \<and> ok s1 \<and> \<not> busy s (e_future (entries b ! i)) \<and>
    entries b1 = (entries b)[i := zero_entry (e_future (entries b ! i))] \<and>
    unat (used b1) = max (unat (used b)) (Suc i) \<and> inflight b1 = inflight b \<and> capacity b1 = capacity b \<and>
    (\<forall>p. p \<noteq> e_future (entries b ! i) \<longrightarrow> fut s1 p = fut s p) \<and> busy s1 = busy s \<and> i \<le> unat (used b)"
  proof (cases "find ?P [0..<unat (used b)]")
    case (Some j)
    then have j: "j < unat (used b)" "?P j"
      by (auto simp: find_Some_iff)
    have res: "i = j" "b1 = b\<lparr>entries := (entries b)[j := zero_entry (e_future (entries b ! j))]\<rparr>"
      "s1 = reset (e_future (entries b ! j)) s"
      using take Some by (auto simp: entry_take_def Let_def)
    have "\<not> busy s (e_future (entries b ! j))"
      using batch_okD(2) [OF b j(1)] j(2) by (auto simp: entry_ok_def split: if_splits)
    with reset [OF ok this] j sh(2) show ?thesis
      by (auto simp: res live_def)
  next
    case None
    then have del: "\<not> ?P j" if "j < unat (used b)" for j
      using that by (auto simp: find_None_iff)
    then have "live b = {..<unat (used b)}"
      by (auto simp: live_def)
    then have less: "unat (used b) < unat (capacity b)"
      using sh(3) room by simp
    then have res: "i = unat (used b)" "b1 = b\<lparr>used := used b + 1\<rparr>" "s1 = s"
      "unat (used b + 1) = Suc (unat (used b))"
      using take None unat_Suc_less [of "used b" "capacity b"] by (simp_all add: entry_take_def word_less_nat_alt)
    have "entries b ! i = zero_entry (e_future (entries b ! i)) \<and> \<not> busy s (e_future (entries b ! i))"
      by (rule batch_okD(3) [OF b]) (use res less sh(1) in simp_all)
    then show ?thesis
      using res(2,3,4) less sh(1) ok unfolding res(1) by (auto simp: live_def list_update_id)
  qed
  then show "i < length (entries b)" "i \<notin> live b" "ok s1" "\<not> busy s (e_future (entries b ! i))"
    "entries b1 = (entries b)[i := zero_entry (e_future (entries b ! i))]"
    "unat (used b1) = max (unat (used b)) (Suc i)" "inflight b1 = inflight b" "capacity b1 = capacity b"
    "\<And>p. p \<noteq> e_future (entries b ! i) \<Longrightarrow> fut s1 p = fut s p" "busy s1 = busy s" "i \<le> unat (used b)"
    by blast+
qed

text \<open>An entry that \<open>e\<close> has taken keeps the shape of the batch.\<close>

lemma take_entry_shape:
  assumes b: "batch_shape b" and i: "i < length (entries b)" "i \<notin> live b" "i \<le> unat (used b)"
    and e: "e_future e = e_future (entries b ! i)" "\<not> e_delivered e"
    and b': "entries b' = (entries b)[i := e]" "unat (used b') = max (unat (used b)) (Suc i)" "capacity b' = capacity b"
      "unat (inflight b') = Suc (unat (inflight b))"
  shows "batch_shape b'" "batch_futs b' = batch_futs b" "live b' = insert i (live b)"
    "cookies_of b' (live b') = add_mset (e_cookie e) (cookies_of b (live b))"
proof -
  note sh = batch_shapeD [OF b]
  have futs: "map e_future (entries b') = map e_future (entries b)" "batch_futs b' = batch_futs b"
    using futs_update [OF e(1) b'(1)] by simp_all
  show "batch_futs b' = batch_futs b"
    by (fact futs(2))
  show live': "live b' = insert i (live b)"
    using i e(2) by (auto simp: live_def b' nth_list_update less_max_iff_disj less_Suc_eq)
  have "length (entries b') = length (entries b)"
    by (simp add: b'(1))
  then show "batch_shape b'"
    using b b'(2-4) i sh(1,2) live' by (simp add: batch_shape_def futs word_le_nat_alt)
  have "cookies_of b' (live b) = cookies_of b (live b)"
    by (rule cookies_cong) (metis b'(1) nth_list_update_neq i(2))
  then show "cookies_of b' (live b') = add_mset (e_cookie e) (cookies_of b (live b))"
    using i(1,2) by (simp add: live' cookies_insert b'(1))
qed

text \<open>What \<open>submit_one\<close> does: it takes an entry, submits with its future, and notes a failure.\<close>

lemma submit_one_effect:
  assumes b: "batch_ok fut busy b s" and ok: "ok s" and room: "unat (inflight b) < unat (capacity b)"
    and run: "submit_one submit reset (p, others) (b, s) = Some (b', s')"
  obtains i e s1 r where "i < length (entries b)" "i \<notin> live b" "i \<le> unat (used b)"
    "e_future e = e_future (entries b ! i)" "e_cookie e = p_cookie p" "\<not> e_delivered e" "\<not> e_canceled e"
    "e_failed e \<longleftrightarrow> err r \<noteq> OPENDS_SUCCESS" "submit others (request_of p) (e_future e) s1 = Some (r, s')"
    "ok s1" "busy s1 = busy s" "\<And>q. q \<noteq> e_future e \<Longrightarrow> fut s1 q = fut s q" "\<not> busy s (e_future e)"
    "entries b' = (entries b)[i := e]" "unat (used b') = max (unat (used b)) (Suc i)" "capacity b' = capacity b"
    "unat (inflight b') = Suc (unat (inflight b))"
proof -
  obtain i b1 s1 where take: "entry_take reset b s = (i, b1, s1)"
    by (cases "entry_take reset b s") auto
  note t = entry_take_free [OF b ok room take]
  define z where "z = (zero_entry (e_future (entries b ! i)))\<lparr>e_cookie := p_cookie p\<rparr>"
  have z: "upd_entry i (\<lambda>e. e\<lparr>e_cookie := p_cookie p\<rparr>) b1 = b1\<lparr>entries := (entries b)[i := z]\<rparr>" "(entries b)[i := z] ! i = z"
    using t(1,5) by (simp_all add: upd_entry_def z_def)
  obtain r where sub: "submit others (request_of p) (e_future z) s1 = Some (r, s')"
    and b': "b' = (let b3 = if err r \<noteq> OPENDS_SUCCESS then upd_entry i (\<lambda>e. e\<lparr>e_failed := True\<rparr>) (b1\<lparr>entries := (entries b)[i := z]\<rparr>)
                     else b1\<lparr>entries := (entries b)[i := z]\<rparr> in b3\<lparr>inflight := inflight b3 + 1\<rparr>)"
    using run z(2) unfolding submit_one_def prod.case take Let_def z(1) by (auto split: option.splits)
  have "unat (inflight b + 1) = Suc (unat (inflight b))"
    by (rule unat_Suc_less [of _ "capacity b"]) (use room in \<open>simp add: word_less_nat_alt\<close>)
  then show thesis
    using t z(2) sub
    by (intro that [of i "if err r \<noteq> OPENDS_SUCCESS then z\<lparr>e_failed := True\<rparr> else z" r s1])
      (auto simp: b' Let_def upd_entry_def z_def zero_entry_def split: if_splits)
qed

lemma submit_one_ok:
  assumes b: "batch_ok fut busy b s" and ok: "ok s" and room: "unat (inflight b) < unat (capacity b)"
    and F: "batch_futs b \<subseteq> F" and rest: "rest_ok F others"
    and run: "submit_one submit reset (p, others) (b, s) = Some (b', s')"
  shows "ok s' \<and> batch_ok fut busy b' s' \<and> batch_futs b' = batch_futs b \<and> capacity b' = capacity b \<and>
    unat (inflight b') = Suc (unat (inflight b)) \<and>
    cookies_of b' (live b') = add_mset (p_cookie p) (cookies_of b (live b))"
proof -
  note sh = batch_shapeD [OF batch_okD(1) [OF b]]
  obtain i e s1 r where i: "i < length (entries b)" "i \<notin> live b" "i \<le> unat (used b)"
    and e: "e_future e = e_future (entries b ! i)" "e_cookie e = p_cookie p" "\<not> e_delivered e" "\<not> e_canceled e"
      "e_failed e \<longleftrightarrow> err r \<noteq> OPENDS_SUCCESS"
    and sub: "submit others (request_of p) (e_future e) s1 = Some (r, s')"
    and s1: "ok s1" "busy s1 = busy s" "\<And>q. q \<noteq> e_future e \<Longrightarrow> fut s1 q = fut s q" "\<not> busy s (e_future e)"
    and b': "entries b' = (entries b)[i := e]" "unat (used b') = max (unat (used b)) (Suc i)" "capacity b' = capacity b"
      "unat (inflight b') = Suc (unat (inflight b))"
    by (rule submit_one_effect [OF b ok room run]) blast
  note shape = take_entry_shape [OF batch_okD(1) [OF b] i e(1,3) b']
  have eF: "e_future e \<in> F" "\<not> busy s1 (e_future e)"
    using F sh(6) [OF i(1)] s1(2,4) by (auto simp: e(1))
  note law = submit [OF sub s1(1) eF(2,1) rest [unfolded rest_ok_def]]
  have kept: "futures_kept fut busy (F - {e_future e}) s s'"
    using law s1(2,3) unfolding futures_kept_def by auto
  have "if j < unat (used b') then entry_ok fut busy (entries b' ! j) s'
      else entries b' ! j = zero_entry (e_future (entries b' ! j)) \<and> \<not> busy s' (e_future (entries b' ! j))"
    if j: "j < length (entries b)" for j
  proof (cases "j = i")
    case True
    have "entry_ok fut busy e s'"
      using law e by (auto simp: entry_ok_def split: if_splits)
    then show ?thesis
      using True j by (simp add: b' less_max_iff_disj)
  next
    case False
    have mem: "e_future (entries b ! j) \<in> F - {e_future e}"
      using F sh(6) [OF j] sh(7) [OF j i(1)] False by (auto simp: e(1))
    have "j < unat (used b) \<Longrightarrow> entry_ok fut busy (entries b ! j) s'"
      using entry_kept [OF batch_okD(2) [OF b] kept mem ok] law by simp
    then show ?thesis
      using batch_okD(3) [OF b _ j] kept mem False i(3) by (auto simp: b' futures_kept_def split: if_splits)
  qed
  then have "batch_ok fut busy b' s'"
    using shape(1) length_list_update [of "entries b" i e] by (simp add: batch_ok_def flip: b'(1))
  then show ?thesis
    using law shape(2,4) b'(3,4) e(2) by simp
qed

section \<open>Submission\<close>

lemma submit_all_ok:
  assumes "submit_all submit reset xs (b, s) = Some (b', s')" "batch_ok fut busy b s" "ok s"
    and "unat (inflight b) + length xs \<le> unat (capacity b)" "batch_futs b \<subseteq> F" "\<forall>x \<in> set xs. rest_ok F (snd x)"
  shows "ok s' \<and> batch_ok fut busy b' s' \<and> batch_futs b' = batch_futs b \<and> capacity b' = capacity b \<and>
    unat (inflight b') = unat (inflight b) + length xs \<and>
    cookies_of b' (live b') = cookies_of b (live b) + mset (map (p_cookie \<circ> fst) xs)"
  using assms
proof (induction xs arbitrary: b s)
  case (Cons x xs)
  obtain p others where x: "x = (p, others)"
    by (cases x)
  obtain b1 s1 where one: "submit_one submit reset (p, others) (b, s) = Some (b1, s1)"
    and rest: "submit_all submit reset xs (b1, s1) = Some (b', s')"
    using Cons.prems(1) by (auto simp: x split: option.splits)
  have "unat (inflight b) < unat (capacity b)" "rest_ok F others"
    using Cons.prems(4,6) by (simp_all add: x)
  note step = submit_one_ok [OF Cons.prems(2,3) this(1) Cons.prems(5) this(2) one]
  have "unat (inflight b1) + length xs \<le> unat (capacity b1)"
    using step Cons.prems(4) by simp
  from Cons.IH [OF rest _ _ this] step Cons.prems(5,6) show ?case
    by (simp add: x)
qed simp

lemma batch_submit_ok:
  assumes run: "opends_batch_submit submit reset nr (Some ps) (Some b, s) = Some (r, bp, s')"
    and b: "batch_ok fut busy b s" and ok: "ok s" and F: "batch_futs b \<subseteq> F"
    and rest: "\<forall>x \<in> set ps. rest_ok F (snd x)" and len: "unat nr \<le> length ps"
  shows "if unat (inflight b) + unat nr > unat (capacity b) then r = opends_err OPENDS_BATCH_FULL \<and> bp = Some b \<and> s' = s
    else \<exists>b'. r = opends_ok \<and> bp = Some b' \<and> ok s' \<and> batch_ok fut busy b' s' \<and> batch_futs b' = batch_futs b \<and>
      capacity b' = capacity b \<and> unat (inflight b') = unat (inflight b) + unat nr \<and>
      cookies_of b' (live b') = cookies_of b (live b) + mset (map (p_cookie \<circ> fst) (take (unat nr) ps))"
proof -
  note sh = batch_shapeD [OF batch_okD(1) [OF b]]
  have le: "unat (inflight b) \<le> unat (capacity b)"
    using sh(1-4) by simp
  then have "unat (capacity b - inflight b) = unat (capacity b) - unat (inflight b)"
    by (intro unat_sub_noof) (simp add: word_le_nat_alt)
  then have full: "nr > capacity b - inflight b \<longleftrightarrow> unat (inflight b) + unat nr > unat (capacity b)"
    using le by (simp add: word_less_nat_alt) linarith
  show ?thesis
  proof (cases "nr > capacity b - inflight b")
    case True
    then show ?thesis
      using run full by (simp add: opends_batch_submit_def)
  next
    case False
    then obtain b' where all: "submit_all submit reset (take (unat nr) ps) (b, s) = Some (b', s')" and out: "r = opends_ok" "bp = Some b'"
      using run by (auto simp: opends_batch_submit_def split: option.splits)
    have n: "length (take (unat nr) ps) = unat nr"
      using len by simp
    have "unat (inflight b) + length (take (unat nr) ps) \<le> unat (capacity b)"
      using False full n by linarith
    moreover have "\<forall>x \<in> set (take (unat nr) ps). rest_ok F (snd x)"
      using rest by (auto dest: in_set_takeD)
    ultimately show ?thesis
      using submit_all_ok [OF all b ok _ F] False full out n by simp
  qed
qed

section \<open>Delivery\<close>

text \<open>What delivering entry \<open>i\<close> does.\<close>

definition deliver_entry :: "nat \<Rightarrow> async_batch \<Rightarrow> async_batch" where
  "deliver_entry i b = (let b1 = upd_entry i (\<lambda>e. e\<lparr>e_delivered := True\<rparr>) b in b1\<lparr>inflight := inflight b1 - 1\<rparr>)"

lemma deliver_entry_ok:
  assumes b: "batch_ok fut busy b s" and ok: "ok s" and i: "i \<in> live b" and ready: "entry_done fut (entries b ! i) s"
  shows "batch_ok fut busy (deliver_entry i b) s" "live (deliver_entry i b) = live b - {i}"
    "batch_futs (deliver_entry i b) = batch_futs b"
    "unat (inflight (deliver_entry i b)) = unat (inflight b) - 1"
    "used (deliver_entry i b) = used b"
    "\<And>j. j \<noteq> i \<Longrightarrow> entries (deliver_entry i b) ! j = entries b ! j"
    "e_cookie (entries (deliver_entry i b) ! j) = e_cookie (entries b ! j)"
proof -
  note sh = batch_shapeD [OF batch_okD(1) [OF b]]
  define e where "e = (entries b ! i)\<lparr>e_delivered := True\<rparr>"
  have iu: "i < unat (used b)" "i < length (entries b)"
    using i sh(2) by (auto simp: live_def)
  have entries': "entries (deliver_entry i b) = (entries b)[i := e]"
    by (simp add: deliver_entry_def Let_def e_def)
  have fields: "used (deliver_entry i b) = used b" "capacity (deliver_entry i b) = capacity b"
    "inflight (deliver_entry i b) = inflight b - 1"
    by (simp_all add: deliver_entry_def Let_def)
  have len: "length (entries (deliver_entry i b)) = length (entries b)"
    by (simp add: entries')
  show live': "live (deliver_entry i b) = live b - {i}"
    using iu by (auto simp: live_def entries' fields e_def nth_list_update split: if_splits)
  have futs: "map e_future (entries (deliver_entry i b)) = map e_future (entries b)"
    "batch_futs (deliver_entry i b) = batch_futs b"
    using futs_update [OF _ entries'] by (simp_all add: e_def)
  then show "batch_futs (deliver_entry i b) = batch_futs b"
    by simp
  have "0 < card (live b)"
    using i card_gt_0_iff by fastforce
  then have "inflight b \<noteq> 0"
    using sh(3) by auto
  then show inf: "unat (inflight (deliver_entry i b)) = unat (inflight b) - 1"
    by (simp add: fields unat_minus_one)
  show "used (deliver_entry i b) = used b"
    by (rule fields)
  show "\<And>j. j \<noteq> i \<Longrightarrow> entries (deliver_entry i b) ! j = entries b ! j"
    by (simp add: entries')
  show "e_cookie (entries (deliver_entry i b) ! j) = e_cookie (entries b ! j)"
    using iu by (cases "j = i") (simp_all add: entries' e_def)
  have "batch_shape (deliver_entry i b)"
    using batch_okD(1) [OF b] inf live' i by (simp add: batch_shape_def fields futs len)
  moreover have "entry_ok fut busy e s"
    using batch_okD(2) [OF b iu(1)] ready busy_open [OF ok, of "e_future (entries b ! i)"]
    by (auto simp: entry_ok_def entry_done_def e_def split: if_splits)
  ultimately show "batch_ok fut busy (deliver_entry i b) s"
    using b iu unfolding batch_ok_def by (auto simp: entries' fields nth_list_update)
qed

text \<open>
  The delivery loop over the indices \<open>is\<close>: it picks some of them, in their order, not more than there
  is room for, and delivers exactly these, with the events that their final results ask for; if it
  does not fill the room, all those that were done at its start are among them.
\<close>

definition collected ::
  "nat \<Rightarrow> nat set \<Rightarrow> async_batch \<Rightarrow> 's \<Rightarrow> opends_io_events list \<Rightarrow> nat list \<Rightarrow> opends_io_events list \<Rightarrow> async_batch \<Rightarrow> 's \<Rightarrow> bool" where
  "collected nr I b s out js out' b' s' \<longleftrightarrow>
     out' = out @ map (\<lambda>i. event_of fut (entries b ! i) s') js \<and> distinct js \<and> set js \<subseteq> live b \<inter> I \<and>
     live b' = live b - set js \<and> length out' \<le> max (length out) nr \<and>
     (length out' < nr \<longrightarrow> {i \<in> live b \<inter> I. entry_done fut (entries b ! i) s} \<subseteq> set js) \<and>
     (\<forall>i. e_cookie (entries b' ! i) = e_cookie (entries b ! i))"

lemma done_stays:
  assumes "entry_done fut e s" "futures_kept fut busy F s s'" "ok s" "e_future e \<in> F"
  shows "entry_done fut e s'" "event_of fut e s' = event_of fut e s"
proof -
  have "fut s' (e_future e) = fut s (e_future e)" if "\<not> e_failed e"
  proof -
    have "\<not> busy s (e_future e)"
      using assms(1) that busy_open [OF assms(3)] by (auto simp: entry_done_def)
    then show ?thesis
      using assms(2,4) by (auto simp: futures_kept_def)
  qed
  then show "entry_done fut e s'" "event_of fut e s' = event_of fut e s"
    using assms(1) by (cases "e_failed e"; simp add: entry_done_def event_of_def Let_def)+
qed

lemma collected_skip:
  assumes c: "collected nr S b s1 out js out' b' s'" and i: "i \<in> live b \<Longrightarrow> \<not> entry_done fut (entries b ! i) s"
    and mono: "\<And>j. j \<in> live b \<Longrightarrow> entry_done fut (entries b ! j) s \<Longrightarrow> entry_done fut (entries b ! j) s1"
  shows "collected nr (insert i S) b s out js out' b' s'"
  using c i mono unfolding collected_def by auto

lemma collected_take:
  assumes c: "collected nr S (deliver_entry i b) s1 (out @ [event_of fut (entries b ! i) s1]) js out' b' s'"
    and i: "batch_ok fut busy b s1" "ok s1" "i \<in> live b" "entry_done fut (entries b ! i) s1" and room: "length out < nr"
    and ev: "event_of fut (entries b ! i) s' = event_of fut (entries b ! i) s1"
    and mono: "\<And>j. j \<in> live b \<Longrightarrow> entry_done fut (entries b ! j) s \<Longrightarrow> entry_done fut (entries b ! j) s1"
  shows "collected nr (insert i S) b s out (i # js) out' b' s'"
proof -
  note d = deliver_entry_ok [OF i]
  have js: "set js \<subseteq> (live b - {i}) \<inter> S"
    using c d(2) by (auto simp: collected_def)
  then have "entries (deliver_entry i b) ! j = entries b ! j" if "j \<in> set js" for j
    using that by (intro d(6)) auto
  then have same: "map (\<lambda>j. event_of fut (entries (deliver_entry i b) ! j) s') js = map (\<lambda>j. event_of fut (entries b ! j) s') js"
    by simp
  show ?thesis
    unfolding collected_def
  proof (intro conjI impI allI)
    show "out' = out @ map (\<lambda>i. event_of fut (entries b ! i) s') (i # js)"
      using c same ev by (simp add: collected_def)
    show "distinct (i # js)" "set (i # js) \<subseteq> live b \<inter> insert i S" "live b' = live b - set (i # js)"
      using c js i(3) d(2) by (auto simp: collected_def)
    have "length out' \<le> max (length (out @ [event_of fut (entries b ! i) s1])) nr"
      using c unfolding collected_def by blast
    then show "length out' \<le> max (length out) nr"
      using room by simp
    show "e_cookie (entries b' ! j) = e_cookie (entries b ! j)" for j
      using c d(7) by (simp add: collected_def)
    assume "length out' < nr"
    then have "{j \<in> live (deliver_entry i b) \<inter> S. entry_done fut (entries (deliver_entry i b) ! j) s1} \<subseteq> set js"
      using c by (simp add: collected_def)
    then show "{j \<in> live b \<inter> insert i S. entry_done fut (entries b ! j) s} \<subseteq> set (i # js)"
      using d(2,6) mono by auto
  qed
qed

lemma collect_ok:
  assumes "collect fut late nr is b s out = (out', b', s')" "batch_ok fut busy b s" "ok s"
    and "batch_futs b \<subseteq> F" "\<forall>i s. (prog F)\<^sup>*\<^sup>* s (late i s)" "\<forall>i \<in> set is. i < unat (used b)" "distinct is"
  shows "ok s' \<and> futures_kept fut busy F s s' \<and> batch_ok fut busy b' s' \<and> batch_futs b' = batch_futs b \<and>
    (\<exists>js. collected nr (set is) b s out js out' b' s')"
  using assms
proof (induction "is" arbitrary: b s out)
  case (Cons i "is")
  have mem: "e_future (entries b ! j) \<in> F" if "j \<in> live b" for j
    using that Cons.prems(4) batch_shapeD(2,6) [OF batch_okD(1) [OF Cons.prems(2)]] by (auto simp: live_def)
  define s1 where "s1 = late i s"
  have moved: "(prog F)\<^sup>*\<^sup>* s s1"
    using Cons.prems(5) by (simp add: s1_def)
  have s1: "ok s1" "batch_ok fut busy b s1"
    using batch_progs [OF moved Cons.prems(2,4,3)] by simp_all
  have k1: "futures_kept fut busy F s s1"
    using progs [OF moved Cons.prems(3)] by simp
  have mono: "j \<in> live b \<Longrightarrow> entry_done fut (entries b ! j) s \<Longrightarrow> entry_done fut (entries b ! j) s1" for j
    using done_stays(1) [OF _ k1 Cons.prems(3) mem] .
  consider (full) "\<not> length out < nr"
    | (skip) "length out < nr" "e_delivered (entries b ! i) \<or> \<not> entry_done fut (entries b ! i) s1"
    | (take) "length out < nr" "\<not> e_delivered (entries b ! i)" "entry_done fut (entries b ! i) s1"
    by blast
  then show ?case
  proof cases
    case full
    then show ?thesis
      using Cons.prems(1-3) by (auto simp: collected_def intro!: exI [of _ "[]"])
  next
    case skip
    then have run: "collect fut late nr is b s1 out = (out', b', s')"
      using Cons.prems(1) by (simp add: s1_def Let_def)
    have i: "i \<in> live b \<Longrightarrow> \<not> entry_done fut (entries b ! i) s"
      using skip(2) mono by (auto simp: live_def)
    from Cons.IH [OF run s1(2,1) Cons.prems(4,5)] Cons.prems(6,7) show ?thesis
      using collected_skip [OF _ i mono] futs_kept_trans [OF k1 _ s1(1)] by simp blast
  next
    case take
    have il: "i \<in> live b"
      using take(2) Cons.prems(6) by (simp add: live_def)
    note d = deliver_entry_ok [OF s1(2,1) il take(3)]
    have run: "collect fut late nr is (deliver_entry i b) s1 (out @ [event_of fut (entries b ! i) s1]) = (out', b', s')"
      using Cons.prems(1) take by (simp add: s1_def Let_def deliver_entry_def)
    have "batch_futs (deliver_entry i b) \<subseteq> F" "\<forall>j \<in> set is. j < unat (used (deliver_entry i b))" "distinct is"
      using Cons.prems(4,6,7) d(3,5) by simp_all
    from Cons.IH [OF run d(1) s1(1) this(1) Cons.prems(5) this(2,3)] d(3) obtain js
      where h: "ok s'" "futures_kept fut busy F s1 s'" "batch_ok fut busy b' s'" "batch_futs b' = batch_futs b"
        "collected nr (set is) (deliver_entry i b) s1 (out @ [event_of fut (entries b ! i) s1]) js out' b' s'"
      by auto
    have "collected nr (set (i # is)) b s out (i # js) out' b' s'"
      using collected_take [OF h(5) s1(2,1) il take(3,1) done_stays(2) [OF take(3) h(2) s1(1) mem [OF il]] mono] by simp
    then show ?thesis
      using h futs_kept_trans [OF k1 h(2) s1(1)] by blast
  qed
qed (auto simp: collected_def intro!: exI [of _ "[]"])

lemma count_ready_card:
  assumes "batch_shape b"
  shows "unat (count_ready fut b s) = card {i \<in> live b. entry_done fut (entries b ! i) s}"
proof -
  have "unat (fold (\<lambda>i n. if \<not> e_delivered (entries b ! i) \<and> entry_done fut (entries b ! i) s then n + 1 else n) [0..<k] (0 :: u32))
      = card {i \<in> live b. i < k \<and> entry_done fut (entries b ! i) s}" if "k \<le> unat (used b)" for k
    using that
  proof (induction k)
    case (Suc k)
    let ?A = "\<lambda>k. {i \<in> live b. i < k \<and> entry_done fut (entries b ! i) s}"
    have "?A (Suc k) = (if k \<in> live b \<and> entry_done fut (entries b ! k) s then insert k (?A k) else ?A k)"
      by (auto simp: less_Suc_eq)
    then have card: "card (?A (Suc k)) = (if k \<in> live b \<and> entry_done fut (entries b ! k) s then 1 else 0) + card (?A k)"
      by simp
    have "card (?A k) \<le> card {..<k}"
      by (rule card_mono) auto
    then have "card (?A k) + 1 < 2 ^ 32"
      using Suc.prems unat_u32_bound [of "used b"] by simp
    moreover have "k \<in> live b \<longleftrightarrow> \<not> e_delivered (entries b ! k)"
      using Suc.prems by (simp add: live_def)
    ultimately show ?case
      using Suc card by (simp add: unat_add_noof)
  qed simp
  from this [of "unat (used b)"] show ?thesis
    by (simp add: count_ready_def live_def conj_commute cong: conj_cong)
qed

lemma wait_ready_ok:
  assumes "wait_ready fut b min_nr deadline turns s = Some s'" "batch_ok fut busy b s" "ok s"
    and "batch_futs b \<subseteq> F" "rest_ok F (map snd turns)"
  shows "ok s' \<and> batch_ok fut busy b s' \<and> futures_kept fut busy F s s' \<and>
    (deadline = None \<longrightarrow> unat min_nr \<le> card {i \<in> live b. entry_done fut (entries b ! i) s'})"
  using assms
proof (induction turns arbitrary: s)
  case Nil
  then show ?case
    using count_ready_card [OF batch_okD(1) [OF Nil(2)], of s]
    by (auto simp: wait_ready.simps word_less_nat_alt split: if_splits)
next
  case (Cons t turns)
  obtain now f where t: "t = (now, f)"
    by (cases t)
  have ready: "\<not> count_ready fut b s < min_nr \<longleftrightarrow> unat min_nr \<le> card {i \<in> live b. entry_done fut (entries b ! i) s}"
    using count_ready_card [OF batch_okD(1) [OF Cons.prems(2)], of s] by (simp add: word_less_nat_alt not_less)
  show ?case
  proof (cases "\<not> count_ready fut b s < min_nr \<or> expired deadline now")
    case True
    then have "s' = s"
      using Cons.prems(1) by (auto simp: wait_ready.simps t split: if_splits)
    then show ?thesis
      using True Cons.prems(2,3) ready by (auto simp: expired_def)
  next
    case False
    then have run: "wait_ready fut b min_nr deadline turns (f s) = Some s'"
      using Cons.prems(1) by (subst (asm) wait_ready.simps) (simp add: t)
    have p: "(prog F)\<^sup>*\<^sup>* s (f s)" "rest_ok F (map snd turns)"
      using Cons.prems(5) by (simp_all add: t)
    note f = batch_progs [OF p(1) Cons.prems(2,4,3)] progs [OF p(1) Cons.prems(3)]
    from Cons.IH [OF run _ _ Cons.prems(4) p(2)] f show ?thesis
      using futs_kept_trans [of F s "f s" s'] by blast
  qed
qed

text \<open>The cookies of what is delivered and of what stays make up those that were outstanding.\<close>

lemma collected_cookies:
  assumes "collected nr I b s [] js out' b' s'"
  shows "cookies_of b (live b) = mset (map ev_cookie out') + cookies_of b' (live b')"
proof -
  have ev: "ev_cookie (event_of fut e t) = e_cookie e" for e t
    by (simp add: event_of_def Let_def)
  have js: "distinct js" "set js \<subseteq> live b" "live b' = live b - set js" "out' = map (\<lambda>i. event_of fut (entries b ! i) s') js"
    "\<And>i. e_cookie (entries b' ! i) = e_cookie (entries b ! i)"
    using assms by (auto simp: collected_def)
  have "mset_set (live b) = mset_set (set js) + mset_set (live b - set js)"
    using js(2) by (subst mset_set_Union [symmetric]) (auto simp: Un_absorb1)
  then show ?thesis
    using js(1,3,4,5) by (simp add: cookies_of_def mset_set_set ev comp_def)
qed

lemma get_status_ok:
  assumes run: "opends_batch_get_status fut now turns late min_nr (Some n) True timeout (Some b, s) = Some (r, evs, bp, s')"
    and b: "batch_ok fut busy b s" and ok: "ok s" and F: "batch_futs b \<subseteq> F"
    and rest: "rest_ok F (map snd turns)" "\<forall>i s. (prog F)\<^sup>*\<^sup>* s (late i s)"
  shows "if min_nr > n \<or> min_nr > inflight b then r = opends_err OPENDS_INVALID_VALUE \<and> evs = [] \<and> bp = Some b \<and> s' = s
    else \<exists>b' js. r = opends_ok \<and> bp = Some b' \<and> ok s' \<and> batch_ok fut busy b' s' \<and>
      distinct js \<and> set js \<subseteq> live b \<and> live b' = live b - set js \<and>
      evs = map (\<lambda>i. event_of fut (entries b ! i) s') js \<and> length evs \<le> unat n \<and>
      (timeout = None \<longrightarrow> unat min_nr \<le> length evs) \<and>
      (length evs < unat n \<longrightarrow> {i \<in> live b. entry_done fut (entries b ! i) s} \<subseteq> set js) \<and>
      cookies_of b (live b) = mset (map ev_cookie evs) + cookies_of b' (live b')"
proof (cases "min_nr > n \<or> min_nr > inflight b")
  case True
  then show ?thesis
    using run by (auto simp: opends_batch_get_status_def)
next
  case False
  then obtain s1 out b' where w: "wait_ready fut b min_nr (map_option (batch_deadline now) timeout) turns s = Some s1"
    and c: "collect fut late (unat n) [0..<unat (used b)] b s1 [] = (out, b', s')"
    and out: "r = opends_ok" "evs = out" "bp = Some b'"
    using run by (auto simp: opends_batch_get_status_def split: option.splits prod.splits)
  note w1 = wait_ready_ok [OF w b ok F rest(1)]
  obtain js where h: "ok s'" "futures_kept fut busy F s1 s'" "batch_ok fut busy b' s'"
    "collected (unat n) (set [0..<unat (used b)]) b s1 [] js out b' s'"
    using collect_ok [OF c _ _ F rest(2)] w1 by auto
  have inter: "live b \<inter> set [0..<unat (used b)] = live b"
    by (auto simp: live_def)
  have c': "out = map (\<lambda>i. event_of fut (entries b ! i) s') js" "distinct js" "set js \<subseteq> live b" "live b' = live b - set js"
    "length out \<le> unat n" "length out < unat n \<longrightarrow> {i \<in> live b. entry_done fut (entries b ! i) s1} \<subseteq> set js"
    using h(4) unfolding collected_def inter by auto
  have mem: "e_future (entries b ! j) \<in> F" if "j \<in> live b" for j
    using that F batch_shapeD(2,6) [OF batch_okD(1) [OF b]] by (auto simp: live_def)
  have mono: "{i \<in> live b. entry_done fut (entries b ! i) s} \<subseteq> {i \<in> live b. entry_done fut (entries b ! i) s1}"
    using done_stays(1) [OF _ _ ok mem, of _ s1] w1 by blast
  have enough: "unat min_nr \<le> length out" if "timeout = None"
  proof (cases "length out < unat n")
    case True
    have "unat min_nr \<le> card {i \<in> live b. entry_done fut (entries b ! i) s1}"
      using w1 that by simp
    also have "\<dots> \<le> card (set js)"
      using c'(6) True by (intro card_mono) auto
    finally show ?thesis
      using c'(1,2) by (simp add: distinct_card)
  next
    case full: False
    then show ?thesis
      using False by (simp add: word_le_nat_alt word_less_nat_alt)
  qed
  then show ?thesis
    using False out h(1,3) c' mono collected_cookies [OF h(4)] by (auto intro!: exI [of _ js])
qed

section \<open>Cancellation and destruction\<close>

text \<open>Marking entry \<open>i\<close>, which is failed or done, as canceled.\<close>

lemma mark_canceled_ok:
  assumes b: "batch_ok fut busy b s" and i: "i \<in> live b"
    and d: "\<not> e_failed (entries b ! i) \<longrightarrow>
      \<not> busy s (e_future (entries b ! i)) \<and> fut_done (fut s (e_future (entries b ! i)))"
  defines "b' \<equiv> upd_entry i (\<lambda>e. e\<lparr>e_canceled := True\<rparr>) b"
  shows "batch_ok fut busy b' s" "live b' = live b" "batch_futs b' = batch_futs b"
    "cookies_of b' (live b') = cookies_of b (live b)"
proof -
  note sh = batch_shapeD [OF batch_okD(1) [OF b]]
  define e where "e = (entries b ! i)\<lparr>e_canceled := True\<rparr>"
  have iu: "i < unat (used b)" "i < length (entries b)"
    using i sh(2) by (auto simp: live_def)
  have b': "entries b' = (entries b)[i := e]" "used b' = used b" "inflight b' = inflight b" "capacity b' = capacity b"
    by (simp_all add: b'_def e_def)
  have del: "e_delivered (entries b' ! j) = e_delivered (entries b ! j)" "e_cookie (entries b' ! j) = e_cookie (entries b ! j)" for j
    using iu by (cases "j = i"; simp add: b' e_def)+
  show live': "live b' = live b"
    by (simp add: live_def b'(2) del(1))
  have futs: "map e_future (entries b') = map e_future (entries b)" "batch_futs b' = batch_futs b"
    using futs_update [OF _ b'(1)] by (simp_all add: e_def)
  then show "batch_futs b' = batch_futs b"
    by simp
  show "cookies_of b' (live b') = cookies_of b (live b)"
    unfolding live' by (rule cookies_cong) (rule del)
  have "length (entries b') = length (entries b)"
    by (simp add: b')
  then have "batch_shape b'"
    using batch_okD(1) [OF b] by (simp add: batch_shape_def live' futs b'(2-4))
  moreover have "entry_ok fut busy e s"
    using batch_okD(2) [OF b iu(1)] d by (auto simp: entry_ok_def e_def split: if_splits)
  ultimately show "batch_ok fut busy b' s"
    using b iu unfolding batch_ok_def by (auto simp: b' nth_list_update)
qed

text \<open>Awaiting an entry: a failed one is not awaited; any other has ended afterwards.\<close>

lemma await_entry:
  assumes aw: "(if \<not> e_failed (entries b ! i) then opends_async_await fut others (e_future (entries b ! i)) s else Some (0, s)) = Some (x, s1)"
    and b: "batch_ok fut busy b s" "ok s" "batch_futs b \<subseteq> F" and rest: "rest_ok F others" and i: "i < unat (used b)"
  shows "ok s1" "futures_kept fut busy F s s1" "batch_ok fut busy b s1" "\<not> busy s1 (e_future (entries b ! i))"
    "\<not> e_failed (entries b ! i) \<Longrightarrow> fut_done (fut s1 (e_future (entries b ! i)))" "e_future (entries b ! i) \<in> F"
proof -
  have p: "e_future (entries b ! i) \<noteq> 0" "e_future (entries b ! i) \<in> batch_futs b"
    using batch_shapeD(2,5,6) [OF batch_okD(1) [OF b(1)]] i by auto
  have "ok s1 \<and> futures_kept fut busy F s s1 \<and> \<not> busy s1 (e_future (entries b ! i)) \<and>
    (\<not> e_failed (entries b ! i) \<longrightarrow> fut_done (fut s1 (e_future (entries b ! i))))"
  proof (cases "e_failed (entries b ! i)")
    case True
    then show ?thesis
      using aw b(2) batch_okD(2) [OF b(1) i] by (simp add: entry_ok_def)
  next
    case False
    then have "opends_async_await fut others (e_future (entries b ! i)) s = Some (x, s1)"
      using aw by simp
    from await [OF this b(2) rest p(1)] show ?thesis
      by simp
  qed
  then show "ok s1" "futures_kept fut busy F s s1" "batch_ok fut busy b s1" "\<not> busy s1 (e_future (entries b ! i))"
    "\<not> e_failed (entries b ! i) \<Longrightarrow> fut_done (fut s1 (e_future (entries b ! i)))" "e_future (entries b ! i) \<in> F"
    using batch_kept [OF b(1) _ b(3,2)] p(2) b(3) by blast+
qed

lemma cancel_loop_ok:
  assumes "cancel_loop fut others is b s = Some (b', s')" "batch_ok fut busy b s" "ok s"
    and "batch_futs b \<subseteq> F" "\<forall>i. rest_ok F (others i)" "\<forall>i \<in> set is. i < unat (used b)"
  shows "ok s' \<and> batch_ok fut busy b' s' \<and> batch_futs b' = batch_futs b \<and> live b' = live b \<and>
    inflight b' = inflight b \<and> cookies_of b' (live b') = cookies_of b (live b) \<and>
    (\<forall>i \<in> live b. i \<in> set is \<or> e_canceled (entries b ! i) \<longrightarrow> e_canceled (entries b' ! i))"
  using assms
proof (induction "is" arbitrary: b s)
  case (Cons i "is")
  show ?case
  proof (cases "e_delivered (entries b ! i)")
    case True
    then have run: "cancel_loop fut others is b s = Some (b', s')"
      using Cons.prems(1) by (simp add: Let_def)
    have "i \<notin> live b"
      using True by (simp add: live_def)
    with Cons.IH [OF run Cons.prems(2-5)] Cons.prems(6) show ?thesis
      by auto
  next
    case False
    have il: "i \<in> live b"
      using False Cons.prems(6) by (simp add: live_def)
    have i: "i < length (entries b)"
      using batch_shapeD(2) [OF batch_okD(1) [OF Cons.prems(2)]] il by (simp add: live_def)
    obtain x s1 where aw: "(if \<not> e_failed (entries b ! i) then opends_async_await fut (others i) (e_future (entries b ! i)) s else Some (0, s)) = Some (x, s1)"
      and run: "cancel_loop fut others is (upd_entry i (\<lambda>e. e\<lparr>e_canceled := True\<rparr>) b) s1 = Some (b', s')"
      using Cons.prems(1) False by (auto simp: Let_def simp del: if_split split: option.splits)
    note s1 = await_entry [OF aw Cons.prems(2-4) spec [OF Cons.prems(5)] bspec [OF Cons.prems(6) list.set_intros(1)]]
    have m: "batch_ok fut busy (upd_entry i (\<lambda>e. e\<lparr>e_canceled := True\<rparr>) b) s1"
      "live (upd_entry i (\<lambda>e. e\<lparr>e_canceled := True\<rparr>) b) = live b"
      "batch_futs (upd_entry i (\<lambda>e. e\<lparr>e_canceled := True\<rparr>) b) = batch_futs b"
      "cookies_of (upd_entry i (\<lambda>e. e\<lparr>e_canceled := True\<rparr>) b) (live b) = cookies_of b (live b)"
      using mark_canceled_ok [OF s1(3) il] s1(4,5) by simp_all
    have marked: "e_canceled (entries (upd_entry i (\<lambda>e. e\<lparr>e_canceled := True\<rparr>) b) ! i)"
      "\<And>j. e_canceled (entries b ! j) \<Longrightarrow> e_canceled (entries (upd_entry i (\<lambda>e. e\<lparr>e_canceled := True\<rparr>) b) ! j)"
      using i by (auto simp: nth_list_update)
    have "batch_futs (upd_entry i (\<lambda>e. e\<lparr>e_canceled := True\<rparr>) b) \<subseteq> F"
      "\<forall>j \<in> set is. j < unat (used (upd_entry i (\<lambda>e. e\<lparr>e_canceled := True\<rparr>) b))"
      using m(3) Cons.prems(4,6) by simp_all
    from Cons.IH [OF run m(1) s1(1) this(1) Cons.prems(5) this(2)] m(2-4) marked show ?thesis
      by auto
  qed
qed simp

lemma cancel_ok:
  assumes run: "opends_batch_cancel fut others (Some b, s) = Some (r, bp, s')"
    and "batch_ok fut busy b s" "ok s" "batch_futs b \<subseteq> F" "\<forall>i. rest_ok F (others i)"
  shows "\<exists>b'. r = opends_ok \<and> bp = Some b' \<and> ok s' \<and> batch_ok fut busy b' s' \<and> batch_futs b' = batch_futs b \<and>
    inflight b' = inflight b \<and> cookies_of b' (live b') = cookies_of b (live b) \<and>
    (\<forall>i \<in> live b'. e_canceled (entries b' ! i) \<and> entry_done fut (entries b' ! i) s' \<and> \<not> busy s' (e_future (entries b' ! i)))"
proof -
  obtain b' where c: "cancel_loop fut others [0..<unat (used b)] b s = Some (b', s')" and out: "r = opends_ok" "bp = Some b'"
    using run by (auto simp: opends_batch_cancel_def split: option.splits)
  have "\<forall>i \<in> set [0..<unat (used b)]. i < unat (used b)"
    by simp
  note h = cancel_loop_ok [OF c assms(2-5) this]
  have "e_canceled (entries b' ! i) \<and> entry_done fut (entries b' ! i) s' \<and> \<not> busy s' (e_future (entries b' ! i))"
    if "i \<in> live b'" for i
  proof -
    have "e_canceled (entries b' ! i)"
      using h that by (auto simp: live_def)
    moreover have "entry_ok fut busy (entries b' ! i) s'"
      using h that by (intro batch_okD(2)) (auto simp: live_def)
    ultimately show ?thesis
      by (auto simp: entry_ok_def entry_done_def split: if_splits)
  qed
  then show ?thesis
    using h out by auto
qed

text \<open>When the memory of a batch is freed, no operation will write into it any more.\<close>

lemma destroy_loop_ok:
  assumes "destroy_loop fut others is b s = Some s'" "batch_ok fut busy b s" "ok s"
    and "batch_futs b \<subseteq> F" "\<forall>i. rest_ok F (others i)" "\<forall>i \<in> set is. i < unat (used b)"
  shows "ok s' \<and> futures_kept fut busy F s s' \<and> (\<forall>i \<in> set is. \<not> busy s' (e_future (entries b ! i)))"
  using assms
proof (induction "is" arbitrary: s)
  case (Cons i "is")
  obtain x s1 where aw: "(if \<not> e_failed (entries b ! i) then opends_async_await fut (others i) (e_future (entries b ! i)) s else Some (0, s)) = Some (x, s1)"
    and run: "destroy_loop fut others is b s1 = Some s'"
    using Cons.prems(1) by (auto simp: Let_def simp del: if_split split: option.splits)
  note s1 = await_entry [OF aw Cons.prems(2-4) spec [OF Cons.prems(5)] bspec [OF Cons.prems(6) list.set_intros(1)]]
  have tl: "\<forall>j \<in> set is. j < unat (used b)"
    using Cons.prems(6) by simp
  note h = Cons.IH [OF run s1(3,1) Cons.prems(4,5) tl]
  have "\<not> busy s' (e_future (entries b ! i))"
    using h s1(4,6) by (auto simp: futures_kept_def)
  then show ?case
    using h futs_kept_trans [OF s1(2) _ s1(1), of s'] by auto
qed simp

lemma destroy_ok:
  assumes run: "opends_batch_destroy fut others (Some b, s) = Some s'"
    and b: "batch_ok fut busy b s" and rest: "ok s" "batch_futs b \<subseteq> F" "\<forall>i. rest_ok F (others i)"
  shows "ok s' \<and> (\<forall>p \<in> batch_futs b. \<not> busy s' p)"
proof -
  have d: "destroy_loop fut others [0..<unat (used b)] b s = Some s'"
    using run by (simp add: opends_batch_destroy_def)
  have "\<forall>i \<in> set [0..<unat (used b)]. i < unat (used b)"
    by simp
  note h = destroy_loop_ok [OF d b rest this]
  have "\<not> busy s' (e_future (entries b ! i))" if "i < length (entries b)" for i
  proof (cases "i < unat (used b)")
    case True
    then show ?thesis
      using h by simp
  next
    case False
    then have "\<not> busy s (e_future (entries b ! i))"
      using batch_okD(3) [OF b _ that] by simp
    moreover have "e_future (entries b ! i) \<in> F"
      using rest(2) that by (auto simp: batch_futs_def)
    ultimately show ?thesis
      using h by (auto simp: futures_kept_def)
  qed
  then show ?thesis
    using h by (auto simp: batch_futs_def in_set_conv_nth)
qed

section \<open>Setup\<close>

lemma setup_ok:
  assumes "opends_batch_setup idp calloc_ok (Some ps) nr = (r, Some b)" "length ps = unat nr" "distinct ps"
    and "0 \<notin> set ps" "\<forall>p \<in> set ps. \<not> busy s p"
  shows "r = opends_ok \<and> batch_ok fut busy b s \<and> live b = {} \<and> capacity b = nr \<and> inflight b = 0 \<and> batch_futs b = set ps"
proof -
  have b: "r = opends_ok" "b = \<lparr>entries = map zero_entry ps, used = 0, inflight = 0, capacity = nr\<rparr>"
    using assms(1) by (auto simp: opends_batch_setup_def split: if_splits)
  have z: "e_future (zero_entry p) = p" for p
    by (simp add: zero_entry_def)
  have "map e_future (entries b) = ps"
    by (simp add: b z comp_def)
  then have "batch_shape b" "batch_futs b = set ps"
    using assms(2-4) by (simp_all add: batch_shape_def b batch_futs_def live_def z image_image)
  then show ?thesis
    using assms(5) by (auto simp: batch_ok_def b z live_def)
qed

end

end
