(* ===== verification/Sync_IO.thy ===== *)
theory Sync_IO
  imports Async_Contract
begin

text \<open>
  src/opends_sync_async.c: the synchronous calls on top of any backend that keeps the contract of
  theory Async_Contract. The future is on the caller's stack, at address \<open>p\<close>; \<open>others\<close> and \<open>waits\<close> are
  what the rest of the program does during the submission and at each turn of the wait.
\<close>

definition opends_sync_read ::
  "'s submit_fn \<Rightarrow> 's future_fn \<Rightarrow> ('s \<Rightarrow> 's) list \<Rightarrow> ('s \<Rightarrow> 's) list \<Rightarrow> registered_file option \<Rightarrow> ptr \<Rightarrow> u64 \<Rightarrow> u64 \<Rightarrow> u64
    \<Rightarrow> ptr \<Rightarrow> 's \<Rightarrow> (u64 \<times> 's) option" where
  "opends_sync_read submit fut others waits fh buf len file_off buf_off p s =
     (case submit others \<lparr>r_write = False, r_fh = fh, r_buf = buf, r_size = len,
             r_file_offset = file_off, r_buf_offset = buf_off\<rparr> p s of
        None \<Rightarrow> None
      | Some (e, s1) \<Rightarrow>
          if err e \<noteq> OPENDS_SUCCESS then Some (neg_err (err e), s1)
          else opends_async_await fut waits p s1)"

definition opends_sync_write ::
  "'s submit_fn \<Rightarrow> 's future_fn \<Rightarrow> ('s \<Rightarrow> 's) list \<Rightarrow> ('s \<Rightarrow> 's) list \<Rightarrow> registered_file option \<Rightarrow> ptr \<Rightarrow> u64 \<Rightarrow> u64 \<Rightarrow> u64
    \<Rightarrow> ptr \<Rightarrow> 's \<Rightarrow> (u64 \<times> 's) option" where
  "opends_sync_write submit fut others waits fh buf len file_off buf_off p s =
     (case submit others \<lparr>r_write = True, r_fh = fh, r_buf = buf, r_size = len,
             r_file_offset = file_off, r_buf_offset = buf_off\<rparr> p s of
        None \<Rightarrow> None
      | Some (e, s1) \<Rightarrow>
          if err e \<noteq> OPENDS_SUCCESS then Some (neg_err (err e), s1)
          else opends_async_await fut waits p s1)"

context async_service
begin

text \<open>
  When a synchronous call returns, no operation will write its stack frame any more, and it returns
  the negated error of the submission or the final result of the operation.
\<close>

lemma sync_ok:
  assumes run: "(case submit others r p s of
        None \<Rightarrow> None
      | Some (e, s1) \<Rightarrow>
          if err e \<noteq> OPENDS_SUCCESS then Some (neg_err (err e), s1)
          else opends_async_await fut waits p s1) = Some (x, s')"
    and "ok s" "\<not> busy s p" "p \<noteq> 0" "p \<in> F" "rest_ok F others" "rest_ok F waits"
  shows "ok s' \<and> \<not> busy s' p \<and> (\<exists>e s1. submit others r p s = Some (e, s1) \<and>
    (if err e \<noteq> OPENDS_SUCCESS then x = neg_err (err e) \<and> s' = s1 \<and> fut s' p = fut s p
     else fut_done (fut s' p) \<and> x = fut_result (fut s' p)))"
proof -
  obtain e s1 where sub: "submit others r p s = Some (e, s1)"
    using run by (auto split: option.splits)
  note l = submit [OF sub assms(2,3,5) assms(6) [unfolded rest_ok_def]]
  show ?thesis
  proof (cases "err e = OPENDS_SUCCESS")
    case False
    then show ?thesis
      using sub l run by auto
  next
    case True
    then have "opends_async_await fut waits p s1 = Some (x, s')"
      using run sub by simp
    then show ?thesis
      using True sub await [OF _ conjunct1 [OF l] assms(7,4)] by auto
  qed
qed

end

end
