(* ===== verification/Async_Api.thy ===== *)
theory Async_Api
  imports Io_Worker Batch_Correct Sync_IO
begin

text \<open>
  The asynchronous API of src/opends_aisio.c over all workers: \<open>route_op\<close>, \<open>claim_slot_locked\<close> and
  \<open>submit_async_op\<close>, with the I/O threads and other submitters running in between, and the proof that
  it keeps the contract of theory Async_Contract. The global \<open>drv\<close> is an option.
\<close>

record aisio_driver =
  workers :: "io_worker list"
  rr_next :: u32
  workers_ready :: bool
  geo :: nvme_geo

type_synonym aisio_sys = "aisio_driver option \<times> io_world"

section \<open>Submission\<close>

definition route_op :: "aisio_driver \<Rightarrow> nat \<times> aisio_driver" where
  "route_op d = (unat (rr_next d mod of_nat (length (workers d))), d\<lparr>rr_next := rr_next d + 1\<rparr>)"

text \<open>
  \<open>others\<close> is what the rest of the program does each time the lock is given up; \<open>None\<close> means that
  there still is no room after the last of them.
\<close>

fun claim_slot_locked :: "(aisio_sys \<Rightarrow> aisio_sys) list \<Rightarrow> aisio_sys \<Rightarrow> (nat \<times> aisio_driver \<times> io_world) option" where
  "claim_slot_locked others (None, wd) = None"
| "claim_slot_locked others (Some d, wd) =
     (case route_op d of (i, d1) \<Rightarrow>
        if has_room (workers d1 ! i) then Some (i, d1, wd)
        else (case others of
               [] \<Rightarrow> None
             | f # fs \<Rightarrow> claim_slot_locked fs (f (Some d1, wd))))"

declare claim_slot_locked.simps [simp del]

definition publish_op :: "nat \<Rightarrow> file_op_mode \<Rightarrow> bool \<Rightarrow> registered_file \<Rightarrow> ptr \<Rightarrow> aisio_driver \<Rightarrow> aisio_driver" where
  "publish_op i m wr h buf d = d\<lparr>workers := (workers d)[i := publish_slot (fill_slot m wr h buf (workers d ! i))]\<rparr>"

definition clear_future :: "ptr \<Rightarrow> io_world \<Rightarrow> io_world" where
  "clear_future p wd = wd\<lparr>futures := (futures wd)(p := zero_future)\<rparr>"

definition async_mode :: "async_request \<Rightarrow> ptr \<Rightarrow> file_op_mode" where
  "async_mode r p = FILE_OP_ASYNC \<lparr>req_size = r_size r, req_file_offset = r_file_offset r,
     req_buf_offset = r_buf_offset r, future = p\<rparr>"

definition submit_async_op :: "aisio_sys submit_fn" where
  "submit_async_op others r p s =
     (case s of
        (None, wd) \<Rightarrow> Some (opends_err OPENDS_DRIVER_NOT_INITIALIZED, s)
      | (Some d, wd) \<Rightarrow>
          (case r_fh r of
             None \<Rightarrow> Some (opends_err OPENDS_INVALID_VALUE, s)
           | Some h \<Rightarrow>
               if r_buf r = 0 \<or> p = 0 then Some (opends_err OPENDS_INVALID_VALUE, s)
               else if \<not> workers_ready d then Some (opends_err OPENDS_DEVICE_DRIVER_ERROR, s)
               else (case claim_slot_locked others (Some d, clear_future p wd) of
                      None \<Rightarrow> None
                    | Some (i, d1, wd1) \<Rightarrow>
                        Some (opends_ok, Some (publish_op i (async_mode r p) (r_write r) h (r_buf r) d1), wd1))))"

definition opends_async_read ::
  "(aisio_sys \<Rightarrow> aisio_sys) list \<Rightarrow> registered_file option \<Rightarrow> ptr \<Rightarrow> u64 \<Rightarrow> u64 \<Rightarrow> u64 \<Rightarrow> ptr \<Rightarrow> aisio_sys \<Rightarrow> (opends_error \<times> aisio_sys) option"
  where "opends_async_read others fh buf n file_off buf_off fut s =
     submit_async_op others \<lparr>r_write = False, r_fh = fh, r_buf = buf, r_size = n, r_file_offset = file_off,
       r_buf_offset = buf_off\<rparr> fut s"

definition opends_async_write ::
  "(aisio_sys \<Rightarrow> aisio_sys) list \<Rightarrow> registered_file option \<Rightarrow> ptr \<Rightarrow> u64 \<Rightarrow> u64 \<Rightarrow> u64 \<Rightarrow> ptr \<Rightarrow> aisio_sys \<Rightarrow> (opends_error \<times> aisio_sys) option"
  where "opends_async_write others fh buf n file_off buf_off fut s =
     submit_async_op others \<lparr>r_write = True, r_fh = fh, r_buf = buf, r_size = n, r_file_offset = file_off,
       r_buf_offset = buf_off\<rparr> fut s"

text \<open>The futures, and how a caller clears one of its own.\<close>

definition aisio_fut :: "aisio_sys future_fn" where
  "aisio_fut s p = futures (snd s) p"

definition aisio_reset :: "ptr \<Rightarrow> aisio_sys \<Rightarrow> aisio_sys" where
  "aisio_reset p s = (fst s, clear_future p (snd s))"

section \<open>The futures of the operations in the rings\<close>

definition fut_of :: "qop \<Rightarrow> ptr multiset" where
  "fut_of q = (if op_state (q_op q) = FILE_OP_FREE then {#}
     else case op_mode (q_op q) of FILE_OP_ASYNC a \<Rightarrow> {#future a#} | FILE_OP_STREAM s \<Rightarrow> {#})"

definition worker_futs :: "io_worker \<Rightarrow> ptr multiset" where
  "worker_futs w = sum_list (map fut_of (file_op_queue w))"

definition driver_futs :: "aisio_driver \<Rightarrow> ptr multiset" where
  "driver_futs d = sum_list (map worker_futs (workers d))"

lemma sum_list_update_add:
  fixes f :: "'a \<Rightarrow> 'b::cancel_comm_monoid_add"
  shows "i < length xs \<Longrightarrow> sum_list (map f (xs[i := y])) + f (xs ! i) = sum_list (map f xs) + f y"
proof (induction xs arbitrary: i)
  case (Cons x xs)
  then show ?case
    by (cases i) (simp_all add: ac_simps)
qed simp

text \<open>\<open>settles P wd wd'\<close>: the futures in \<open>P\<close> are done in \<open>wd'\<close>, and no other has changed.\<close>

definition settles :: "ptr multiset \<Rightarrow> io_world \<Rightarrow> io_world \<Rightarrow> bool" where
  "settles P wd wd' \<longleftrightarrow>
     (\<forall>p. p \<notin># P \<longrightarrow> futures wd' p = futures wd p) \<and> (\<forall>p \<in># P. fut_done (futures wd' p))"

lemma settles_refl [simp]: "futures wd' = futures wd \<Longrightarrow> settles {#} wd wd'"
  by (simp add: settles_def)

lemma settles_trans: "settles P wd wd1 \<Longrightarrow> settles Q wd1 wd2 \<Longrightarrow> settles (P + Q) wd wd2"
  unfolding settles_def by (metis union_iff)

lemma settles_complete: "futures wd' = (futures wd)(p := \<lparr>fut_done = True, fut_result = r\<rparr>) \<Longrightarrow> settles {#p#} wd wd'"
  by (simp add: settles_def)

definition futs_step :: "io_worker \<Rightarrow> io_world \<Rightarrow> io_worker \<Rightarrow> io_world \<Rightarrow> bool" where
  "futs_step w wd w' wd' \<longleftrightarrow> (\<exists>P. worker_futs w = P + worker_futs w' \<and> settles P wd wd')"

lemma futs_step_trans: "futs_step w wd w1 wd1 \<Longrightarrow> futs_step w1 wd1 w2 wd2 \<Longrightarrow> futs_step w wd w2 wd2"
  unfolding futs_step_def by (metis settles_trans add.assoc)

lemma futs_step_refl: "worker_futs w' = worker_futs w \<Longrightarrow> futures wd' = futures wd \<Longrightarrow> futs_step w wd w' wd'"
  by (auto simp: futs_step_def intro!: exI [of _ "{#}"])

lemma poked_fut: "poked q q' \<Longrightarrow> fut_of q' = fut_of q"
  by (simp add: poked_def fut_of_def)

lemma poke_futs [simp]: "worker_futs (worker_poke lba xs w) = worker_futs w"
proof -
  have rel: "slots_rel (\<lambda>_. poked) w (worker_poke lba xs w)"
    by (rule poke_slots)
  then have "map fut_of (file_op_queue (worker_poke lba xs w)) = map fut_of (file_op_queue w)"
    by (intro nth_equalityI) (auto simp: slots_rel_def poked_fut)
  then show ?thesis
    by (simp add: worker_futs_def)
qed

lemma retire_futs [simp]: "worker_futs (retire head w) = worker_futs w"
  by (simp add: worker_futs_def retire_def)

lemma set_slot_futs:
  "length (file_op_queue w) = 1024 \<Longrightarrow>
   worker_futs (set_slot i q w) + fut_of (slot_at w i) = worker_futs w + fut_of q"
  using slot_of_less [of i] by (simp add: worker_futs_def set_slot_def slot_at_def sum_list_update_add)

text \<open>Completing an operation settles its future, and nothing else touches futures.\<close>

definition op_futs :: "file_op \<Rightarrow> ptr multiset" where
  "op_futs op = (case op_mode op of FILE_OP_ASYNC a \<Rightarrow> {#future a#} | FILE_OP_STREAM s \<Rightarrow> {#})"

lemma world_futures [simp]:
  "futures (store_cell p x wd) = futures wd" "futures (upd_stream i f wd) = futures wd"
  "futures (release_gate i sq wd) = futures wd" "futures (wd\<lparr>mem := m\<rparr>) = futures wd"
  "futures (async_future_complete p r wd) = (futures wd)(p := \<lparr>fut_done = True, fut_result = r\<rparr>)"
  by (simp_all add: store_cell_def upd_stream_def release_gate_def async_future_complete_def)

lemma dispatch_write_futs: "settles (op_futs op) wd (snd (dispatch_write pw op wd))"
  by (cases "op_mode op") (auto simp: dispatch_write_def Let_def op_futs_def settles_def)

lemma complete_futs: "settles (op_futs op) wd (snd (complete_read_op copy op wd))"
  by (cases "op_mode op") (auto simp: complete_read_op_def Let_def op_futs_def settles_def split: prod.splits)

lemma dispatch_read_futs: "dispatch_read g env op wd = Some (q', wd') \<Longrightarrow> futures wd' = futures wd"
  by (auto simp: dispatch_read_def Let_def split: option.splits file_op_mode.splits)

lemma dispatch_pending_futs:
  assumes "dispatch_pending g pw env (q_op q) wd = Some (q', wd')" "op_shape q" "op_state (q_op q) = FILE_OP_PENDING"
  shows "\<exists>P. fut_of q = P + fut_of q' \<and> settles P wd wd'"
proof (cases "is_write (q_op q)")
  case True
  obtain op1 wd1 where d: "dispatch_write pw (q_op q) wd = (op1, wd1)"
    by fastforce
  then have "fut_of q' = {#}" "wd' = wd1"
    using assms(1) True dispatch_write_state [OF d] by (auto simp: dispatch_pending_def fut_of_def)
  then show ?thesis
    using dispatch_write_futs [of "q_op q" wd pw] assms(3) d by (auto simp: fut_of_def op_futs_def)
next
  case False
  then have d: "dispatch_read g env (q_op q) wd = Some (q', wd')"
    using assms(1) by (simp add: dispatch_pending_def)
  have "length (bounces (q_op q)) = BOUNCE_SLOTS"
    using assms(2) by (simp add: op_shape_def)
  then have "fut_of q' = fut_of q"
    using dispatch_read_state [OF d] assms(3) by (simp add: fut_of_def)
  then show ?thesis
    using dispatch_read_futs [OF d] by (intro exI [of _ "{#}"]) simp
qed

lemma visit_futs:
  assumes res: "visit g env i w wd = Some (b, w', wd')" and ok: "worker_ok w"
  shows "futs_step w wd w' wd'"
proof -
  define q where "q = slot_at w i"
  have len: "length (file_op_queue w) = 1024"
    using ok by (simp add: worker_ok_def ring_ok_def queue_size)
  have shape: "op_shape q"
    unfolding q_def by (rule slot_shape [OF ok])
  have stored: "futs_step w wd (set_slot i q' w) wd1" if "fut_of q = P + fut_of q'" "settles P wd wd1" for q' P wd1
  proof -
    have "worker_futs (set_slot i q' w) + fut_of q = worker_futs w + fut_of q'"
      using set_slot_futs [OF len, of i q'] by (simp add: q_def)
    then have "worker_futs w = P + worker_futs (set_slot i q' w)"
      using that(1) by (simp add: ac_simps)
    then show ?thesis
      using that(2) by (auto simp: futs_step_def)
  qed
  show ?thesis
    using res
  proof (cases rule: visit_cases)
    case same
    then show ?thesis
      by (simp add: futs_step_refl)
  next
    case (dispatched q')
    then show ?thesis
      using dispatch_pending_futs [of g "v_write env" "v_read env" q wd q' wd'] shape stored
      by (fastforce simp: futs_step_def q_def)
  next
    case (reaped op1)
    have "\<exists>P. fut_of q = P + fut_of (q\<lparr>q_op := op1\<rparr>) \<and> settles P wd wd'"
    proof (cases "chunks_remaining (q_op q) = 0 \<and> bounces_outstanding (q_op q) = 0")
      case True
      then have c: "complete_read_op (v_copy env) (q_op q) wd = (op1, wd')"
        using reaped(2) by (simp add: reap_in_flight_def q_def)
      then have "op_state op1 = FILE_OP_FREE"
        using complete_op [of "v_copy env" "q_op q" wd] by simp
      then show ?thesis
        using complete_futs [of "q_op q" wd "v_copy env"] c reaped(1) by (auto simp: fut_of_def op_futs_def q_def)
    next
      case False
      then have "op1 = q_op q" "wd' = wd"
        using reaped(2) by (auto simp: reap_in_flight_def q_def split: if_splits)
      then show ?thesis
        by (intro exI [of _ "{#}"]) simp
    qed
    then show ?thesis
      unfolding reaped(3) using stored by (simp add: q_def) blast
  qed
qed

lemma scan_futs:
  assumes "scan g env head i busy w wd = Some (b, w', wd')" "worker_ok w"
  shows "futs_step w wd w' wd' \<and> worker_ok w'"
  using assms
proof (induction g env head i busy w wd rule: scan.induct)
  case (1 g env head i busy w wd)
  show ?case
  proof (cases "i = head")
    case True
    then show ?thesis
      using 1 by (auto simp: scan.simps futs_step_refl)
  next
    case False
    then obtain b1 w1 wd1 where one: "visit g (env i) i w wd = Some (b1, w1, wd1)"
      and rest: "scan g env head (i + 1) (busy \<or> b1) w1 wd1 = Some (b, w', wd')"
      using 1(2) by (subst (asm) scan.simps) (auto split: option.splits)
    have "futs_step w1 wd1 w' wd' \<and> worker_ok w'"
      by (rule 1(1) [OF False one _ _ rest visit_ok [OF one 1(3)]]) (rule refl)+
    then show ?thesis
      using futs_step_trans [OF visit_futs [OF one 1(3)]] by blast
  qed
qed

lemma io_pass_futs:
  assumes "io_pass g env pokes stop head w wd = Some (leave, w', wd')" "worker_ok w"
  shows "futs_step w wd w' wd'"
proof -
  obtain busy w1 where scan: "scan g env head (queue_tail w) False w wd = Some (busy, w1, wd')"
    and "worker_futs w' = worker_futs w1"
    using assms(1) unfolding io_pass_def Let_def
    by (auto split: option.splits if_splits) (metis retire_futs)+
  then show ?thesis
    using scan_futs [OF scan assms(2)] by (simp add: futs_step_def)
qed

section \<open>The driver\<close>

definition mode_futs :: "file_op_mode \<Rightarrow> ptr multiset" where
  "mode_futs m = (case m of FILE_OP_ASYNC a \<Rightarrow> {#future a#} | FILE_OP_STREAM s \<Rightarrow> {#})"

lemma publish_futs:
  assumes "worker_ok w" "has_room w"
  shows "worker_futs (publish_slot (fill_slot m wr h buf w)) = worker_futs w + mode_futs m"
    "worker_ok (publish_slot (fill_slot m wr h buf w))"
proof -
  let ?q = "slot_at w (queue_head w)"
  let ?w = "publish_slot (fill_slot m wr h buf w)"
  have ok: "ring_ok w"
    using assms(1) by (simp add: worker_ok_def)
  have len: "length (file_op_queue w) = 1024"
    using ring_okD(1) [OF ok] .
  have queue: "file_op_queue ?w = (file_op_queue w)[slot_of (queue_head w) := upd_op (pending_op m wr h buf) ?q]"
    using slot_of_less [of "queue_head w"] len
    by (simp add: publish_slot_def fill_slot_def set_slot_def slot_at_def upd_op_def pending_op_def)
  have "fut_of ?q = {#}"
    using submit_ring(3) [OF ok assms(2)] by (simp add: fut_of_def)
  moreover have "fut_of (upd_op (pending_op m wr h buf) ?q) = mode_futs m"
    by (simp add: fut_of_def mode_futs_def upd_op_def pending_op_def fill_op_def)
  moreover have "worker_futs ?w + fut_of ?q = worker_futs w + fut_of (upd_op (pending_op m wr h buf) ?q)"
    unfolding worker_futs_def queue
    using sum_list_update_add [of "slot_of (queue_head w)" "file_op_queue w" fut_of] slot_of_less [of "queue_head w"] len
    by (simp add: slot_at_def)
  ultimately show "worker_futs ?w = worker_futs w + mode_futs m"
    by simp
  have "op_shape (upd_op (pending_op m wr h buf) ?q)"
    using slot_shape [OF assms(1), of "queue_head w"] by (simp add: op_shape_def upd_op_def pending_op_def fill_op_def)
  then have "\<forall>q \<in> set (file_op_queue ?w). op_shape q"
    using assms(1) set_update_subset_insert [of "file_op_queue w"] unfolding queue by (auto simp: worker_ok_def)
  then show "worker_ok ?w"
    using submit_ring(2) [OF ok assms(2)] by (simp add: worker_ok_def)
qed

definition driver_ok :: "aisio_driver \<Rightarrow> bool" where
  "driver_ok d \<longleftrightarrow> (\<forall>w \<in> set (workers d). worker_ok w) \<and> length (workers d) < 2 ^ 32 \<and>
     (workers_ready d \<longrightarrow> workers d \<noteq> [])"

lemma driver_ok_update:
  assumes "driver_ok d" "worker_ok w"
  shows "driver_ok (d\<lparr>workers := (workers d)[i := w]\<rparr>)"
proof -
  have "worker_ok v" if "v \<in> set ((workers d)[i := w])" for v
    using that assms subsetD [OF set_update_subset_insert that] by (auto simp: driver_ok_def)
  then show ?thesis
    using assms(1) by (auto simp: driver_ok_def)
qed

lemma driver_futs_update:
  assumes "i < length (workers d)"
  shows "driver_futs (d\<lparr>workers := (workers d)[i := w]\<rparr>) + worker_futs (workers d ! i) = driver_futs d + worker_futs w"
  using sum_list_update_add [OF assms, of worker_futs w] by (simp add: driver_futs_def)

lemma publish_op_futs:
  assumes "driver_ok d" "i < length (workers d)" "has_room (workers d ! i)"
  shows "driver_futs (publish_op i m wr h buf d) = driver_futs d + mode_futs m" "driver_ok (publish_op i m wr h buf d)"
proof -
  have w: "worker_ok (workers d ! i)"
    using assms(1,2) by (simp add: driver_ok_def)
  show "driver_futs (publish_op i m wr h buf d) = driver_futs d + mode_futs m"
    using driver_futs_update [OF assms(2), of "publish_slot (fill_slot m wr h buf (workers d ! i))"]
    by (simp add: publish_op_def publish_futs(1) [OF w assms(3)] ac_simps)
  show "driver_ok (publish_op i m wr h buf d)"
    unfolding publish_op_def by (rule driver_ok_update [OF assms(1) publish_futs(2) [OF w assms(3)]])
qed

lemma route_op_simps [simp]:
  "workers (snd (route_op d)) = workers d" "driver_futs (snd (route_op d)) = driver_futs d"
  "driver_ok (snd (route_op d)) = driver_ok d" "workers_ready (snd (route_op d)) = workers_ready d"
  by (simp_all add: route_op_def driver_futs_def driver_ok_def)

lemma route_op_less:
  assumes "workers d \<noteq> []" "length (workers d) < 2 ^ 32"
  shows "fst (route_op d) < length (workers d)" "fst (route_op d) = unat (rr_next d) mod length (workers d)"
proof -
  have "unat (of_nat (length (workers d)) :: u32) = length (workers d)"
    by (rule unat_of_nat_u32 [OF assms(2)])
  then show "fst (route_op d) = unat (rr_next d) mod length (workers d)"
    by (simp add: route_op_def unat_mod_distrib)
  then show "fst (route_op d) < length (workers d)"
    using assms(1) by simp
qed

section \<open>What the rest of the program does\<close>

definition sys_futs :: "aisio_sys \<Rightarrow> ptr multiset" where
  "sys_futs s = (case fst s of None \<Rightarrow> {#} | Some d \<Rightarrow> driver_futs d)"

definition aisio_busy :: "aisio_sys \<Rightarrow> ptr \<Rightarrow> bool" where
  "aisio_busy s p \<longleftrightarrow> p \<in># sys_futs s"

text \<open>No future belongs to two operations, and none of an operation that is under way is done.\<close>

definition aisio_ok :: "aisio_sys \<Rightarrow> bool" where
  "aisio_ok s \<longleftrightarrow> (\<forall>d. fst s = Some d \<longrightarrow> driver_ok d) \<and>
     (\<forall>p. count (sys_futs s) p \<le> 1) \<and> (\<forall>p. p \<in># sys_futs s \<longrightarrow> \<not> fut_done (aisio_fut s p))"

text \<open>
  A step of another thread, for a caller that owns the futures in \<open>F\<close>: a pass of an I/O thread over
  the operations it found; a turn of another submitter's \<open>route_op\<close>; the publication of another
  submitter's operation, whose future is its own; and any change of memory. \<open>E\<close> says what the visits
  of a pass may meet; \<open>aisio_step\<close> admits everything.
\<close>

inductive env_step :: "(visit_env \<Rightarrow> bool) \<Rightarrow> ptr set \<Rightarrow> aisio_sys \<Rightarrow> aisio_sys \<Rightarrow> bool" for E F where
  pass: "i < length (workers d) \<Longrightarrow> n \<le> ring_len (workers d ! i) \<Longrightarrow>
    io_pass (geo d) env pokes stop (queue_tail (workers d ! i) + of_nat n) (workers d ! i) wd = Some (leave, w', wd') \<Longrightarrow>
    (\<forall>k. E (env k)) \<Longrightarrow>
    env_step E F (Some d, wd) (Some (d\<lparr>workers := (workers d)[i := w']\<rparr>), wd')"
| route: "env_step E F (Some d, wd) (Some (snd (route_op d)), wd)"
| publish: "i < length (workers d) \<Longrightarrow> has_room (workers d ! i) \<Longrightarrow>
    (\<forall>p. p \<in># mode_futs m \<longrightarrow> p \<notin> F \<and> p \<notin># driver_futs d \<and> \<not> fut_done (futures wd p)) \<Longrightarrow>
    env_step E F (Some d, wd) (Some (publish_op i m wr h buf d), wd)"
| memory: "(\<forall>p. p \<in> F \<or> p \<in># sys_futs (dp, wd) \<longrightarrow> futures wd' p = futures wd p) \<Longrightarrow>
    env_step E F (dp, wd) (dp, wd')"

abbreviation aisio_step :: "ptr set \<Rightarrow> aisio_sys \<Rightarrow> aisio_sys \<Rightarrow> bool" where
  "aisio_step \<equiv> env_step (\<lambda>_. True)"

lemma env_step_aisio: "env_step E F s s' \<Longrightarrow> aisio_step F s s'"
  by (induction rule: env_step.induct) (auto intro: env_step.intros)

lemma env_steps_aisio: "(env_step E F)\<^sup>*\<^sup>* s s' \<Longrightarrow> (aisio_step F)\<^sup>*\<^sup>* s s'"
  by (rule mono_rtranclp [rule_format, of "env_step E F"]) (auto dest: env_step_aisio)

lemma mode_futs_count: "count (mode_futs m) p \<le> 1"
  by (simp add: mode_futs_def split: file_op_mode.split)

lemma io_pass_driver:
  assumes "driver_ok d" "i < length (workers d)" "n \<le> ring_len (workers d ! i)"
    and "io_pass (geo d) env pokes stop (queue_tail (workers d ! i) + of_nat n) (workers d ! i) wd = Some (leave, w', wd')"
  shows "driver_ok (d\<lparr>workers := (workers d)[i := w']\<rparr>)"
    "\<exists>P. driver_futs d = P + driver_futs (d\<lparr>workers := (workers d)[i := w']\<rparr>) \<and> settles P wd wd'"
proof -
  have w: "worker_ok (workers d ! i)"
    using assms(1,2) by (simp add: driver_ok_def)
  have "worker_ok w'"
    using io_pass_result [OF w _ refl assms(4)] assms(3) by simp
  then show "driver_ok (d\<lparr>workers := (workers d)[i := w']\<rparr>)"
    by (rule driver_ok_update [OF assms(1)])
  obtain P where P: "worker_futs (workers d ! i) = P + worker_futs w'" "settles P wd wd'"
    using io_pass_futs [OF assms(4) w] by (auto simp: futs_step_def)
  have "driver_futs d = P + driver_futs (d\<lparr>workers := (workers d)[i := w']\<rparr>)"
    using driver_futs_update [OF assms(2), of w'] P(1) by (simp add: ac_simps)
  then show "\<exists>P. driver_futs d = P + driver_futs (d\<lparr>workers := (workers d)[i := w']\<rparr>) \<and> settles P wd wd'"
    using P(2) by blast
qed

text \<open>A pass settles the futures it takes from the rings; publishing an operation adds a free one.\<close>

lemma pass_step_ok:
  assumes s: "aisio_ok (Some d, wd)" and p: "driver_ok d'" "driver_futs d = P + driver_futs d'" "settles P wd wd'"
  shows "aisio_ok (Some d', wd')" "futures_kept aisio_fut aisio_busy F (Some d, wd) (Some d', wd')"
proof -
  have one: "count P q + count (driver_futs d') q \<le> 1" for q
    using s p(2) by (simp add: aisio_ok_def sys_futs_def)
  have excl: "q \<notin># P" if "q \<in># driver_futs d'" for q
    using one [of q] that by (auto simp flip: count_greater_zero_iff)
  show "aisio_ok (Some d', wd')"
    unfolding aisio_ok_def
  proof (intro conjI allI impI)
    show "driver_ok e" if "fst (Some d', wd') = Some e" for e
      using that p(1) by simp
    show "count (sys_futs (Some d', wd')) q \<le> 1" for q
      using one [of q] by (simp add: sys_futs_def)
    show "\<not> fut_done (aisio_fut (Some d', wd') q)" if "q \<in># sys_futs (Some d', wd')" for q
      using that excl [of q] p s by (auto simp: aisio_ok_def sys_futs_def aisio_fut_def settles_def)
  qed
  show "futures_kept aisio_fut aisio_busy F (Some d, wd) (Some d', wd')"
    using p by (auto simp: futures_kept_def aisio_busy_def sys_futs_def aisio_fut_def settles_def)
qed

lemma publish_step_ok:
  assumes s: "aisio_ok (Some d, wd)" and p: "driver_ok d'" "driver_futs d' = driver_futs d + mode_futs m"
    and m: "\<forall>q \<in># mode_futs m. q \<notin># driver_futs d \<and> \<not> fut_done (futures wd q)"
  shows "aisio_ok (Some d', wd)"
  unfolding aisio_ok_def
proof (intro conjI allI impI)
  show "driver_ok e" if "fst (Some d', wd) = Some e" for e
    using that p(1) by simp
  show "count (sys_futs (Some d', wd)) q \<le> 1" for q
  proof (cases "q \<in># mode_futs m")
    case True
    then have "count (driver_futs d) q = 0"
      using m by (simp add: not_in_iff)
    then show ?thesis
      using mode_futs_count [of m q] p(2) by (simp add: sys_futs_def)
  next
    case False
    then show ?thesis
      using s p(2) by (simp add: aisio_ok_def sys_futs_def not_in_iff)
  qed
  show "\<not> fut_done (aisio_fut (Some d', wd) q)" if "q \<in># sys_futs (Some d', wd)" for q
    using that m s p(2) by (auto simp: aisio_ok_def sys_futs_def aisio_fut_def)
qed

lemma aisio_step_ok:
  assumes "aisio_step F s s'" "aisio_ok s"
  shows "aisio_ok s' \<and> futures_kept aisio_fut aisio_busy F s s'"
  using assms(1)
proof (cases rule: env_step.cases)
  case (pass i d n env pokes stop wd leave w' wd')
  have d: "driver_ok d"
    using assms(2) pass(1) by (simp add: aisio_ok_def)
  note p = io_pass_driver [OF d pass(3-5)]
  then show ?thesis
    using pass_step_ok [OF assms(2) [unfolded pass(1)] p(1)] pass(1,2) by blast
next
  case (route d wd)
  then show ?thesis
    using assms(2) by (auto simp: aisio_ok_def sys_futs_def aisio_fut_def futures_kept_def aisio_busy_def)
next
  case (publish i d m wd wr h buf)
  have d: "driver_ok d"
    using assms(2) publish(1) by (simp add: aisio_ok_def)
  note p = publish_op_futs [OF d publish(3,4), of m wr h buf]
  have "aisio_ok s'"
    using publish_step_ok [OF assms(2) [unfolded publish(1)] p(2,1)] publish(2,5) by blast
  moreover have "futures_kept aisio_fut aisio_busy F s s'"
    using publish(1,2,5) p(1) by (auto simp: futures_kept_def aisio_busy_def sys_futs_def aisio_fut_def)
  ultimately show ?thesis
    by simp
next
  case (memory dp wd wd')
  then show ?thesis
    using assms(2) by (auto simp: aisio_ok_def sys_futs_def aisio_fut_def futures_kept_def aisio_busy_def)
qed

section \<open>The contract\<close>

lemma busy_not_done: "aisio_ok s \<Longrightarrow> \<forall>p. aisio_busy s p \<longrightarrow> \<not> fut_done (aisio_fut s p)"
  by (simp add: aisio_ok_def aisio_busy_def)

lemma aisio_steps_ok:
  "(aisio_step F)\<^sup>*\<^sup>* s s' \<Longrightarrow> aisio_ok s \<Longrightarrow> aisio_ok s' \<and> futures_kept aisio_fut aisio_busy F s s'"
proof (induction rule: rtranclp_induct)
  case (step s1 s2)
  then show ?case
    using aisio_step_ok [of F s1 s2] futures_kept_trans [of aisio_fut aisio_busy F s s1 s2] busy_not_done [of s1]
    by blast
qed simp

text \<open>What stays fixed of a driver while it is open.\<close>

definition same_setup :: "aisio_driver \<Rightarrow> aisio_driver \<Rightarrow> bool" where
  "same_setup d d' \<longleftrightarrow> length (workers d') = length (workers d) \<and> workers_ready d' = workers_ready d \<and> geo d' = geo d"

lemma aisio_step_setup: "aisio_step F s s' \<Longrightarrow> fst s = Some d \<Longrightarrow> \<exists>d'. fst s' = Some d' \<and> same_setup d d'"
  by (induction rule: env_step.induct) (auto simp: same_setup_def publish_op_def route_op_def)

lemma aisio_steps_setup: "(aisio_step F)\<^sup>*\<^sup>* s s' \<Longrightarrow> fst s = Some d \<Longrightarrow> \<exists>d'. fst s' = Some d' \<and> same_setup d d'"
proof (induction rule: rtranclp_induct)
  case (step s1 s2)
  then obtain d1 where d1: "fst s1 = Some d1" "same_setup d d1"
    by blast
  with aisio_step_setup [OF step(2) this(1)] show ?case
    by (auto simp: same_setup_def)
qed (simp add: same_setup_def)

text \<open>A successful claim is a number of steps of others and the claimed worker has room.\<close>

lemma claim_steps:
  assumes "claim_slot_locked others (Some d, wd) = Some (i, d', wd')" "aisio_ok (Some d, wd)" "workers d \<noteq> []"
    and "\<forall>f \<in> set others. \<forall>s. (aisio_step F)\<^sup>*\<^sup>* s (f s)"
  shows "(aisio_step F)\<^sup>*\<^sup>* (Some d, wd) (Some d', wd') \<and> i < length (workers d') \<and> has_room (workers d' ! i)"
  using assms
proof (induction others arbitrary: d wd)
  case Nil
  have "driver_ok d"
    using Nil(2) by (simp add: aisio_ok_def)
  then have "fst (route_op d) < length (workers d)"
    using route_op_less(1) [OF Nil(3)] by (simp add: driver_ok_def)
  then show ?case
    using Nil(1) env_step.route [of "\<lambda>_. True" F d wd]
    by (auto simp: claim_slot_locked.simps split: prod.splits if_splits)
      (metis fst_conv route_op_simps(1) snd_conv)+
next
  case (Cons f fs)
  have ok: "driver_ok d"
    using Cons.prems(2) by (simp add: aisio_ok_def)
  obtain j d1 where r: "route_op d = (j, d1)"
    by fastforce
  have j: "j < length (workers d1)" "workers d1 \<noteq> []"
    using route_op_less(1) [OF Cons.prems(3)] ok r route_op_simps(1) [of d] Cons.prems(3) by (simp_all add: driver_ok_def)
  have st: "aisio_step F (Some d, wd) (Some d1, wd)"
    using env_step.route [of "\<lambda>_. True" F d wd] r by simp
  show ?case
  proof (cases "has_room (workers d1 ! j)")
    case True
    then have "i = j" "d' = d1" "wd' = wd"
      using Cons.prems(1) r by (auto simp: claim_slot_locked.simps)
    then show ?thesis
      using st j(1) True by auto
  next
    case False
    then have run: "claim_slot_locked fs (f (Some d1, wd)) = Some (i, d', wd')"
      using Cons.prems(1) r by (auto simp: claim_slot_locked.simps)
    have fst: "(aisio_step F)\<^sup>*\<^sup>* (Some d1, wd) (f (Some d1, wd))"
      using Cons.prems(4) by simp
    obtain d2 where d2: "fst (f (Some d1, wd)) = Some d2" "same_setup d1 d2"
      using aisio_steps_setup [OF fst] by auto
    then obtain wd2 where f: "f (Some d1, wd) = (Some d2, wd2)"
      by (cases "f (Some d1, wd)") auto
    have "aisio_ok (Some d1, wd)"
      using aisio_step_ok [OF st Cons.prems(2)] by simp
    then have "aisio_ok (Some d2, wd2)"
      using aisio_steps_ok [OF fst] f by simp
    moreover have "workers d2 \<noteq> []"
      using d2(2) j(2) by (auto simp: same_setup_def)
    ultimately have "(aisio_step F)\<^sup>*\<^sup>* (Some d2, wd2) (Some d', wd') \<and> i < length (workers d') \<and> has_room (workers d' ! i)"
      using Cons.IH run f Cons.prems(4) by simp
    then show ?thesis
      using converse_rtranclp_into_rtranclp [of "aisio_step F", OF st rtranclp_trans [OF fst [unfolded f]]] by blast
  qed
qed

lemma clear_future_step: "p \<notin> F \<Longrightarrow> p \<notin># sys_futs (dp, wd) \<Longrightarrow> aisio_step F (dp, wd) (dp, clear_future p wd)"
  by (rule env_step.memory) (auto simp: clear_future_def)

lemma submit_async_op_ok:
  assumes "submit_async_op others r p s = Some (e, s')" "aisio_ok s" "\<not> aisio_busy s p" "p \<in> F"
    and "\<forall>f \<in> set others. \<forall>s. (aisio_step F)\<^sup>*\<^sup>* s (f s)"
  shows "aisio_ok s' \<and> futures_kept aisio_fut aisio_busy (F - {p}) s s' \<and>
    (if err e = OPENDS_SUCCESS then aisio_busy s' p \<or> fut_done (aisio_fut s' p)
     else \<not> aisio_busy s' p \<and> aisio_fut s' p = aisio_fut s p)"
proof (cases "err e = OPENDS_SUCCESS")
  case False
  then have "s' = s"
    using assms(1) by (auto simp: submit_async_op_def opends_ok_def split: option.splits prod.splits if_splits)
  then show ?thesis
    using False assms(2,3) by simp
next
  case True
  obtain d wd h i d1 wd1 where s: "s = (Some d, wd)" "r_fh r = Some h" "workers_ready d"
    and claim: "claim_slot_locked others (Some d, clear_future p wd) = Some (i, d1, wd1)"
    and s': "s' = (Some (publish_op i (async_mode r p) (r_write r) h (r_buf r) d1), wd1)"
    using assms(1) True
    by (auto simp: submit_async_op_def opends_err_def split: option.splits prod.splits if_splits)
  define s0 where "s0 = (Some d, clear_future p wd)"
  have c: "aisio_step (F - {p}) s s0"
    unfolding s(1) s0_def by (rule clear_future_step) (use assms(3) s(1) in \<open>simp_all add: aisio_busy_def\<close>)
  note k0 = aisio_step_ok [OF c assms(2)]
  have "workers d \<noteq> []"
    using assms(2) s(1,3) by (simp add: aisio_ok_def driver_ok_def)
  from claim_steps [OF claim _ this assms(5)] k0
  have st: "(aisio_step F)\<^sup>*\<^sup>* s0 (Some d1, wd1)" and i: "i < length (workers d1)" "has_room (workers d1 ! i)"
    by (simp_all add: s0_def)
  note k1 = aisio_steps_ok [OF st conjunct1 [OF k0]]
  have free: "\<not> aisio_busy s0 p" "aisio_fut s0 p = zero_future"
    using assms(3) s(1) by (simp_all add: s0_def aisio_busy_def sys_futs_def aisio_fut_def clear_future_def)
  then have free1: "p \<notin># driver_futs d1" "futures wd1 p = zero_future"
    using k1 assms(4) by (auto simp: futures_kept_def aisio_busy_def sys_futs_def aisio_fut_def)
  have pub: "aisio_step (F - {p}) (Some d1, wd1) s'"
    unfolding s' by (rule env_step.publish [OF i]) (use free1 in \<open>auto simp: mode_futs_def async_mode_def zero_future_def\<close>)
  note k2 = aisio_step_ok [OF pub conjunct1 [OF k1]]
  have k1': "futures_kept aisio_fut aisio_busy (F - {p}) s0 (Some d1, wd1)"
    by (rule futures_kept_mono [OF conjunct2 [OF k1]]) blast
  have "futures_kept aisio_fut aisio_busy (F - {p}) s s'"
    using futures_kept_trans [OF futures_kept_trans [OF conjunct2 [OF k0] k1'] conjunct2 [OF k2]]
      busy_not_done [OF conjunct1 [OF k0]] busy_not_done [OF conjunct1 [OF k1]]
    by blast
  moreover have "aisio_busy s' p"
    using publish_op_futs(1) [OF _ i, of "async_mode r p"] k1
    by (simp add: s' aisio_busy_def sys_futs_def aisio_ok_def mode_futs_def async_mode_def)
  ultimately show ?thesis
    using True k2 by simp
qed

interpretation aisio: async_service submit_async_op aisio_fut aisio_reset aisio_busy aisio_ok aisio_step
proof (unfold_locales, goal_cases)
  case (1 s p)
  then show ?case
    by (simp add: aisio_ok_def aisio_busy_def)
next
  case (2 F s s')
  then show ?case
    using aisio_step_ok by blast
next
  case (3 s p)
  then show ?case
    by (auto simp: aisio_ok_def aisio_busy_def aisio_fut_def aisio_reset_def clear_future_def sys_futs_def fun_eq_iff)
next
  case (4 others r p s e s' F)
  then show ?case
    using submit_async_op_ok by blast
qed

end
