(* ===== verification/Async_Props.thy ===== *)
theory Async_Props
  imports Async_Api
begin

text \<open>
  What submission, the I/O threads and waiting guarantee together, for the aisio backend.
\<close>

section \<open>The round robin finds room\<close>

text \<open>
  The turn counter wraps around at \<open>2 ^ 32\<close>, which need not be a multiple of the number of workers, so
  a worker's turn comes within twice that number.
\<close>

lemma round_robin_hits:
  fixes r :: u32
  assumes "j < N" "N < 2 ^ 31"
  shows "\<exists>k < 2 * N. unat (r + of_nat k) mod N = j"
proof (cases "unat r + N < 2 ^ 32")
  case True
  define k where "k = (j + N - unat r mod N) mod N"
  have N: "0 < N"
    using assms(1) by simp
  have k: "k < N"
    using N by (simp add: k_def)
  have "unat (r + of_nat k) = unat r + k"
  proof -
    have "unat (of_nat k :: u32) = k"
      using k assms(2) by (intro unat_of_nat_u32) simp
    then show ?thesis
      using k True by (subst unat_add_noof) simp_all
  qed
  also have "(unat r + k) mod N = (unat r mod N + (j + N - unat r mod N)) mod N"
    by (simp add: k_def mod_simps)
  also have "unat r mod N + (j + N - unat r mod N) = j + N"
    using N mod_less_divisor [of N "unat r"] by linarith
  also have "(j + N) mod N = j"
    using assms(1) by simp
  finally show ?thesis
    using k by (intro exI [of _ k]) simp
next
  case False
  define k where "k = (2 ^ 32 - unat r) + j"
  have "k < 2 * N"
    using False assms(1) unat_u32_bound [of r] by (simp add: k_def)
  moreover have "r + of_nat k = of_nat j"
  proof -
    have "unat r + k = 2 ^ 32 + j"
      using unat_u32_bound [of r] by (simp add: k_def)
    then have "(of_nat (unat r + k) :: u32) = of_nat (2 ^ 32 + j)"
      by (rule arg_cong)
    moreover have "(of_nat (unat r + k) :: u32) = r + of_nat k"
      by simp
    moreover have "(of_nat (2 ^ 32 + j) :: u32) = of_nat j"
      by (simp add: of_nat_add)
    ultimately show ?thesis
      by (simp only:)
  qed
  moreover have "unat (of_nat j :: u32) = j"
    using assms by (intro unat_of_nat_u32) simp
  ultimately show ?thesis
    using assms(1) by (intro exI [of _ k]) simp
qed

text \<open>What the rest of the program does leaves the turn counter alone, and room in worker \<open>j\<close>.\<close>

definition keeps_room :: "nat \<Rightarrow> (aisio_sys \<Rightarrow> aisio_sys) \<Rightarrow> bool" where
  "keeps_room j f \<longleftrightarrow> (\<forall>d wd. has_room (workers d ! j) \<longrightarrow>
     (\<exists>d' wd'. f (Some d, wd) = (Some d', wd') \<and> rr_next d' = rr_next d \<and>
        length (workers d') = length (workers d) \<and> has_room (workers d' ! j)))"

lemma claim_within:
  assumes "unat (rr_next d + of_nat k) mod length (workers d) = j" "k \<le> length others"
    and "has_room (workers d ! j)" "workers d \<noteq> []" "length (workers d) < 2 ^ 32" "\<forall>f \<in> set others. keeps_room j f"
  shows "claim_slot_locked others (Some d, wd) \<noteq> None"
  using assms
proof (induction others arbitrary: k d wd)
  case Nil
  then show ?case
    using route_op_less(2) [of d] by (auto simp: claim_slot_locked.simps split: prod.splits)
      (metis fst_conv route_op_simps(1) snd_conv)
next
  case (Cons f fs)
  obtain i d1 where r: "route_op d = (i, d1)"
    by fastforce
  have d1: "workers d1 = workers d" "rr_next d1 = rr_next d + 1" and i: "i = unat (rr_next d) mod length (workers d)"
    using r route_op_less(2) [OF Cons.prems(4,5)] by (auto simp: route_op_def)
  show ?case
  proof (cases "has_room (workers d1 ! i)")
    case True
    then show ?thesis
      using r by (simp add: claim_slot_locked.simps)
  next
    case False
    have "k \<noteq> 0"
      using False Cons.prems(1,3) i d1(1) by (cases "k = 0") auto
    then obtain m where k: "k = Suc m"
      using not0_implies_Suc by blast
    have "keeps_room j f" "has_room (workers d1 ! j)"
      using Cons.prems(3,6) d1(1) by simp_all
    then obtain d2 wd2 where f: "f (Some d1, wd) = (Some d2, wd2)" "rr_next d2 = rr_next d1"
      "length (workers d2) = length (workers d1)" "has_room (workers d2 ! j)"
      unfolding keeps_room_def by blast
    have "unat (rr_next d2 + of_nat m) mod length (workers d2) = j"
      using Cons.prems(1) f(2,3) d1 by (simp add: k ac_simps)
    moreover have "workers d2 \<noteq> []" "length (workers d2) < 2 ^ 32"
      using Cons.prems(4,5) f(3) d1(1) by auto
    ultimately have "claim_slot_locked fs (Some d2, wd2) \<noteq> None"
      using Cons.IH [of d2 m wd2] f(4) Cons.prems(2,6) k by simp
    then show ?thesis
      using False r f(1) by (simp add: claim_slot_locked.simps)
  qed
qed


section \<open>A pass completes what is ready\<close>

lemma visited_fut: "visited q q' \<Longrightarrow> fut_of q' \<subseteq># fut_of q"
  by (auto simp: visited_def fut_of_def split: file_op_state.splits file_op_mode.splits if_splits)

lemma slots_futs:
  assumes "slots_rel (\<lambda>s. if s \<in> W then visited else poked) w w'" "s < length (file_op_queue w)"
  shows "fut_of (file_op_queue w' ! s) \<subseteq># fut_of (file_op_queue w ! s)"
  using assms visited_fut poked_fut by (auto simp: slots_rel_def split: if_splits)

lemma count_worker_futs: "count (worker_futs w) p = (\<Sum>s < length (file_op_queue w). count (fut_of (file_op_queue w ! s)) p)"
  by (simp add: worker_futs_def sum_list_sum_nth count_sum atLeast0LessThan)

lemma one_slot:
  assumes "count (worker_futs w) p = 1" "s < length (file_op_queue w)" "t < length (file_op_queue w)"
    and "p \<in># fut_of (file_op_queue w ! s)" "p \<in># fut_of (file_op_queue w ! t)"
  shows "s = t"
proof (rule ccontr)
  assume ne: "s \<noteq> t"
  let ?f = "\<lambda>s. count (fut_of (file_op_queue w ! s)) p"
  have "sum ?f {s, t} \<le> sum ?f {..<length (file_op_queue w)}"
    using assms(2,3) by (intro sum_mono2) auto
  then show False
    using assms(1,4,5) ne by (simp add: count_worker_futs flip: count_greater_zero_iff)
qed

lemma settled_slot:
  assumes rel: "slots_rel (\<lambda>s. if s \<in> W then visited else poked) w w'"
    and s: "s < length (file_op_queue w)" "p \<in># fut_of (file_op_queue w ! s)" "fut_of (file_op_queue w' ! s) = {#}"
    and one: "count (worker_futs w) p = 1"
  shows "p \<notin># worker_futs w'"
proof
  assume "p \<in># worker_futs w'"
  then have "0 < count (worker_futs w') p"
    by simp
  then obtain t where t: "t < length (file_op_queue w')" "0 < count (fut_of (file_op_queue w' ! t)) p"
    unfolding count_worker_futs by (metis (no_types, lifting) lessThan_iff not_gr_zero sum.neutral)
  have len: "length (file_op_queue w') = length (file_op_queue w)"
    using rel by (simp add: slots_rel_def)
  have "p \<in># fut_of (file_op_queue w ! t)"
    using t slots_futs [OF rel, of t] len by (auto dest: mset_subset_eqD)
  then have "s = t"
    using one_slot [OF one s(1) _ s(2)] t(1) len by simp
  then show False
    using t(2) s(3) by simp
qed

text \<open>What a pass does with an asynchronous operation that it finds.\<close>

lemma pass_serves_async:
  assumes ok: "worker_ok w" and n: "n \<le> ring_len w" "j < n"
    and op: "op_mode (q_op (ring w ! j)) = FILE_OP_ASYNC a" "op_state (q_op (ring w ! j)) \<noteq> FILE_OP_FREE"
    and one: "count (worker_futs w) (future a) = 1"
    and ready: "op_state (q_op (ring w ! j)) = FILE_OP_PENDING \<and> is_write (q_op (ring w ! j)) \<or>
      op_state (q_op (ring w ! j)) = FILE_OP_IN_FLIGHT \<and> idle (ring w ! j)"
    and run: "io_pass g env pokes stop (queue_tail w + of_nat n) w wd = Some (leave, w', wd')"
  shows "future a \<notin># worker_futs w' \<and> fut_done (futures wd' (future a))"
proof -
  let ?s = "slot_of (queue_tail w + of_nat j)"
  have rok: "ring_ok w"
    using ok by (simp add: worker_ok_def)
  obtain busy w1 where scan: "scan g env (queue_tail w + of_nat n) (queue_tail w) False w wd = Some (busy, w1, wd')"
    and w': "w' = retire (queue_tail w + of_nat n) w1 \<or> w' = worker_poke (lba_size g) pokes (retire (queue_tail w + of_nat n) w1)"
    using run unfolding io_pass_def Let_def by (auto split: option.splits if_splits)
  have start: "queue_tail w = queue_tail w + of_nat 0"
    by simp
  have n2: "n \<le> 1024"
    using n(1) ring_okD(2) [OF rok] by simp
  have rel: "slots_rel (\<lambda>s. if s \<in> window (queue_tail w) 0 n then visited else poked) w w1"
    using scan_slots [OF scan ok start refl _ n2] by simp
  have len: "length (file_op_queue w) = 1024"
    by (rule ring_okD(1) [OF rok])
  have j: "ring w ! j = file_op_queue w ! ?s"
    using n by (simp add: slot_at_def)
  have "?s \<in> window (queue_tail w) 0 n"
    using n(2) by (auto simp: window_def)
  then have "visited (file_op_queue w ! ?s) (file_op_queue w1 ! ?s)"
    using rel slot_of_less [of "queue_tail w + of_nat j"] len by (auto simp: slots_rel_def)
  then have gone: "fut_of (file_op_queue w1 ! ?s) = {#}"
    using ready op(1) unfolding j by (auto simp: visited_def fut_of_def)
  have here: "future a \<in># fut_of (file_op_queue w ! ?s)"
    using op unfolding j by (simp add: fut_of_def)
  have "worker_futs w' = worker_futs w1"
    using w' by auto
  then have no: "future a \<notin># worker_futs w'"
    using settled_slot [OF rel _ here gone one] slot_of_less [of "queue_tail w + of_nat j"] len by simp
  obtain P where P: "worker_futs w = P + worker_futs w'" "settles P wd wd'"
    using io_pass_futs [OF run ok] by (auto simp: futs_step_def)
  have "future a \<in># P"
    using one no P(1) by (metis count_eq_zero_iff union_iff zero_neq_one)
  then show ?thesis
    using no P(2) by (simp add: settles_def)
qed

section \<open>Properties\<close>

text \<open>
  One pass completes what is ready. The pass of an I/O thread that finds a write pending, or
  a read in flight all of whose commands have completed, ends with the operation's future done, and
  with no operation in the worker's ring that would write it again; other operations, in whatever
  state, do not hold it up.
\<close>

theorem ready_op_completes:
  assumes "worker_ok w" "n \<le> ring_len w" "j < n"
    and "op_mode (q_op (ring w ! j)) = FILE_OP_ASYNC a" "op_state (q_op (ring w ! j)) \<noteq> FILE_OP_FREE"
    and "count (worker_futs w) (future a) = 1"
    and "op_state (q_op (ring w ! j)) = FILE_OP_PENDING \<and> is_write (q_op (ring w ! j)) \<or>
      op_state (q_op (ring w ! j)) = FILE_OP_IN_FLIGHT \<and> idle (ring w ! j)"
    and "io_pass g env pokes stop (queue_tail w + of_nat n) w wd = Some (leave, w', wd')"
  shows "future a \<notin># worker_futs w' \<and> fut_done (futures wd' (future a))"
  by (rule pass_serves_async [OF assms])

lemma submit_cases:
  assumes "submit_async_op others r p s = Some (e, s')" "aisio_ok s"
    and "\<forall>f \<in> set others. \<forall>s. (aisio_step F)\<^sup>*\<^sup>* s (f s)" "\<not> aisio_busy s p"
  shows "err e = (case fst s of None \<Rightarrow> OPENDS_DRIVER_NOT_INITIALIZED
      | Some d \<Rightarrow> if r_fh r = None \<or> r_buf r = 0 \<or> p = 0 then OPENDS_INVALID_VALUE
          else if \<not> workers_ready d then OPENDS_DEVICE_DRIVER_ERROR else OPENDS_SUCCESS)"
    "err e \<noteq> OPENDS_SUCCESS \<Longrightarrow> s' = s"
    "err e = OPENDS_SUCCESS \<Longrightarrow> \<exists>h i d1 wd1. r_fh r = Some h \<and> (aisio_step F)\<^sup>*\<^sup>* (aisio_reset p s) (Some d1, wd1) \<and>
       i < length (workers d1) \<and> has_room (workers d1 ! i) \<and> driver_ok d1 \<and>
       s' = (Some (publish_op i (async_mode r p) (r_write r) h (r_buf r) d1), wd1)"
proof -
  show "err e = (case fst s of None \<Rightarrow> OPENDS_DRIVER_NOT_INITIALIZED
      | Some d \<Rightarrow> if r_fh r = None \<or> r_buf r = 0 \<or> p = 0 then OPENDS_INVALID_VALUE
          else if \<not> workers_ready d then OPENDS_DEVICE_DRIVER_ERROR else OPENDS_SUCCESS)"
    using assms(1)
    by (auto simp: submit_async_op_def opends_ok_def opends_err_def split: option.splits prod.splits if_splits)
  show "err e \<noteq> OPENDS_SUCCESS \<Longrightarrow> s' = s"
    using assms(1)
    by (auto simp: submit_async_op_def opends_ok_def split: option.splits prod.splits if_splits)
  assume "err e = OPENDS_SUCCESS"
  then obtain d wd h i d1 wd1 where s: "s = (Some d, wd)" "r_fh r = Some h" "workers_ready d"
    and claim: "claim_slot_locked others (Some d, clear_future p wd) = Some (i, d1, wd1)"
    and s': "s' = (Some (publish_op i (async_mode r p) (r_write r) h (r_buf r) d1), wd1)"
    using assms(1)
    by (auto simp: submit_async_op_def opends_err_def split: option.splits prod.splits if_splits)
  have "aisio_ok (Some d, clear_future p wd)"
    using aisio.reset [OF assms(2,4)] s(1) by (simp add: aisio_reset_def)
  moreover have "workers d \<noteq> []"
    using assms(2) s(1,3) by (simp add: aisio_ok_def driver_ok_def)
  ultimately have st: "(aisio_step F)\<^sup>*\<^sup>* (Some d, clear_future p wd) (Some d1, wd1)" "i < length (workers d1)" "has_room (workers d1 ! i)"
    and "aisio_ok (Some d, clear_future p wd)"
    using claim_steps [OF claim _ _ assms(3)] by simp_all
  then have "driver_ok d1"
    using aisio_steps_ok [OF st(1)] by (simp add: aisio_ok_def)
  then show "\<exists>h i d1 wd1. r_fh r = Some h \<and> (aisio_step F)\<^sup>*\<^sup>* (aisio_reset p s) (Some d1, wd1) \<and>
       i < length (workers d1) \<and> has_room (workers d1 ! i) \<and> driver_ok d1 \<and>
       s' = (Some (publish_op i (async_mode r p) (r_write r) h (r_buf r) d1), wd1)"
    using s s' st by (auto simp: aisio_reset_def)
qed


text \<open>
  C16: an accepted asynchronous operation completes its future exactly once. From its acceptance on, and
  whatever I/O threads and other submitters do, the future is either not done, and then exactly one
  operation in the rings will write it, or done, and then no operation will ever write it again and
  its result stays what it is until the caller submits with it again. A refused submission leaves
  the future alone for good.
\<close>

theorem future_completes_once:
  assumes "aisio_ok s" "\<not> aisio_busy s p" "submit_async_op others r p s = Some (e, s1)"
    and "\<forall>f \<in> set others. \<forall>s. (aisio_step {p})\<^sup>*\<^sup>* s (f s)"
    and "(aisio_step {p})\<^sup>*\<^sup>* s1 s2" "(aisio_step {p})\<^sup>*\<^sup>* s2 s3"
  shows "if err e \<noteq> OPENDS_SUCCESS then aisio_fut s3 p = aisio_fut s p \<and> count (sys_futs s3) p = 0
    else if fut_done (aisio_fut s2 p) then aisio_fut s3 p = aisio_fut s2 p \<and> count (sys_futs s3) p = 0
    else count (sys_futs s2) p = 1"
proof -
  have p: "p \<in> {p}"
    by simp
  note s1 = submit_async_op_ok [OF assms(3,1,2) p assms(4)]
  note s2 = aisio_steps_ok [OF assms(5) conjunct1 [OF s1]]
  note s3 = aisio_steps_ok [OF assms(6) conjunct1 [OF s2]]
  have count: "count (sys_futs t) p = (if aisio_busy t p then 1 else 0)" if "aisio_ok t" for t
  proof -
    have "count (sys_futs t) p \<le> 1"
      using that by (simp add: aisio_ok_def)
    moreover have "aisio_busy t p \<longleftrightarrow> 0 < count (sys_futs t) p"
      by (simp add: aisio_busy_def)
    ultimately show ?thesis
      by (auto simp del: count_greater_zero_iff)
  qed
  have kept: "if aisio_busy s1 p then aisio_busy s2 p \<or> fut_done (aisio_fut s2 p) else \<not> aisio_busy s2 p \<and> aisio_fut s2 p = aisio_fut s1 p"
    "if aisio_busy s2 p then aisio_busy s3 p \<or> fut_done (aisio_fut s3 p) else \<not> aisio_busy s3 p \<and> aisio_fut s3 p = aisio_fut s2 p"
    using s2 s3 by (simp_all add: futures_kept_def)
  have unfin: "aisio_busy s2 p \<Longrightarrow> \<not> fut_done (aisio_fut s2 p)"
    using s2 busy_not_done [of s2] by blast
  show ?thesis
    using s1 kept unfin count [OF conjunct1 [OF s2]] count [OF conjunct1 [OF s3]] by (auto split: if_splits)
qed

section \<open>Examples\<close>

text \<open>One worker, with the write of theory Io_Worker in its ring, whose future is at address 7.\<close>

definition demo_driver :: aisio_driver where
  "demo_driver = \<lparr>workers = [demo_worker], rr_next = 5, workers_ready = True, geo = worker_geo\<rparr>"

definition demo_request :: async_request where
  "demo_request = \<lparr>r_write = False, r_fh = Some \<lparr>fd = 3, oflags = 0\<rparr>, r_buf = 8192, r_size = 512,
     r_file_offset = 0, r_buf_offset = 0\<rparr>"

lemma sum_list_empties [simp]: "sum_list (replicate n ({#} :: 'a multiset)) = {#}"
  by (induction n) simp_all

lemma demo_worker_futs: "worker_futs demo_worker = {#7#}"
  by (simp add: worker_futs_def demo_worker_def demo_slot_def fut_of_def)

lemma demo_driver_ok: "aisio_ok (Some demo_driver, idle_world)" "driver_ok demo_driver" "has_room demo_worker"
proof -
  show "driver_ok demo_driver"
    using demo_worker_ok(1) by (simp add: driver_ok_def demo_driver_def)
  then show "aisio_ok (Some demo_driver, idle_world)"
    using demo_worker_futs
    by (simp add: aisio_ok_def sys_futs_def driver_futs_def aisio_fut_def idle_world_def demo_driver_def)
  show "has_room demo_worker"
    by (simp add: has_room_def demo_worker_def FILE_OP_QUEUE_SIZE_def)
qed

lemma demo_not_busy: "\<not> aisio_busy (Some demo_driver, idle_world) 8"
  using demo_worker_futs by (simp add: aisio_busy_def sys_futs_def driver_futs_def demo_driver_def)

lemma demo_submit:
  "\<exists>s'. submit_async_op [] demo_request 8 (Some demo_driver, idle_world) = Some (opends_ok, s')"
  using demo_driver_ok(3)
  by (simp add: submit_async_op_def demo_request_def demo_driver_def claim_slot_locked.simps route_op_def)


theorem ready_op_completes_witness:
  "\<exists>w' wd'. io_pass worker_geo (\<lambda>_. demo_visit) [] True 0 demo_worker idle_world = Some (True, w', wd') \<and>
     7 \<notin># worker_futs w' \<and> fut_done (futures wd' 7)"
proof -
  obtain w' wd' where run: "io_pass worker_geo (\<lambda>_. demo_visit) [] True 0 demo_worker idle_world = Some (True, w', wd')"
    using demo_pass by blast
  have len: "1 \<le> ring_len demo_worker"
    using demo_worker_ok(2) by simp
  then have "ring demo_worker ! 0 = slot_at demo_worker (- 1)"
    by (simp add: demo_worker_def)
  also have "\<dots> = demo_slot FILE_OP_PENDING"
    by (simp add: slot_at_def slot_of_mod unsigned_minus_1_eq_mask mask_eq_exp_minus_1 demo_worker_def nth_append)
  finally have op: "ring demo_worker ! 0 = demo_slot FILE_OP_PENDING" .
  have hd: "(0 :: u32) = queue_tail demo_worker + of_nat 1"
    by (simp add: demo_worker_def)
  have one: "count (worker_futs demo_worker) (future \<lparr>req_size = 100, req_file_offset = 0, req_buf_offset = 0, future = 7\<rparr>) = 1"
    by (simp add: demo_worker_futs)
  show ?thesis
    using run ready_op_completes [OF demo_worker_ok(1) len zero_less_one _ _ one _ run [unfolded hd]]
    by (simp add: op demo_slot_def)
qed


theorem future_completes_once_witness:
  "\<exists>s'. submit_async_op [] demo_request 8 (Some demo_driver, idle_world) = Some (opends_ok, s') \<and>
     (fut_done (aisio_fut s' 8) \<or> count (sys_futs s') 8 = 1)"
proof -
  obtain s' where run: "submit_async_op [] demo_request 8 (Some demo_driver, idle_world) = Some (opends_ok, s')"
    using demo_submit by blast
  have "\<forall>f \<in> set []. \<forall>s. (aisio_step {8})\<^sup>*\<^sup>* s (f s)"
    by simp
  from future_completes_once [OF demo_driver_ok(1) demo_not_busy run this rtranclp.rtrancl_refl rtranclp.rtrancl_refl]
  show ?thesis
    using run by (auto simp: opends_ok_def split: if_splits)
qed

end
