(* ===== verification/Aisio_Clients.thy ===== *)
theory Aisio_Clients
  imports Async_Props
begin

text \<open>
  The batch and the synchronous API on the aisio backend: what theories Batch_Correct and Sync_IO
  prove for every backend, here for the model of src/opends_aisio.c.
\<close>

abbreviation aisio_batch_ok :: "async_batch \<Rightarrow> aisio_sys \<Rightarrow> bool" where
  "aisio_batch_ok \<equiv> batch_ok aisio_fut aisio_busy"

text \<open>What the rest of the program may do while a client that owns the futures in \<open>F\<close> gives way.\<close>

definition rest_steps :: "ptr set \<Rightarrow> (aisio_sys \<Rightarrow> aisio_sys) \<Rightarrow> bool" where
  "rest_steps F f \<longleftrightarrow> (\<forall>s. (aisio_step F)\<^sup>*\<^sup>* s (f s))"

lemma rest_ok_steps: "aisio.rest_ok F fs \<longleftrightarrow> (\<forall>f \<in> set fs. rest_steps F f)"
  by (simp add: aisio.rest_ok_def rest_steps_def)

section \<open>Properties\<close>

text \<open>
  C18: \<open>opends_batch_submit\<close> is all or nothing. It refuses exactly the submissions that would bring more
  operations in flight than the batch was set up for, and then changes nothing. Otherwise it takes
  every one of them, those that the backend refuses too: their completions will be delivered as
  failed. It never leaves the array of entries, and never reuses an entry whose completion has not
  been delivered: the batch's invariant is kept, and to the cookies that are outstanding exactly the
  submitted ones are added.
\<close>

theorem batch_submit_outcome:
  assumes "opends_batch_submit submit_async_op aisio_reset nr (Some ps) (Some b, s) = Some (r, bp, s')"
    and "aisio_batch_ok b s" "aisio_ok s" "\<forall>x \<in> set ps. \<forall>f \<in> set (snd x). rest_steps (batch_futs b) f"
    and "unat nr \<le> length ps"
  shows "if unat (inflight b) + unat nr > unat (capacity b)
    then r = opends_err OPENDS_BATCH_FULL \<and> bp = Some b \<and> s' = s
    else \<exists>b'. r = opends_ok \<and> bp = Some b' \<and> aisio_ok s' \<and> aisio_batch_ok b' s' \<and> batch_futs b' = batch_futs b \<and>
      capacity b' = capacity b \<and> unat (inflight b') = unat (inflight b) + unat nr \<and>
      cookies_of b' (live b') = cookies_of b (live b) + mset (map (p_cookie \<circ> fst) (take (unat nr) ps))"
  by (rule aisio.batch_submit_ok [OF assms(1-3) order_refl _ assms(5)])
    (use assms(4) in \<open>simp add: rest_ok_steps\<close>)

text \<open>
  C17: \<open>opends_batch_get_status\<close> delivers every completion once. The events it returns are those of
  distinct entries whose operations have ended, with the status that the final result of each asks
  for; what was outstanding before is what it delivers and what is outstanding after. It delivers no
  more than there is room for, all that had ended when it was called if there is room, and without a
  time limit at least \<open>min_nr\<close>. While it works, other threads run.
\<close>

theorem batch_delivers_once:
  assumes "opends_batch_get_status aisio_fut now turns late min_nr (Some n) True timeout (Some b, s) = Some (r, evs, bp, s')"
    and "aisio_batch_ok b s" "aisio_ok s"
    and "\<forall>t \<in> set turns. rest_steps (batch_futs b) (snd t)" "\<forall>i. rest_steps (batch_futs b) (late i)"
  shows "if min_nr > n \<or> min_nr > inflight b then r = opends_err OPENDS_INVALID_VALUE \<and> evs = [] \<and> bp = Some b \<and> s' = s
    else \<exists>b' js. r = opends_ok \<and> bp = Some b' \<and> aisio_ok s' \<and> aisio_batch_ok b' s' \<and>
      distinct js \<and> set js \<subseteq> live b \<and> live b' = live b - set js \<and>
      evs = map (\<lambda>i. event_of aisio_fut (entries b ! i) s') js \<and> length evs \<le> unat n \<and>
      (timeout = None \<longrightarrow> unat min_nr \<le> length evs) \<and>
      (length evs < unat n \<longrightarrow> {i \<in> live b. entry_done aisio_fut (entries b ! i) s} \<subseteq> set js) \<and>
      cookies_of b (live b) = mset (map ev_cookie evs) + cookies_of b' (live b')"
  by (rule aisio.get_status_ok [OF assms(1-3) order_refl])
    (use assms(4,5) in \<open>auto simp: rest_ok_steps rest_steps_def\<close>)

text \<open>
  C32: after \<open>opends_batch_cancel\<close> every completion that is still to be delivered has its operation
  ended and will be delivered as canceled; none has been lost or delivered by it.
\<close>

theorem batch_cancel_ends:
  assumes "opends_batch_cancel aisio_fut others (Some b, s) = Some (r, bp, s')"
    and "aisio_batch_ok b s" "aisio_ok s" "\<forall>i. \<forall>f \<in> set (others i). rest_steps (batch_futs b) f"
  shows "\<exists>b'. r = opends_ok \<and> bp = Some b' \<and> aisio_batch_ok b' s' \<and> inflight b' = inflight b \<and>
    cookies_of b' (live b') = cookies_of b (live b) \<and>
    (\<forall>i \<in> live b'. entry_done aisio_fut (entries b' ! i) s' \<and>
       event_of aisio_fut (entries b' ! i) s' = \<lparr>ev_cookie = e_cookie (entries b' ! i), ev_status = OPENDS_CANCELED, ev_ret = 0\<rparr>)"
proof -
  have "\<forall>i. aisio.rest_ok (batch_futs b) (others i)"
    using assms(4) by (simp add: rest_ok_steps)
  from aisio.cancel_ok [OF assms(1-3) order_refl this] show ?thesis
    by (auto simp: event_of_def)
qed

text \<open>
  C31: \<open>opends_batch_destroy\<close> frees the batch only when no operation will write into it any more: none of
  the futures in its entries belongs to an operation in any worker's ring.
\<close>

theorem batch_destroy_safe:
  assumes "opends_batch_destroy aisio_fut others (Some b, s) = Some s'"
    and "aisio_batch_ok b s" "aisio_ok s" "\<forall>i. \<forall>f \<in> set (others i). rest_steps (batch_futs b) f"
  shows "\<forall>p \<in> batch_futs b. p \<notin># sys_futs s'"
proof -
  have "\<forall>i. aisio.rest_ok (batch_futs b) (others i)"
    using assms(4) by (simp add: rest_ok_steps)
  from aisio.destroy_ok [OF assms(1-3) order_refl this] show ?thesis
    by (simp add: aisio_busy_def)
qed

text \<open>
  A synchronous read that returns has left nothing behind: no operation in any ring will write the
  future in its stack frame. It returns the negated error of a refused submission, or the result
  with which its operation ended.
\<close>

theorem sync_read_returns_result:
  assumes "opends_sync_read submit_async_op aisio_fut others waits fh buf len off boff p s = Some (x, s')"
    and "aisio_ok s" "p \<notin># sys_futs s" "p \<noteq> 0"
    and "\<forall>f \<in> set others. rest_steps {p} f" "\<forall>f \<in> set waits. rest_steps {p} f"
  shows "p \<notin># sys_futs s' \<and>
    ((\<exists>e. e \<noteq> OPENDS_SUCCESS \<and> x = neg_err e) \<or> fut_done (aisio_fut s' p) \<and> x = fut_result (aisio_fut s' p))"
proof -
  have "\<not> aisio_busy s p" "p \<in> {p}" "aisio.rest_ok {p} others" "aisio.rest_ok {p} waits"
    using assms(3,5,6) by (simp_all add: aisio_busy_def rest_ok_steps)
  from aisio.sync_ok [OF assms(1) [unfolded opends_sync_read_def] assms(2) this(1) assms(4) this(2-4)]
  show ?thesis
    by (auto simp: aisio_busy_def split: if_splits)
qed

section \<open>Examples\<close>

text \<open>
  A batch of two with one operation, which has ended with 512 bytes, and a closed driver: its next
  operation is refused.
\<close>

definition demo_batch :: async_batch where
  "demo_batch = \<lparr>entries = [(zero_entry 8)\<lparr>e_cookie := 42\<rparr>, zero_entry 16], used = 1, inflight = 1, capacity = 2\<rparr>"

definition demo_sys :: aisio_sys where
  "demo_sys = (None, idle_world\<lparr>futures := (\<lambda>p. if p = 8 then \<lparr>fut_done = True, fut_result = 512\<rparr> else zero_future)\<rparr>)"

definition demo_params :: opends_io_params where
  "demo_params = \<lparr>p_cookie = 43, p_opcode = OPENDS_READ, p_fh = None, p_dev_ptr_base = 0, p_size = 0,
     p_file_offset = 0, p_dev_ptr_offset = 0\<rparr>"

lemma demo_sys_ok: "aisio_ok demo_sys"
  by (simp add: aisio_ok_def demo_sys_def sys_futs_def)

lemma demo_batch_live: "live demo_batch = {0}"
  by (auto simp: live_def demo_batch_def zero_entry_def less_Suc_eq)

lemma demo_batch_cookies: "cookies_of demo_batch (live demo_batch) = {#42#}"
  unfolding demo_batch_live by (simp add: cookies_of_def demo_batch_def)

lemma demo_batch_ok: "aisio_batch_ok demo_batch demo_sys"
proof -
  have "batch_shape demo_batch"
    unfolding batch_shape_def demo_batch_live
    by (simp add: demo_batch_def zero_entry_def batch_futs_def)
  then show ?thesis
    by (auto simp: batch_ok_def demo_batch_def zero_entry_def entry_ok_def aisio_busy_def aisio_fut_def demo_sys_def
        sys_futs_def less_Suc_eq)
qed

theorem batch_submit_outcome_witness:
  "\<exists>b'. opends_batch_submit submit_async_op aisio_reset 1 (Some [(demo_params, [])]) (Some demo_batch, demo_sys)
      = Some (opends_ok, Some b', demo_sys) \<and> cookies_of b' (live b') = {#42, 43#}"
proof -
  have "\<exists>b'. opends_batch_submit submit_async_op aisio_reset 1 (Some [(demo_params, [])]) (Some demo_batch, demo_sys)
      = Some (opends_ok, Some b', demo_sys)"
    by (simp add: opends_batch_submit_def demo_batch_def submit_one_def entry_take_def zero_entry_def upd_entry_def
        submit_async_op_def demo_sys_def Let_def)
  then obtain b' where run: "opends_batch_submit submit_async_op aisio_reset 1 (Some [(demo_params, [])]) (Some demo_batch, demo_sys)
      = Some (opends_ok, Some b', demo_sys)"
    by blast
  show ?thesis
    using demo_batch_cookies run batch_submit_outcome [OF run demo_batch_ok demo_sys_ok]
    by (simp add: demo_batch_def demo_params_def add_mset_commute)
qed

lemma demo_status:
  "\<exists>b'. opends_batch_get_status aisio_fut (0, 0) [] (\<lambda>_ s. s) 1 (Some 4) True None (Some demo_batch, demo_sys)
     = Some (opends_ok, [\<lparr>ev_cookie = 42, ev_status = OPENDS_COMPLETE, ev_ret = 512\<rparr>], Some b', demo_sys)"
  by (simp add: opends_batch_get_status_def wait_ready.simps count_ready_def demo_batch_def zero_entry_def entry_done_def
      aisio_fut_def demo_sys_def event_of_def upd_entry_def Let_def)

theorem batch_delivers_once_witness:
  "\<exists>b'. opends_batch_get_status aisio_fut (0, 0) [] (\<lambda>_ s. s) 1 (Some 4) True None (Some demo_batch, demo_sys)
     = Some (opends_ok, [\<lparr>ev_cookie = 42, ev_status = OPENDS_COMPLETE, ev_ret = 512\<rparr>], Some b', demo_sys) \<and>
     cookies_of b' (live b') = {#}"
proof -
  obtain b' where run: "opends_batch_get_status aisio_fut (0, 0) [] (\<lambda>_ s. s) 1 (Some 4) True None (Some demo_batch, demo_sys)
     = Some (opends_ok, [\<lparr>ev_cookie = 42, ev_status = OPENDS_COMPLETE, ev_ret = 512\<rparr>], Some b', demo_sys)"
    using demo_status by blast
  have "\<forall>i. rest_steps (batch_futs demo_batch) ((\<lambda>_ s. s) i)"
    by (simp add: rest_steps_def)
  note d = batch_delivers_once [OF run demo_batch_ok demo_sys_ok _ this]
  have "\<not> (1 > (4 :: u32) \<or> 1 > inflight demo_batch)"
    by (simp add: demo_batch_def)
  with d demo_batch_cookies run show ?thesis
    by (auto simp only: if_False option.inject prod.inject) simp
qed

theorem batch_cancel_ends_witness:
  "\<exists>b'. opends_batch_cancel aisio_fut (\<lambda>_. []) (Some demo_batch, demo_sys) = Some (opends_ok, Some b', demo_sys) \<and>
     inflight b' = 1"
proof -
  have "\<exists>b'. opends_batch_cancel aisio_fut (\<lambda>_. []) (Some demo_batch, demo_sys) = Some (opends_ok, Some b', demo_sys)"
    by (simp add: opends_batch_cancel_def demo_batch_def zero_entry_def opends_async_await.simps aisio_fut_def demo_sys_def Let_def)
  then obtain b' where run: "opends_batch_cancel aisio_fut (\<lambda>_. []) (Some demo_batch, demo_sys) = Some (opends_ok, Some b', demo_sys)"
    by blast
  then show ?thesis
    using batch_cancel_ends [OF run demo_batch_ok demo_sys_ok] by (auto simp: demo_batch_def)
qed

theorem batch_destroy_safe_witness:
  "opends_batch_destroy aisio_fut (\<lambda>_. []) (Some demo_batch, demo_sys) = Some demo_sys \<and> 8 \<notin># sys_futs demo_sys"
proof -
  have run: "opends_batch_destroy aisio_fut (\<lambda>_. []) (Some demo_batch, demo_sys) = Some demo_sys"
    by (simp add: opends_batch_destroy_def demo_batch_def zero_entry_def opends_async_await.simps aisio_fut_def demo_sys_def Let_def)
  have "8 \<in> batch_futs demo_batch"
    by (simp add: batch_futs_def demo_batch_def zero_entry_def)
  then show ?thesis
    using run batch_destroy_safe [OF run demo_batch_ok demo_sys_ok] by simp
qed

theorem sync_read_returns_result_witness:
  "\<exists>x s'. opends_sync_read submit_async_op aisio_fut [] [] None 8192 512 0 0 16 demo_sys = Some (x, s') \<and> 16 \<notin># sys_futs s'"
proof -
  obtain x s' where run: "opends_sync_read submit_async_op aisio_fut [] [] None 8192 512 0 0 16 demo_sys = Some (x, s')"
    by (simp add: opends_sync_read_def submit_async_op_def demo_sys_def opends_err_def)
  have "16 \<notin># sys_futs demo_sys"
    by (simp add: sys_futs_def demo_sys_def)
  then show ?thesis
    using run sync_read_returns_result [OF run demo_sys_ok] by auto
qed

end
