(* ===== verification/Ref_Backend.thy ===== *)
theory Ref_Backend
  imports Batch_Correct Sync_IO Direct_IO
begin

unbundle bit_operations_syntax

text \<open>
  The I/O of the reference backend, src/opends_ref.c: \<open>direct_aligned\<close>, \<open>ref_async_submit\<close> and the
  stream calls, which complete an operation before they return, and the proof that the backend keeps
  the contract of theory Async_Contract. Files are byte lists by descriptor, and the results of the
  system calls are arguments, as in theory Direct_IO.
\<close>

record ref_sys =
  driver_open :: bool
  ref_files :: "int \<Rightarrow> bytes"
  ref_mem :: mem
  ref_futures :: "ptr \<Rightarrow> opends_async_future"
  ref_cells :: "ptr \<Rightarrow> u64"

text \<open>What the system answers to one request: the single call of an aligned one, or the calls of the other path.\<close>

record ref_io =
  io_once :: answer
  io_os :: os_calls
  io_reads :: "answer list"
  io_writes :: "answer list"

definition load_bytes :: "mem \<Rightarrow> nat \<Rightarrow> nat \<Rightarrow> bytes" where
  "load_bytes m a n = map (\<lambda>i. m (a + i)) [0..<n]"

definition store_bytes :: "mem \<Rightarrow> nat \<Rightarrow> bytes \<Rightarrow> mem" where
  "store_bytes m a xs = (\<lambda>b. if a \<le> b \<and> b < a + length xs then xs ! (b - a) else m b)"

definition direct_aligned :: "ptr \<Rightarrow> u64 \<Rightarrow> u64 \<Rightarrow> bool" where
  "direct_aligned p len off \<longleftrightarrow> (p OR len OR off) AND (BLOCK - 1) = 0"

text \<open>The four calls of \<open>ref_async_submit\<close>: the value of \<open>result\<close> after them, and the state.\<close>

definition ref_transfer ::
  "ref_io \<Rightarrow> bool \<Rightarrow> registered_file \<Rightarrow> ptr \<Rightarrow> u64 \<Rightarrow> u64 \<Rightarrow> ref_sys \<Rightarrow> (int \<times> ref_sys) option" where
  "ref_transfer io wr h p len off s =
     (let f = ref_files s (fd h); data = load_bytes (ref_mem s) (unat p) (unat len);
          aligned = direct_aligned p len off
      in if wr \<and> aligned then
           (case pwrite (io_once io) f data (sint off) of
              (Inl e, f') \<Rightarrow> Some (-1, s\<lparr>ref_files := (ref_files s)(fd h := f')\<rparr>)
            | (Inr w, f') \<Rightarrow> Some (int w, s\<lparr>ref_files := (ref_files s)(fd h := f')\<rparr>))
         else if wr then
           map_option (\<lambda>(r, f'). (r, s\<lparr>ref_files := (ref_files s)(fd h := f')\<rparr>))
             (opends_direct_pwrite (io_os io) host_copy (oflags h) data len (sint off) (io_reads io) (io_writes io) f)
         else if aligned then
           (case pread (io_once io) f (unat len) (sint off) of
              Inl e \<Rightarrow> Some (-1, s)
            | Inr xs \<Rightarrow> Some (int (length xs), s\<lparr>ref_mem := store_bytes (ref_mem s) (unat p) xs\<rparr>))
         else
           map_option (\<lambda>(r, xs). (r, s\<lparr>ref_mem := store_bytes (ref_mem s) (unat p) xs\<rparr>))
             (opends_direct_pread (io_os io) f len (sint off) (io_reads io)))"

definition ref_async_submit :: "ref_io \<Rightarrow> ref_sys submit_fn" where
  "ref_async_submit io others r p s =
     (if \<not> driver_open s then Some (opends_err OPENDS_DRIVER_NOT_INITIALIZED, s)
      else (case r_fh r of
             None \<Rightarrow> Some (opends_err OPENDS_INVALID_VALUE, s)
           | Some h \<Rightarrow>
               if r_buf r = 0 \<or> p = 0 then Some (opends_err OPENDS_INVALID_VALUE, s)
               else (case ref_transfer io (r_write r) h (r_buf r + r_buf_offset r) (r_size r) (r_file_offset r) s of
                      None \<Rightarrow> None
                    | Some (res, s1) \<Rightarrow>
                        let result = (if res < 0 then neg_err OPENDS_INTERNAL_ERROR else of_int res)
                        in Some (opends_ok, s1\<lparr>ref_futures := (ref_futures s1)(p := \<lparr>fut_done = True, fut_result = result\<rparr>)\<rparr>))))"

definition ref_async_read ::
  "ref_io \<Rightarrow> registered_file option \<Rightarrow> ptr \<Rightarrow> u64 \<Rightarrow> u64 \<Rightarrow> u64 \<Rightarrow> ptr \<Rightarrow> ref_sys \<Rightarrow> (opends_error \<times> ref_sys) option"
  where "ref_async_read io fh buf n file_off buf_off fut s =
     ref_async_submit io [] \<lparr>r_write = False, r_fh = fh, r_buf = buf, r_size = n, r_file_offset = file_off,
       r_buf_offset = buf_off\<rparr> fut s"

definition ref_async_write ::
  "ref_io \<Rightarrow> registered_file option \<Rightarrow> ptr \<Rightarrow> u64 \<Rightarrow> u64 \<Rightarrow> u64 \<Rightarrow> ptr \<Rightarrow> ref_sys \<Rightarrow> (opends_error \<times> ref_sys) option"
  where "ref_async_write io fh buf n file_off buf_off fut s =
     ref_async_submit io [] \<lparr>r_write = True, r_fh = fh, r_buf = buf, r_size = n, r_file_offset = file_off,
       r_buf_offset = buf_off\<rparr> fut s"

section \<open>The contract\<close>

definition ref_fut :: "ref_sys future_fn" where
  "ref_fut s p = ref_futures s p"

definition ref_reset :: "ptr \<Rightarrow> ref_sys \<Rightarrow> ref_sys" where
  "ref_reset p s = s\<lparr>ref_futures := (ref_futures s)(p := zero_future)\<rparr>"

text \<open>No operation is ever under way when another thread looks, and others leave the futures in \<open>F\<close> alone.\<close>

definition ref_busy :: "ref_sys \<Rightarrow> ptr \<Rightarrow> bool" where
  "ref_busy s p = False"

definition ref_step :: "ptr set \<Rightarrow> ref_sys \<Rightarrow> ref_sys \<Rightarrow> bool" where
  "ref_step F s s' \<longleftrightarrow> (\<forall>p \<in> F. ref_futures s' p = ref_futures s p)"

lemma ref_transfer_futures: "ref_transfer io wr h p len off s = Some (res, s') \<Longrightarrow> ref_futures s' = ref_futures s"
  by (auto simp: ref_transfer_def Let_def split: if_splits prod.splits sum.splits)

lemma ref_submit_future:
  assumes "ref_async_submit io others r p s = Some (e, s')"
  shows "if err e = OPENDS_SUCCESS then fut_done (ref_fut s' p) \<and> (\<forall>q. q \<noteq> p \<longrightarrow> ref_fut s' q = ref_fut s q) else s' = s"
  using assms
  by (auto simp: ref_async_submit_def Let_def opends_ok_def opends_err_def ref_fut_def ref_transfer_futures
      split: if_splits option.splits prod.splits)

interpretation ref: async_service "ref_async_submit io" ref_fut ref_reset ref_busy "\<lambda>_. True" ref_step for io
proof (unfold_locales, goal_cases)
  case (4 others r p s e s' F)
  then show ?case
    using ref_submit_future [OF 4(1)] by (auto simp: futures_kept_def ref_busy_def split: if_splits)
qed (auto simp: ref_busy_def ref_step_def futures_kept_def ref_fut_def ref_reset_def)

section \<open>Streams\<close>

text \<open>
  A stream call of this backend is a synchronous one, whose future is at \<open>p\<close>; it reads its parameters
  through the caller's pointers.
\<close>

definition ref_stream_read ::
  "ref_io \<Rightarrow> registered_file option \<Rightarrow> ptr \<Rightarrow> ptr \<Rightarrow> ptr \<Rightarrow> ptr \<Rightarrow> ptr \<Rightarrow> ptr \<Rightarrow> ref_sys \<Rightarrow> (opends_error \<times> ref_sys) option" where
  "ref_stream_read io fh buf lenp offp boffp bytesp p s =
     (case opends_sync_read (ref_async_submit io) ref_fut [] [] fh buf (ref_cells s lenp) (ref_cells s offp) (ref_cells s boffp) p s of
        None \<Rightarrow> None
      | Some (ret, s1) \<Rightarrow>
          Some (if sint ret < 0 then opends_err OPENDS_INTERNAL_ERROR else opends_ok,
                s1\<lparr>ref_cells := (ref_cells s1)(bytesp := ret)\<rparr>))"

definition ref_stream_write ::
  "ref_io \<Rightarrow> registered_file option \<Rightarrow> ptr \<Rightarrow> ptr \<Rightarrow> ptr \<Rightarrow> ptr \<Rightarrow> ptr \<Rightarrow> ptr \<Rightarrow> ref_sys \<Rightarrow> (opends_error \<times> ref_sys) option" where
  "ref_stream_write io fh buf lenp offp boffp bytesp p s =
     (case opends_sync_write (ref_async_submit io) ref_fut [] [] fh buf (ref_cells s lenp) (ref_cells s offp) (ref_cells s boffp) p s of
        None \<Rightarrow> None
      | Some (ret, s1) \<Rightarrow>
          Some (if sint ret < 0 then opends_err OPENDS_INTERNAL_ERROR else opends_ok,
                s1\<lparr>ref_cells := (ref_cells s1)(bytesp := ret)\<rparr>))"

section \<open>What a transfer does\<close>

lemma length_load [simp]: "length (load_bytes m a n) = n"
  by (simp add: load_bytes_def)

lemma load_store: "length xs = n \<Longrightarrow> load_bytes (store_bytes m a xs) a n = xs"
  by (auto simp: load_bytes_def store_bytes_def intro: nth_equalityI)

lemma store_nothing [simp]: "store_bytes m a [] = m"
  by (auto simp: store_bytes_def fun_eq_iff)

lemma take_length_take: "take (length (take n xs)) xs = take n xs"
  by (cases "n \<le> length xs") simp_all

text \<open>The conditions on the answers, those of theory Direct_IO.\<close>

definition ref_write_ok :: "ref_io \<Rightarrow> bool" where
  "ref_write_ok io \<longleftrightarrow> host_ok (io_os io) host_copy (io_reads io) \<and> errnos_ok (io_writes io)"

definition ref_read_ok :: "ref_io \<Rightarrow> bool" where
  "ref_read_ok io \<longleftrightarrow> progress (io_reads io) \<and> errnos_ok (io_reads io)"

lemma ref_write_result:
  assumes res: "ref_transfer io True h p len off s = Some (r, s')"
    and io: "ref_write_ok io" and room: "0 \<le> sint off" "nat (sint off) + unat len < 2 ^ 63"
  defines "f \<equiv> ref_files s (fd h)" and "f' \<equiv> ref_files s' (fd h)" and "data \<equiv> load_bytes (ref_mem s) (unat p) (unat len)"
  shows "ref_mem s' = ref_mem s \<and> (\<forall>d. d \<noteq> fd h \<longrightarrow> ref_files s' d = ref_files s d) \<and>
    (r < 0 \<and> untouched f (nat (sint off)) (unat len) f' \<or>
     0 \<le> r \<and> nat r \<le> unat len \<and> f' = file_write f (nat (sint off)) (take (nat r) data) \<and>
     (\<not> direct_aligned p len off \<longrightarrow> r = int (unat len)))"
proof (cases "direct_aligned p len off")
  case True
  show ?thesis
  proof (cases "io_once io")
    case (Xfer k)
    then have r: "r = int (min k (unat len))" "s' = s\<lparr>ref_files := (ref_files s)(fd h := file_write f (nat (sint off)) (take k data))\<rparr>"
      using res True room(1) by (simp_all add: ref_transfer_def Let_def pwrite_def f_def data_def)
    have "take k data = take (nat r) data"
      unfolding r(1) by (cases "k \<le> unat len") (simp_all add: data_def)
    then show ?thesis
      using r by (simp add: True f'_def)
  qed (use res True room(1) in \<open>auto simp: ref_transfer_def Let_def pwrite_def f_def f'_def untouched_def\<close>)
next
  case False
  define q where "q = nat (sint off)"
  have off: "sint off = int q"
    using room(1) by (simp add: q_def)
  obtain f1 where run: "opends_direct_pwrite (io_os io) host_copy (oflags h) data len (int q) (io_reads io) (io_writes io) f = Some (r, f1)"
    and s': "s' = s\<lparr>ref_files := (ref_files s)(fd h := f1)\<rparr>"
    using res False by (auto simp: ref_transfer_def Let_def f_def data_def off)
  have "r = int (unat len) \<and> f1 = file_write f q (take (unat len) data) \<or> r < 0 \<and> untouched f q (unat len) f1"
    using direct_pwrite_result [OF run] io room(2) by (simp add: ref_write_ok_def data_def q_def)
  then show ?thesis
    using s' False by (auto simp: f'_def q_def [symmetric])
qed

lemma ref_read_result:
  assumes res: "ref_transfer io False h p len off s = Some (r, s')"
    and io: "ref_read_ok io" and room: "0 \<le> sint off" "nat (sint off) + unat len < 2 ^ 63"
  defines "f \<equiv> ref_files s (fd h)"
  shows "ref_files s' = ref_files s \<and>
    (r < 0 \<and> ref_mem s' = ref_mem s \<or>
     0 \<le> r \<and> nat r \<le> unat len \<and> nat r \<le> length f - nat (sint off) \<and>
     ref_mem s' = store_bytes (ref_mem s) (unat p) (take (nat r) (drop (nat (sint off)) f)))"
proof (cases "direct_aligned p len off")
  case True
  show ?thesis
  proof (cases "io_once io")
    case (Xfer k)
    then have "r = int (length (take (min k (unat len)) (drop (nat (sint off)) f)))"
      "s' = s\<lparr>ref_mem := store_bytes (ref_mem s) (unat p) (take (min k (unat len)) (drop (nat (sint off)) f))\<rparr>"
      using res True room(1) by (simp_all add: ref_transfer_def Let_def pread_def f_def)
    then show ?thesis
      by (auto simp: min_def)
  qed (use res True room(1) in \<open>auto simp: ref_transfer_def Let_def pread_def\<close>)
next
  case False
  define q where "q = nat (sint off)"
  have off: "sint off = int q"
    using room(1) by (simp add: q_def)
  obtain xs where run: "opends_direct_pread (io_os io) f len (int q) (io_reads io) = Some (r, xs)"
    and s': "s' = s\<lparr>ref_mem := store_bytes (ref_mem s) (unat p) xs\<rparr>"
    using res False by (auto simp: ref_transfer_def Let_def f_def off)
  have "r = int (length xs) \<and> xs = take (unat len) (drop q f) \<or> r < 0 \<and> xs = []"
    using direct_pread_result [OF run] io room(2) by (simp add: ref_read_ok_def q_def)
  then consider (good) "r = int (length xs)" "xs = take (unat len) (drop q f)" | (bad) "r < 0" "xs = []"
    by blast
  then show ?thesis
  proof cases
    case good
    then have "xs = take (nat r) (drop q f)" "nat r \<le> unat len" "nat r \<le> length f - q"
      using take_length_take [of "unat len" "drop q f"] by simp_all
    then show ?thesis
      using s' good(1) by (simp add: q_def)
  qed (use s' in simp)
qed

lemma neg_err_sint: "e \<noteq> OPENDS_SUCCESS \<Longrightarrow> sint (neg_err e) < 0"
  using op_code_range [of e] by (auto simp: sint_neg_err)

text \<open>A synchronous call on this backend is one transfer.\<close>

lemma ref_sync_transfer:
  assumes "(case ref_async_submit io [] r p s of
        None \<Rightarrow> None
      | Some (e, s1) \<Rightarrow>
          if err e \<noteq> OPENDS_SUCCESS then Some (neg_err (err e), s1)
          else opends_async_await ref_fut [] p s1) = Some (n, s')"
    and "0 \<le> sint n"
  shows "\<exists>h res s1. r_fh r = Some h \<and> 0 \<le> res \<and> n = of_int res \<and>
    ref_transfer io (r_write r) h (r_buf r + r_buf_offset r) (r_size r) (r_file_offset r) s = Some (res, s1) \<and>
    ref_files s' = ref_files s1 \<and> ref_mem s' = ref_mem s1 \<and> driver_open s' = driver_open s1"
proof -
  have neg: "\<not> 0 \<le> sint (neg_err e)" if "e \<noteq> OPENDS_SUCCESS" for e
    using neg_err_sint [OF that] by simp
  show ?thesis
    using assms neg [of OPENDS_INTERNAL_ERROR] neg [of OPENDS_DRIVER_NOT_INITIALIZED] neg [of OPENDS_INVALID_VALUE]
    by (auto simp: ref_async_submit_def opends_async_await.simps Let_def opends_ok_def opends_err_def ref_fut_def
        split: if_splits option.splits prod.splits)
qed

section \<open>Properties\<close>



section \<open>Examples\<close>

text \<open>Three bytes from address 4096 to offset 5 of a one-byte file, and back.\<close>

definition demo_ref :: ref_sys where
  "demo_ref = \<lparr>driver_open = True, ref_files = (\<lambda>_. [9]), ref_mem = (\<lambda>a. of_nat (a - 4095)),
     ref_futures = (\<lambda>_. zero_future), ref_cells = (\<lambda>_. 0)\<rparr>"

definition demo_write_io :: ref_io where
  "demo_write_io = \<lparr>io_once = Intr, io_os = demo_calls, io_reads = [Xfer 4096], io_writes = [Xfer 100, Intr, Xfer 5000]\<rparr>"

definition demo_read_io :: ref_io where
  "demo_read_io = \<lparr>io_once = Intr, io_os = demo_calls, io_reads = [Intr, Xfer 2, Xfer 9000, Xfer 7], io_writes = []\<rparr>"

definition demo_handle :: registered_file where
  "demo_handle = \<lparr>fd = 3, oflags = 0\<rparr>"

lemma demo_io_ok: "ref_write_ok demo_write_io" "ref_read_ok demo_read_io"
  using demo_host_ok by (auto simp: ref_write_ok_def ref_read_ok_def demo_write_io_def demo_read_io_def errnos_ok_def progress_def)

lemma demo_data: "load_bytes (ref_mem demo_ref) 4096 3 = [1, 2, 3]"
  by (simp add: load_bytes_def demo_ref_def upt_rec)

lemma demo_unaligned: "\<not> direct_aligned p 3 5"
proof -
  have "bit ((p OR 3 OR 5) AND (BLOCK - 1)) 0"
    by (simp add: bit_simps BLOCK_def)
  then show ?thesis
    by (auto simp: direct_aligned_def)
qed

lemma demo_stored:
  "opends_direct_pwrite demo_calls host_copy 0 [1, 2, 3] 3 5 [Xfer 4096] [Xfer 100, Intr, Xfer 5000] [9] =
     Some (3, file_write [9] 5 [1, 2, 3])"
proof -
  obtain f' where run: "opends_direct_pwrite demo_calls host_copy 0 [1, 2, 3] 3 (int 5) [Xfer 4096] [Xfer 100, Intr, Xfer 5000] [9] = Some (3, f')"
    using demo_pwrite by auto
  then have "f' = file_write [9] 5 [1, 2, 3]"
    using direct_pwrite_result [OF run _ _ demo_host_ok] by (auto simp: errnos_ok_def)
  then show ?thesis
    using run by simp
qed

definition demo_written :: ref_sys where
  "demo_written = demo_ref\<lparr>ref_files := (ref_files demo_ref)(3 := file_write [9] 5 [1, 2, 3])\<rparr>"

lemma demo_transfer:
  "ref_transfer demo_write_io True demo_handle 4096 3 5 demo_ref = Some (3, demo_written)"
proof -
  have "ref_files demo_ref (fd demo_handle) = [9]" "fd demo_handle = 3" "oflags demo_handle = 0"
    by (simp_all add: demo_ref_def demo_handle_def)
  then show ?thesis
    using demo_data demo_unaligned demo_stored
    by (simp add: ref_transfer_def Let_def demo_write_io_def demo_written_def)
qed

lemma demo_back:
  "ref_files s 3 = file_write [9] 5 [1, 2, 3] \<Longrightarrow>
   ref_transfer demo_read_io False demo_handle 4096 3 5 s = Some (3, s\<lparr>ref_mem := store_bytes (ref_mem s) 4096 [1, 2, 3]\<rparr>)"
  using demo_unaligned demo_pread by (simp add: ref_transfer_def Let_def demo_read_io_def demo_handle_def)


text \<open>The same three bytes, written and read back by the synchronous calls.\<close>

lemma demo_sync_write:
  "opends_sync_write (ref_async_submit demo_write_io) ref_fut [] [] (Some demo_handle) 4096 3 5 0 64 demo_ref =
     Some (3, demo_written\<lparr>ref_futures := (ref_futures demo_ref)(64 := \<lparr>fut_done = True, fut_result = 3\<rparr>)\<rparr>)"
  using demo_transfer
  by (simp add: opends_sync_write_def ref_async_submit_def opends_async_await.simps Let_def opends_ok_def ref_fut_def
      demo_ref_def demo_written_def)

lemma demo_sync_read:
  assumes "ref_files s 3 = file_write [9] 5 [1, 2, 3]" "driver_open s"
  shows "\<exists>s2. opends_sync_read (ref_async_submit demo_read_io) ref_fut [] [] (Some demo_handle) 4096 3 5 0 64 s = Some (3, s2)"
  using demo_back [OF assms(1)] assms(2)
  by (simp add: opends_sync_read_def ref_async_submit_def opends_async_await.simps Let_def opends_ok_def ref_fut_def)


end
