(* ===== verification/Resources.thy ===== *)
theory Resources
  imports Prelude "HOL-Library.Multiset"
begin

text \<open>
  What the aisio backend holds of the outside world: memory, locks, the connection to the HOMI
  daemon, the device and its queues, threads, pinned and DMA memory. \<open>needs q r\<close> says that \<open>q\<close> works
  only while \<open>r\<close> is held; \<open>release\<close> is defined only for something that is held and that nothing else
  that is held needs, so that \<open>None\<close> stands for a double free, a use after free or a wrong order.
  Releases of a bounce buffer are allowed only when no I/O thread runs, which is more than needed
  for one that no operation can use yet.
\<close>

datatype lock = Submit_Lock | Reg_Lock | Alloc_Lock

datatype resource =
    R_Driver | R_Lock lock | R_Homi | R_Qpairs | R_Descpath | R_Device
  | R_Words ptr | R_Workers | R_Queue nat | R_Thread nat
  | R_Desc ptr | R_Bounce ptr | R_Buf ptr | R_Map ptr | R_Handle ptr

type_synonym held = "resource multiset"

primrec thread_needs :: "nat \<Rightarrow> resource \<Rightarrow> bool" where
  "thread_needs i R_Driver = True"
| "thread_needs i (R_Lock l) = True"
| "thread_needs i R_Homi = False"
| "thread_needs i R_Qpairs = False"
| "thread_needs i R_Descpath = False"
| "thread_needs i R_Device = True"
| "thread_needs i (R_Words p) = True"
| "thread_needs i R_Workers = True"
| "thread_needs i (R_Queue j) = (i = j)"
| "thread_needs i (R_Thread j) = False"
| "thread_needs i (R_Desc p) = False"
| "thread_needs i (R_Bounce p) = True"
| "thread_needs i (R_Buf p) = False"
| "thread_needs i (R_Map p) = False"
| "thread_needs i (R_Handle p) = False"

primrec needs :: "resource \<Rightarrow> resource \<Rightarrow> bool" where
  "needs R_Driver r = False"
| "needs (R_Lock l) r = (r = R_Driver)"
| "needs R_Homi r = (r = R_Driver)"
| "needs R_Qpairs r = False"
| "needs R_Descpath r = (r = R_Driver)"
| "needs R_Device r = (r \<in> {R_Driver, R_Qpairs})"
| "needs (R_Words p) r = (r = R_Driver)"
| "needs R_Workers r = (r = R_Driver)"
| "needs (R_Queue i) r = (r \<in> {R_Driver, R_Device, R_Workers})"
| "needs (R_Thread i) r = thread_needs i r"
| "needs (R_Desc p) r = (r = R_Driver)"
| "needs (R_Bounce p) r = (r \<in> {R_Driver, R_Device, R_Lock Alloc_Lock})"
| "needs (R_Buf p) r = (r \<in> {R_Driver, R_Device, R_Lock Alloc_Lock, R_Lock Reg_Lock})"
| "needs (R_Map p) r = (r \<in> {R_Driver, R_Device, R_Lock Reg_Lock})"
| "needs (R_Handle p) r = False"

definition release :: "resource \<Rightarrow> held \<Rightarrow> held option" where
  "release r H = (if r \<in># H \<and> filter_mset (\<lambda>q. needs q r) H = {#} then Some (H - {#r#}) else None)"

fun release_all :: "resource list \<Rightarrow> held \<Rightarrow> held option" where
  "release_all [] H = Some H"
| "release_all (r # rs) H = (case release r H of None \<Rightarrow> None | Some H' \<Rightarrow> release_all rs H')"

text \<open>A rank that every need decreases: what is released in the order of the ranks is never needed.\<close>

primrec rank :: "resource \<Rightarrow> nat" where
  "rank (R_Thread i) = 0"
| "rank (R_Desc p) = 1"
| "rank (R_Bounce p) = 1"
| "rank (R_Queue i) = 1"
| "rank (R_Words p) = 2"
| "rank R_Workers = 2"
| "rank (R_Buf p) = 2"
| "rank (R_Map p) = 2"
| "rank (R_Handle p) = 2"
| "rank R_Device = 3"
| "rank R_Qpairs = 4"
| "rank R_Homi = 5"
| "rank R_Descpath = 6"
| "rank (R_Lock l) = 7"
| "rank R_Driver = 8"

lemma needs_rank: "needs q r \<Longrightarrow> rank q < rank r"
  by (cases q; cases r) auto

definition free_of :: "held \<Rightarrow> resource list \<Rightarrow> bool" where
  "free_of K rs \<longleftrightarrow> (\<forall>q \<in># K. \<forall>r \<in> set rs. \<not> needs q r)"

lemma release_ok: "(\<And>q. q \<in># K \<Longrightarrow> \<not> needs q r) \<Longrightarrow> release r (add_mset r K) = Some K"
  using needs_rank [of r r] by (auto simp: release_def)

lemma release_all_sorted:
  "sorted (map rank rs) \<Longrightarrow> free_of K rs \<Longrightarrow> release_all rs (K + mset rs) = Some K"
proof (induction rs)
  case (Cons r rs)
  have "\<not> needs q r" if "q \<in># K + mset rs" for q
    using that Cons.prems needs_rank [of q r] by (fastforce simp: free_of_def)
  then have "release r (add_mset r (K + mset rs)) = Some (K + mset rs)"
    by (rule release_ok)
  then show ?case
    using Cons by (simp add: free_of_def)
qed simp

lemma release_all_append:
  "release_all (rs @ rs') H = (case release_all rs H of None \<Rightarrow> None | Some H' \<Rightarrow> release_all rs' H')"
  by (induction rs arbitrary: H) (auto split: option.splits)

text \<open>What is left afterwards is what was held beyond the list, whether or not the order is right.\<close>

lemma release_all_result: "release_all rs H = Some H' \<Longrightarrow> H = H' + mset rs"
  by (induction rs arbitrary: H) (auto simp: release_def split: option.splits if_splits)

lemma needs_handle [simp]: "\<not> needs q (R_Handle p)"
  by (cases q) simp_all

end
