(* ===== verification/Lifecycle.thy ===== *)
theory Lifecycle
  imports Async_Api Stream_Map Direct_IO Config Resources
begin

text \<open>
  The life of the aisio driver, src/opends_aisio.c: \<open>opends_driver_open\<close> with \<open>open_device\<close> and
  \<open>workers_setup\<close>, \<open>opends_driver_close\<close> with \<open>workers_teardown\<close>, and the registration of file handles.
  The record \<open>driver\<close> extends the part of \<open>struct driver\<close> that submission uses by the rest of it;
  \<open>bufs\<close> and \<open>stream_slots\<close> hold the first \<open>buf_count\<close> and \<open>n_streams\<close> entries of their arrays. The
  results of the calls of HOMI, xNVMe, the C library and the accelerator are arguments. Messages,
  the environment variable set for xNVMe and the stop flag are not modelled.
\<close>

section \<open>State\<close>

record buf_entry =
  entry_base :: ptr
  entry_length :: u64
  entry_owned :: bool

text \<open>Of an entry of \<open>streams\<close>, what registration sets; the gate and the rest are in the world.\<close>

record stream_slot =
  slot_gate_dptr :: u64
  slot_bounce :: ptr
  slot_desc_host :: ptr
  slot_desc_dev :: u64

record driver = aisio_driver +
  dev_uri :: string
  cfg :: driver_config
  attach_descpath :: bool
  xdev :: bool
  nsid :: u32
  bufs :: "buf_entry list"
  stream_slots :: "stream_slot list"
  stream_map :: "ds_stream_map_entry list"
  stream_words_host :: ptr
  stream_words_dptr :: u64
  accel_ctx :: ptr

record aisio_proc =
  drv :: "driver option"
  use_count :: int
  holds :: held
  world :: io_world

definition MAX_BUF_ENTRIES :: nat where "MAX_BUF_ENTRIES = 8192"

text \<open>\<open>STREAM_MAP_SIZE\<close> is \<open>2 * MAX_STREAMS\<close>, two to the power of 14.\<close>

definition STREAM_MAP_BITS :: nat where "STREAM_MAP_BITS = 14"
definition STREAM_MAP_MASK :: u32 where "STREAM_MAP_MASK = 2 * of_nat MAX_STREAMS - 1"

definition zero_op :: file_op where
  "zero_op = \<lparr>op_mode = FILE_OP_STREAM \<lparr>size_p = 0, file_offset_p = 0, buf_offset_p = 0, bytes_read_p = 0, op_stream = 0, seq = 0\<rparr>,
     is_write = False, op_state = FILE_OP_FREE, op_file = \<lparr>fd = 0, oflags = 0\<rparr>, buf_base = 0,
     chunks_remaining = 0, bounces_outstanding = 0, bytes_acc = 0, op_err = OPENDS_SUCCESS,
     bounces = replicate BOUNCE_SLOTS \<lparr>slot_dst = 0, slot_src = 0, slot_nbytes = 0\<rparr>, n_bounces = 0, op_bounce_buf = 0\<rparr>"

definition zero_stream :: opends_stream where
  "zero_stream = \<lparr>gate = 0, next_seq = 0, stream_bounce_buf = 0, bounce_desc = \<lparr>desc_dst = 0, desc_src = 0, desc_n_bytes = 0\<rparr>\<rparr>"

definition zero_slot :: qop where
  "zero_slot = \<lparr>q_op = zero_op, q_stream = zero_stream, q_inflight = [], q_log = []\<rparr>"

definition zero_worker :: io_worker where
  "zero_worker = \<lparr>file_op_queue = replicate (unat FILE_OP_QUEUE_SIZE) zero_slot, queue_head = 0, queue_tail = 0\<rparr>"

section \<open>Opening\<close>

record open_answers =
  oa_calloc :: bool
  oa_connect :: int
  oa_attach :: int
  oa_desc :: bool
  oa_dev :: "(xnvme_geo \<times> u32) option"
  oa_workers_calloc :: bool
  oa_queue_init :: "nat \<Rightarrow> int"
  oa_pthread_create :: "nat \<Rightarrow> int"

text \<open>
  \<open>ctx_get\<close> and \<open>host_alloc_mapped\<close> of the accelerator: a return code, and a context; a return code with
  the two addresses of a block, and what is held afterwards, where the block is entered as the
  resource the caller makes of it.
\<close>

type_synonym ctx_get_fn = "int \<times> ptr"
type_synonym host_alloc_fn = "(ptr \<Rightarrow> resource) \<Rightarrow> held \<Rightarrow> (int \<times> ptr \<times> u64) \<times> held"

text \<open>The result is the return code, the driver and what is held.\<close>

definition open_device :: "open_answers \<Rightarrow> driver \<Rightarrow> held \<Rightarrow> (int \<times> driver \<times> held) option" where
  "open_device a d H =
     (let d1 = d\<lparr>attach_descpath := oa_desc a\<rparr>; H1 = (if oa_desc a then add_mset R_Descpath H else H)
      in if oa_attach a < 0 then Some (oa_attach a, d1, H1)
         else let H2 = add_mset R_Qpairs H1
              in (case oa_dev a of
                   None \<Rightarrow> Some (- EIO, d1, H2)
                 | Some (x, ns) \<Rightarrow>
                     let H3 = add_mset R_Device H2
                     in (case open_device_geometry (cfg_aligned_only (cfg d)) x of
                          None \<Rightarrow> map_option (\<lambda>H'. (- EIO, d1, H')) (release R_Device H3)
                        | Some g \<Rightarrow> Some (0, d1\<lparr>xdev := True, nsid := ns, geo := g\<rparr>, H3))))"

text \<open>The loop of \<open>workers_setup\<close> from worker \<open>i\<close> on: the number of workers started when one fails.\<close>

fun start_workers :: "open_answers \<Rightarrow> nat list \<Rightarrow> held \<Rightarrow> (nat option \<times> held) option" where
  "start_workers a [] H = Some (None, H)"
| "start_workers a (i # is) H =
     (if oa_queue_init a i < 0 then Some (Some i, H)
      else let H1 = add_mset (R_Queue i) H
           in if oa_pthread_create a i \<noteq> 0 then map_option (\<lambda>H'. (Some i, H')) (release (R_Queue i) H1)
              else start_workers a is (add_mset (R_Thread i) H1))"

definition n_workers :: "driver \<Rightarrow> nat" where
  "n_workers d = nat (n_io_threads (cfg d))"

definition workers_setup ::
  "ctx_get_fn \<Rightarrow> host_alloc_fn \<Rightarrow> open_answers \<Rightarrow> driver \<Rightarrow> held \<Rightarrow> (int \<times> driver \<times> held) option" where
  "workers_setup ctx_get host_alloc a d H =
     (case ctx_get of (rc, ctx) \<Rightarrow>
      if rc \<noteq> 0 then Some (rc, d, H)
      else (case host_alloc R_Words H of ((rc, host, dptr), H1) \<Rightarrow>
      if rc \<noteq> 0 then Some (rc, d\<lparr>accel_ctx := ctx\<rparr>, H1)
      else let d1 = d\<lparr>accel_ctx := ctx, stream_words_host := host, stream_words_dptr := dptr\<rparr>
           in if \<not> oa_workers_calloc a
              then map_option (\<lambda>H'. (-1, d1\<lparr>stream_words_host := 0\<rparr>, H')) (release (R_Words host) H1)
              else (case start_workers a [0..<n_workers d] (add_mset R_Workers H1) of
                     None \<Rightarrow> None
                   | Some (None, H2) \<Rightarrow>
                       Some (0, d1\<lparr>workers := replicate (n_workers d) zero_worker, workers_ready := True\<rparr>, H2)
                   | Some (Some started, H2) \<Rightarrow>
                       map_option (\<lambda>H'. (-1, d1\<lparr>stream_words_host := 0\<rparr>, H'))
                         (release_all (map R_Thread [0..<started] @ map R_Queue [0..<started] @ [R_Workers, R_Words host]) H2))))"

definition locks :: "resource list" where
  "locks = [R_Lock Alloc_Lock, R_Lock Submit_Lock, R_Lock Reg_Lock]"

definition descpath_res :: "driver \<Rightarrow> resource list" where
  "descpath_res d = (if attach_descpath d then [R_Descpath] else [])"

definition new_driver :: "string \<Rightarrow> driver_config \<Rightarrow> driver" where
  "new_driver uri c = \<lparr>workers = [], rr_next = 0, workers_ready = False,
     geo = \<lparr>lba_size = 0, lba_shift = 0, mdts_nbytes = 0, assume_aligned_only = cfg_aligned_only c\<rparr>,
     dev_uri = take 63 uri, cfg = c, attach_descpath = False, xdev = False, nsid = 0, bufs = [], stream_slots = [],
     stream_map = empty_stream_map STREAM_MAP_BITS, stream_words_host = 0, stream_words_dptr = 0, accel_ctx = 0\<rparr>"

definition opends_driver_open ::
  "ctx_get_fn \<Rightarrow> host_alloc_fn \<Rightarrow> environ \<Rightarrow> accel_caps \<Rightarrow> open_answers \<Rightarrow> aisio_proc \<Rightarrow> (opends_error \<times> aisio_proc) option" where
  "opends_driver_open ctx_get host_alloc env caps a P =
     (if drv P \<noteq> None then Some (opends_err OPENDS_DRIVER_ALREADY_OPEN, P)
      else (case env ''OPENDS_HOMI_DEV'' of
        None \<Rightarrow> Some (opends_err OPENDS_FS_SETUP_ERROR, P)
      | Some dev \<Rightarrow>
      if dev = [] then Some (opends_err OPENDS_FS_SETUP_ERROR, P)
      else if \<not> oa_calloc a then Some (opends_err OPENDS_INTERNAL_ERROR, P)
      else let H1 = add_mset R_Driver (holds P)
      in (case read_env_config env caps of
        Inl e \<Rightarrow> map_option (\<lambda>H. (opends_err OPENDS_FS_SETUP_ERROR, P\<lparr>holds := H\<rparr>)) (release R_Driver H1)
      | Inr c \<Rightarrow>
      let d = new_driver dev c; H2 = H1 + mset locks
      in if oa_connect a < 0
         then map_option (\<lambda>H. (opends_err OPENDS_FS_SETUP_ERROR, P\<lparr>holds := H\<rparr>)) (release_all (locks @ [R_Driver]) H2)
      else (case open_device a d (add_mset R_Homi H2) of
        None \<Rightarrow> None
      | Some (orc, d1, H3) \<Rightarrow>
      if orc < 0
      then map_option (\<lambda>H. (opends_err OPENDS_DEVICE_NOT_FOUND, P\<lparr>drv := None, holds := H\<rparr>))
             (release_all ([R_Homi] @ descpath_res d1 @ locks @ [R_Driver]) H3)
      else (case workers_setup ctx_get host_alloc a d1 H3 of
        None \<Rightarrow> None
      | Some (arc, d2, H4) \<Rightarrow>
      if arc \<noteq> 0
      then map_option (\<lambda>H. (opends_err_dev OPENDS_DEVICE_DRIVER_ERROR arc, P\<lparr>drv := None, holds := H\<rparr>))
             (release_all ([R_Device, R_Qpairs, R_Homi] @ descpath_res d2 @ locks @ [R_Driver]) H4)
      else Some (opends_ok, P\<lparr>drv := Some d2, holds := H4,
             world := (world P)\<lparr>streams := replicate MAX_STREAMS zero_stream\<rparr>\<rparr>))))))"

section \<open>Closing\<close>

text \<open>The two releases of \<open>stream_bounce_free\<close>, and those of \<open>workers_teardown\<close> for one worker.\<close>

definition stream_res :: "stream_slot \<Rightarrow> resource list" where
  "stream_res s = (if slot_bounce s \<noteq> 0 then [R_Bounce (slot_bounce s)] else []) @
     (if slot_desc_host s \<noteq> 0 then [R_Desc (slot_desc_host s)] else [])"

definition bounce_bufs :: "io_worker \<Rightarrow> ptr list" where
  "bounce_bufs w = filter (\<lambda>p. p \<noteq> 0) (map (\<lambda>q. op_bounce_buf (q_op q)) (file_op_queue w))"

definition worker_res :: "driver \<Rightarrow> nat \<Rightarrow> resource list" where
  "worker_res d i = map R_Bounce (bounce_bufs (workers d ! i)) @ [R_Queue i]"

definition teardown_res :: "driver \<Rightarrow> resource list" where
  "teardown_res d = map R_Thread [0..<n_workers d] @ concat (map stream_res (stream_slots d)) @
     concat (map (worker_res d) [0..<n_workers d]) @ [R_Workers, R_Words (stream_words_host d)]"

definition workers_teardown :: "driver \<Rightarrow> held \<Rightarrow> held option" where
  "workers_teardown d H = (if workers_ready d then release_all (teardown_res d) H else Some H)"

definition buf_res :: "buf_entry \<Rightarrow> resource" where
  "buf_res e = (if entry_owned e then R_Buf (entry_base e) else R_Map (entry_base e))"

definition opends_driver_close :: "aisio_proc \<Rightarrow> (opends_error \<times> aisio_proc) option" where
  "opends_driver_close P =
     (case drv P of
        None \<Rightarrow> Some (opends_err OPENDS_DRIVER_NOT_INITIALIZED, P)
      | Some d \<Rightarrow>
          (case workers_teardown d (holds P) of
             None \<Rightarrow> None
           | Some H \<Rightarrow>
               map_option (\<lambda>H'. (opends_ok, P\<lparr>drv := None, holds := H'\<rparr>))
                 (release_all (map buf_res (bufs d) @ (if xdev d then [R_Device] else []) @ [R_Qpairs, R_Homi] @
                    descpath_res d @ locks @ [R_Driver]) H)))"

section \<open>File handles\<close>

definition opends_use_count :: "aisio_proc \<Rightarrow> int" where
  "opends_use_count P = use_count P"

record drv_props =
  major_version :: u32
  minor_version :: u32
  max_direct_io_size :: u64
  max_batch_io_size :: u32
  max_batch_io_timeout_msecs :: u32

definition opends_driver_get_properties :: "bool \<Rightarrow> aisio_proc \<Rightarrow> opends_error \<times> drv_props option" where
  "opends_driver_get_properties propsp P =
     (case drv P of
        None \<Rightarrow> (opends_err OPENDS_DRIVER_NOT_INITIALIZED, None)
      | Some d \<Rightarrow>
          if \<not> propsp then (opends_err OPENDS_INVALID_VALUE, None)
          else (opends_ok, Some \<lparr>major_version = 0, minor_version = 1, max_direct_io_size = ucast (mdts_nbytes (geo d)),
                  max_batch_io_size = 0, max_batch_io_timeout_msecs = 0\<rparr>))"

definition opends_driver_set_max_direct_io_size :: "u64 \<Rightarrow> aisio_proc \<Rightarrow> opends_error" where
  "opends_driver_set_max_direct_io_size n P =
     (if drv P \<noteq> None then opends_ok else opends_err OPENDS_DRIVER_NOT_INITIALIZED)"

text \<open>The three versions, each stored only where the caller gave a pointer.\<close>

definition aisio_get_version :: "bool \<Rightarrow> bool \<Rightarrow> bool \<Rightarrow> opends_error \<times> u32 option \<times> u32 option \<times> u32 option" where
  "aisio_get_version major minor patch =
     (opends_ok, if major then Some 0 else None, if minor then Some 1 else None, if patch then Some 0 else None)"

definition O_DIRECT :: u32 where "O_DIRECT = 0x4000"

text \<open>\<open>flags\<close> is what \<open>fcntl\<close> returns, \<open>mem\<close> what \<open>calloc\<close> returns; a handle is its address and its file.\<close>

definition opends_handle_register ::
  "bool \<Rightarrow> int \<Rightarrow> int \<Rightarrow> ptr \<Rightarrow> aisio_proc \<Rightarrow> opends_error \<times> (ptr \<times> registered_file) option \<times> aisio_proc" where
  "opends_handle_register fhp d flags p P =
     (if drv P = None then (opends_err OPENDS_DRIVER_NOT_INITIALIZED, None, P)
      else if \<not> fhp then (opends_err OPENDS_INVALID_VALUE, None, P)
      else if flags < 0 then (opends_err OPENDS_INVALID_VALUE, None, P)
      else if of_int flags AND O_DIRECT = 0 then (opends_err OPENDS_DIO_NOT_SET, None, P)
      else if p = 0 then (opends_err OPENDS_INTERNAL_ERROR, None, P)
      else (opends_ok, Some (p, \<lparr>fd = d, oflags = of_int flags\<rparr>),
            P\<lparr>use_count := use_count P + 1, holds := add_mset (R_Handle p) (holds P)\<rparr>))"

definition opends_handle_deregister :: "ptr \<Rightarrow> aisio_proc \<Rightarrow> aisio_proc option" where
  "opends_handle_deregister fh P =
     (if fh = 0 then Some P
      else map_option (\<lambda>H. P\<lparr>use_count := use_count P - 1, holds := H\<rparr>) (release (R_Handle fh) (holds P)))"

end
