(* ===== verification/Lifecycle_Correct.thy ===== *)
theory Lifecycle_Correct
  imports Lifecycle Read_Plan
begin

text \<open>
  What an open driver holds and what is true of it, that opening establishes it or gives everything
  back, and that closing gives everything back, in an order in which nothing is released that
  something else still needs. Opening rests on the contract of the accelerator's allocation, the
  locale \<open>accel_memory\<close>, which the CUDA operations keep.
\<close>

section \<open>The invariant\<close>

definition driver_res :: "driver \<Rightarrow> resource list" where
  "driver_res d = teardown_res d @ map buf_res (bufs d) @ [R_Device, R_Qpairs, R_Homi] @ descpath_res d @ locks @ [R_Driver]"

definition streams_inv :: "driver \<Rightarrow> bool" where
  "streams_inv d \<longleftrightarrow> length (stream_slots d) \<le> MAX_STREAMS \<and>
     stream_map_inv STREAM_MAP_BITS (stream_map d) \<and>
     free_slots (stream_map d) + length (stream_slots d) = 2 ^ STREAM_MAP_BITS \<and>
     (\<forall>s i. stream_map_view (stream_map d) s = Some i \<longrightarrow> 0 \<le> i \<and> i < int (length (stream_slots d))) \<and>
     (\<forall>s t i. stream_map_view (stream_map d) s = Some i \<longrightarrow> stream_map_view (stream_map d) t = Some i \<longrightarrow> s = t) \<and>
     (\<forall>sl \<in> set (stream_slots d). slot_bounce sl \<noteq> 0 \<and> slot_desc_host sl \<noteq> 0)"

definition driver_inv :: "driver \<Rightarrow> bool" where
  "driver_inv d \<longleftrightarrow> workers_ready d \<and> xdev d \<and> length (workers d) = n_workers d \<and> 1 \<le> n_workers d \<and> n_workers d \<le> 15 \<and>
     geo_ok (geo d) \<and> driver_ok (aisio_driver.truncate d) \<and> length (bufs d) \<le> MAX_BUF_ENTRIES \<and> streams_inv d"

text \<open>What outlives a driver: the handles, and queue pairs that opening has left attached.\<close>

definition foreign :: "held \<Rightarrow> bool" where
  "foreign K \<longleftrightarrow> (\<forall>q \<in># K. (\<exists>p. q = R_Handle p) \<or> q = R_Qpairs)"

definition proc_inv :: "held \<Rightarrow> aisio_proc \<Rightarrow> bool" where
  "proc_inv K P \<longleftrightarrow> foreign K \<and>
     (case drv P of None \<Rightarrow> holds P = K
      | Some d \<Rightarrow> driver_inv d \<and> holds P = K + mset (driver_res d) \<and> length (streams (world P)) = MAX_STREAMS)"

section \<open>Releasing\<close>

lemma foreign_needs: "foreign K \<Longrightarrow> q \<in># K \<Longrightarrow> \<not> needs q r"
  by (auto simp: foreign_def)

lemma foreign_simps [simp]:
  "foreign {#}" "foreign (add_mset R_Qpairs K) = foreign K" "foreign (add_mset (R_Handle p) K) = foreign K"
  by (auto simp: foreign_def)

lemma release_foreign:
  "foreign K \<Longrightarrow> sorted (map rank rs) \<Longrightarrow> H = K + mset rs \<Longrightarrow> release_all rs H = Some K"
  using release_all_sorted [of rs K] by (simp add: free_of_def foreign_needs)

lemma sorted_level:
  assumes "sorted (map rank rs')" "\<And>r. r \<in> set rs \<Longrightarrow> rank r = c" "\<And>r. r \<in> set rs' \<Longrightarrow> c \<le> rank r"
  shows "sorted (map rank (rs @ rs'))"
proof -
  have "sorted (map rank rs)"
    by (simp add: sorted_iff_nth_mono assms(2))
  moreover have "\<forall>x \<in> set (map rank rs). \<forall>y \<in> set (map rank rs'). x \<le> y"
    using assms(2,3) by fastforce
  ultimately show ?thesis
    unfolding map_append sorted_append using assms(1) by blast
qed

lemma inner_rank:
  "r \<in> set (concat (map stream_res ss) @ concat (map (worker_res d) is)) \<Longrightarrow> rank r = 1"
  by (auto simp: stream_res_def worker_res_def split: if_splits)

lemma driver_res_sorted: "sorted (map rank (driver_res d))"
proof -
  define threads where "threads = map R_Thread [0..<n_workers d]"
  define inner where "inner = concat (map stream_res (stream_slots d)) @ concat (map (worker_res d) [0..<n_workers d])"
  define outer where "outer = [R_Workers, R_Words (stream_words_host d)] @ map buf_res (bufs d)"
  define final where "final = [R_Device, R_Qpairs, R_Homi] @ descpath_res d @ locks @ [R_Driver]"
  have t: "rank r = 0" if "r \<in> set threads" for r
    using that by (auto simp: threads_def)
  have i: "rank r = 1" if "r \<in> set inner" for r
    using that unfolding inner_def by (rule inner_rank)
  have o: "rank r = 2" if "r \<in> set outer" for r
    using that by (auto simp: outer_def buf_res_def)
  have f: "3 \<le> rank r" if "r \<in> set final" for r
    using that by (auto simp: final_def descpath_res_def locks_def split: if_splits)
  have "sorted (map rank final)"
    by (simp add: final_def descpath_res_def locks_def)
  then have "sorted (map rank (outer @ final))"
    by (rule sorted_level [OF _ o]) (use f in fastforce)+
  then have "sorted (map rank (inner @ outer @ final))"
    by (rule sorted_level [OF _ i]) (use o f in fastforce)+
  then have "sorted (map rank (threads @ inner @ outer @ final))"
    by (rule sorted_level [OF _ t]) simp_all
  then show ?thesis
    by (simp add: driver_res_def teardown_res_def final_def threads_def inner_def outer_def)
qed

lemma close_result:
  assumes "proc_inv K P"
  shows "opends_driver_close P = (case drv P of
      None \<Rightarrow> Some (opends_err OPENDS_DRIVER_NOT_INITIALIZED, P)
    | Some d \<Rightarrow> Some (opends_ok, P\<lparr>drv := None, holds := K\<rparr>))"
proof (cases "drv P")
  case (Some d)
  have d: "driver_inv d" "foreign K" "holds P = K + mset (driver_res d)"
    using assms Some by (auto simp: proc_inv_def)
  have "release_all (driver_res d) (holds P) = Some K"
    using release_foreign [OF d(2) driver_res_sorted d(3)] .
  then obtain H where "release_all (teardown_res d) (holds P) = Some H"
    "release_all (map buf_res (bufs d) @ [R_Device, R_Qpairs, R_Homi] @ descpath_res d @ locks @ [R_Driver]) H = Some K"
    unfolding driver_res_def release_all_append [of "teardown_res d"] by (auto split: option.splits)
  then show ?thesis
    using Some d(1) by (simp add: opends_driver_close_def workers_teardown_def driver_inv_def)
qed (simp add: opends_driver_close_def)

section \<open>Opening\<close>

text \<open>
  What \<open>ds_accel.h\<close> promises of \<open>host_alloc_mapped\<close>: a nonzero code and nothing held, or a block. \<open>valid\<close>
  is what the vendor's own library promises.
\<close>

locale accel_memory =
  fixes host_alloc :: "'a \<Rightarrow> host_alloc_fn"
    and valid :: "'a \<Rightarrow> bool"
  assumes alloc: "valid v \<Longrightarrow> host_alloc v c H = ((rc, p, q), H') \<Longrightarrow>
    if rc = 0 then p \<noteq> 0 \<and> H' = add_mset (c p) H else H' = H"

definition run_res :: "nat \<Rightarrow> held" where
  "run_res k = mset (map R_Thread [0..<k]) + mset (map R_Queue [0..<k])"

lemma run_res_simps [simp]: "run_res 0 = {#}" "run_res (Suc k) = add_mset (R_Thread k) (add_mset (R_Queue k) (run_res k))"
  by (simp_all add: run_res_def)

lemma in_run_res: "q \<in># run_res k \<longleftrightarrow> (\<exists>j < k. q = R_Thread j \<or> q = R_Queue j)"
  by (auto simp: run_res_def)

lemma start_workers_result:
  assumes "\<And>q j. q \<in># B \<Longrightarrow> \<not> needs q (R_Queue j)" "i \<le> n"
  shows "\<exists>k H. start_workers a [i..<n] (B + run_res i) = Some (k, H) \<and>
    (case k of None \<Rightarrow> H = B + run_res n | Some k \<Rightarrow> k < n \<and> H = B + run_res k)"
  using assms(2)
proof (induction "n - i" arbitrary: i)
  case (Suc m)
  then have i: "i < n" "[i..<n] = i # [Suc i..<n]"
    by (simp_all add: upt_conv_Cons)
  have "\<not> needs q (R_Queue i)" if "q \<in># B + run_res i" for q
    using that assms(1) by (auto simp: in_run_res)
  then have rel: "release (R_Queue i) (add_mset (R_Queue i) (B + run_res i)) = Some (B + run_res i)"
    by (rule release_ok)
  have more: "\<exists>k H. start_workers a [Suc i..<n] (B + run_res (Suc i)) = Some (k, H) \<and>
      (case k of None \<Rightarrow> H = B + run_res n | Some k \<Rightarrow> k < n \<and> H = B + run_res k)"
    by (rule Suc(1)) (use Suc(2) i in simp_all)
  show ?case
    unfolding i(2) using i(1) rel more by (simp add: Let_def)
qed simp

definition quiet :: "held \<Rightarrow> bool" where
  "quiet H \<longleftrightarrow> (\<forall>q \<in># H. 3 \<le> rank q \<or> (\<exists>p. q = R_Handle p))"

lemma quiet_needs: "quiet H \<Longrightarrow> q \<in># H \<Longrightarrow> rank r \<le> 3 \<Longrightarrow> \<not> needs q r"
  using needs_rank [of q r] by (auto simp: quiet_def)

lemma quiet_simps [simp]:
  "quiet (add_mset q H) \<longleftrightarrow> (3 \<le> rank q \<or> (\<exists>p. q = R_Handle p)) \<and> quiet H" "quiet (H + H') \<longleftrightarrow> quiet H \<and> quiet H'" "quiet {#}"
  by (auto simp: quiet_def)

lemma foreign_quiet: "foreign K \<Longrightarrow> quiet K"
  by (auto simp: foreign_def quiet_def)

lemma release_quiet:
  assumes "quiet K" "sorted (map rank rs)" "\<And>r. r \<in> set rs \<Longrightarrow> rank r \<le> 3"
  shows "release_all rs (K + mset rs) = Some K"
  using release_all_sorted [OF assms(2)] quiet_needs [OF assms(1)] assms(3) by (auto simp: free_of_def)

lemma run_sorted: "sorted (map rank (map R_Thread [0..<k] @ map R_Queue [0..<k] @ [R_Workers, R_Words p]))"
  by (rule sorted_level [where c = 0], rule sorted_level [where c = 1]) auto

definition desc_res :: "open_answers \<Rightarrow> held" where
  "desc_res a = (if oa_desc a then {#R_Descpath#} else {#})"

lemma open_device_result:
  assumes "quiet H"
  shows "\<exists>rc d' H'. open_device a d H = Some (rc, d', H') \<and> attach_descpath d' = oa_desc a \<and>
    (if rc < 0 then H' = H + desc_res a + (if 0 \<le> oa_attach a then {#R_Qpairs#} else {#})
     else \<exists>g ns. geo_ok g \<and> d' = d\<lparr>attach_descpath := oa_desc a, xdev := True, nsid := ns, geo := g\<rparr> \<and>
       H' = H + desc_res a + {#R_Qpairs, R_Device#})"
proof -
  have quiet: "quiet (add_mset R_Qpairs (H + desc_res a))"
    using assms by (simp add: desc_res_def)
  have rel: "release R_Device (add_mset R_Device (add_mset R_Qpairs (H + desc_res a))) = Some (add_mset R_Qpairs (H + desc_res a))"
    by (rule release_ok, rule quiet_needs [OF quiet]) simp_all
  have H1: "(if oa_desc a then add_mset R_Descpath H else H) = H + desc_res a"
    by (simp add: desc_res_def)
  have geo: "geo_ok g" if "open_device_geometry b x = Some g" for b x g
    using that open_geometry_result [where al = b and x = x] by simp
  show ?thesis
  proof (cases "0 \<le> oa_attach a")
    case attached: True
    show ?thesis
    proof (cases "oa_dev a")
      case (Some dev)
      then obtain x ns where dev: "oa_dev a = Some (x, ns)"
        by fastforce
      show ?thesis
        using attached dev rel geo [of "cfg_aligned_only (cfg d)" x]
        by (cases "open_device_geometry (cfg_aligned_only (cfg d)) x")
          (auto simp: open_device_def H1 Let_def EIO_def intro!: exI [of _ ns])
    qed (use attached in \<open>simp add: open_device_def H1 Let_def EIO_def\<close>)
  qed (simp add: open_device_def H1 Let_def)
qed

lemma zero_worker_ok: "worker_ok zero_worker" "bounce_bufs zero_worker = []"
proof -
  have "slot_at zero_worker i = zero_slot" for i
    using slot_of_less [of i] by (simp add: slot_at_def zero_worker_def queue_size)
  then show "worker_ok zero_worker"
    by (auto simp: worker_ok_def ring_ok_def ring_len_def state_at_def op_shape_def zero_worker_def zero_slot_def
        zero_op_def)
  show "bounce_bufs zero_worker = []"
    by (simp add: bounce_bufs_def zero_worker_def zero_slot_def zero_op_def)
qed

lemma zero_worker_res:
  assumes "workers d = replicate n zero_worker"
  shows "mset (concat (map (worker_res d) [0..<n])) = mset (map R_Queue [0..<n])"
proof -
  have "map (worker_res d) [0..<n] = map (\<lambda>i. [R_Queue i]) [0..<n]"
    using zero_worker_ok(2) by (simp add: worker_res_def assms)
  then show ?thesis
    by (simp only: concat_map_singleton)
qed

text \<open>The driver when everything has been set up.\<close>

lemma started_driver:
  assumes c: "read_env_config env caps = Inr c" and g: "geo_ok g"
    and d: "d = (new_driver dev c)\<lparr>attach_descpath := b, xdev := True, nsid := ns, geo := g, accel_ctx := ctx,
      stream_words_host := p, stream_words_dptr := q, workers := replicate (nat (n_io_threads c)) zero_worker, workers_ready := True\<rparr>"
  shows "driver_inv d" "workers d = replicate (n_workers d) zero_worker" "bufs d = []" "stream_slots d = []"
    "mset (driver_res d) = {#R_Driver, R_Homi, R_Qpairs, R_Device, R_Words p, R_Workers#} + mset locks +
       (if b then {#R_Descpath#} else {#}) + run_res (nat (n_io_threads c))"
proof -
  have fields: "bufs d = []" "stream_slots d = []" "stream_map d = empty_stream_map STREAM_MAP_BITS"
    "n_workers d = nat (n_io_threads c)" "workers d = replicate (n_workers d) zero_worker" "geo d = g" "xdev d" "workers_ready d"
    "stream_words_host d = p" "attach_descpath d = b"
    by (simp_all add: d new_driver_def n_workers_def)
  show "workers d = replicate (n_workers d) zero_worker" "bufs d = []" "stream_slots d = []"
    by (fact fields)+
  have "1 \<le> nat (n_io_threads c)" "nat (n_io_threads c) \<le> 15"
    using config_bounds [OF c] by auto
  then show "driver_inv d"
    using g fields zero_worker_ok
    by (simp add: driver_inv_def driver_ok_def streams_inv_def STREAM_MAP_BITS_def stream_map_inv_empty aisio_driver.truncate_def)
  have "mset (concat (map (worker_res d) [0..<n_workers d])) = mset (map R_Queue [0..<n_workers d])"
    by (rule zero_worker_res) (rule fields)
  then show "mset (driver_res d) = {#R_Driver, R_Homi, R_Qpairs, R_Device, R_Words p, R_Workers#} + mset locks +
       (if b then {#R_Descpath#} else {#}) + run_res (nat (n_io_threads c))"
    using fields by (simp add: driver_res_def teardown_res_def run_res_def descpath_res_def del: mset_map)
qed

text \<open>What is held when the device is opened.\<close>

definition base_held :: "held \<Rightarrow> held" where
  "base_held K = add_mset R_Homi (add_mset R_Driver K + mset locks)"

lemma base_quiet: "foreign K \<Longrightarrow> quiet (base_held K)"
  using foreign_quiet [of K] by (simp add: base_held_def locks_def)

text \<open>Before that, nothing is held but the driver and its locks, and they are given back.\<close>

lemma open_refused:
  assumes K: "foreign K" and P: "drv P = None" "holds P = K"
    and no: "\<nexists>dev c. env ''OPENDS_HOMI_DEV'' = Some dev \<and> dev \<noteq> [] \<and> oa_calloc a \<and> read_env_config env caps = Inr c \<and> 0 \<le> oa_connect a"
  shows "\<exists>e. opends_driver_open ctx_get host env caps a P = Some (opends_err e, P) \<and> e \<notin> {OPENDS_SUCCESS, OPENDS_DEVICE_NOT_FOUND}"
proof -
  have "release R_Driver (add_mset R_Driver K) = Some K"
    using foreign_needs [OF K] by (intro release_ok)
  moreover have "release_all (locks @ [R_Driver]) (add_mset R_Driver K + mset locks) = Some K"
    by (rule release_foreign [OF K]) (simp_all add: locks_def)
  ultimately show ?thesis
    using no P by (cases "env ''OPENDS_HOMI_DEV''"; cases "read_env_config env caps")
      (auto simp: opends_driver_open_def Let_def)
qed

text \<open>What \<open>open_device\<close> leaves when it fails is released but for the queue pairs.\<close>

lemma device_failed:
  assumes K: "foreign K" and fail: "open_device a d (base_held K) = Some (rc, d1, H)" "rc < 0"
  shows "release_all ([R_Homi] @ descpath_res d1 @ locks @ [R_Driver]) H = Some (K + (if 0 \<le> oa_attach a then {#R_Qpairs#} else {#}))"
proof -
  from open_device_result [OF base_quiet [OF K], of a d] fail
  have d1: "attach_descpath d1 = oa_desc a" "H = base_held K + desc_res a + (if 0 \<le> oa_attach a then {#R_Qpairs#} else {#})"
    by auto
  have "foreign (K + (if 0 \<le> oa_attach a then {#R_Qpairs#} else {#}))"
    using K by simp
  then show ?thesis
    by (rule release_foreign) (simp_all add: d1 base_held_def locks_def descpath_res_def desc_res_def)
qed

context accel_memory
begin

lemma workers_setup_result:
  assumes v: "valid v" and H: "quiet H"
  shows "\<exists>rc d' H'. workers_setup ctx_get (host_alloc v) a d H = Some (rc, d', H') \<and> attach_descpath d' = attach_descpath d \<and>
    (if rc = 0 then \<exists>ctx p q. p \<noteq> 0 \<and> d' = d\<lparr>accel_ctx := ctx, stream_words_host := p, stream_words_dptr := q,
         workers := replicate (n_workers d) zero_worker, workers_ready := True\<rparr> \<and>
       H' = H + {#R_Words p, R_Workers#} + run_res (n_workers d)
     else H' = H)"
proof -
  obtain rc ctx where c: "ctx_get = (rc, ctx)"
    by fastforce
  obtain rc' p q H1 where h: "host_alloc v R_Words H = ((rc', p, q), H1)"
    using prod.exhaust by metis
  note al = alloc [OF v h]
  show ?thesis
  proof (cases "rc = 0 \<and> rc' = 0 \<and> oa_workers_calloc a")
    case True
    then have H1: "p \<noteq> 0" "H1 = add_mset (R_Words p) H"
      using al by simp_all
    define B where "B = H + {#R_Words p, R_Workers#}"
    have "\<not> needs r (R_Queue j)" if "r \<in># B" for r j
      using that quiet_needs [OF H, of r "R_Queue j"] by (auto simp: B_def)
    from start_workers_result [of B, OF this, of 0 "n_workers d" a]
    obtain k H2 where s: "start_workers a [0..<n_workers d] (add_mset R_Workers H1) = Some (k, H2)"
      "case k of None \<Rightarrow> H2 = B + run_res (n_workers d) | Some k \<Rightarrow> k < n_workers d \<and> H2 = B + run_res k"
      by (auto simp: B_def H1 add_mset_commute)
    show ?thesis
    proof (cases k)
      case None
      then show ?thesis
        using True c h s H1 by (simp add: workers_setup_def Let_def B_def) blast
    next
      case (Some j)
      have "H2 = H + mset (map R_Thread [0..<j] @ map R_Queue [0..<j] @ [R_Workers, R_Words p])"
        using s(2) Some by (simp add: B_def run_res_def)
      then have "release_all (map R_Thread [0..<j] @ map R_Queue [0..<j] @ [R_Workers, R_Words p]) H2 = Some H"
        by (simp only:) (rule release_quiet [OF H run_sorted], auto)
      then show ?thesis
        using True c h s(1) Some by (simp add: workers_setup_def Let_def)
    qed
  next
    case False
    have "release (R_Words p) (add_mset (R_Words p) H) = Some H"
      using quiet_needs [OF H] by (intro release_ok) simp
    then show ?thesis
      using False c h al by (cases "rc = 0"; cases "rc' = 0") (auto simp: workers_setup_def Let_def)
  qed
qed

text \<open>The rest of the opening, once the device is open.\<close>

lemma device_opened:
  assumes v: "valid v" and K: "foreign K" and c: "read_env_config env caps = Inr c"
    and dev: "open_device a (new_driver uri c) (base_held K) = Some (rc, d1, H)" "0 \<le> rc"
  obtains arc d2 H' where "workers_setup ctx_get (host_alloc v) a d1 H = Some (arc, d2, H')"
    "if arc = 0 then driver_inv d2 \<and> H' = K + mset (driver_res d2) \<and> workers d2 = replicate (n_workers d2) zero_worker \<and>
       bufs d2 = [] \<and> stream_slots d2 = []
     else release_all ([R_Device, R_Qpairs, R_Homi] @ descpath_res d2 @ locks @ [R_Driver]) H' = Some K"
proof -
  from open_device_result [OF base_quiet [OF K], of a "new_driver uri c"] dev
  obtain g ns where g: "geo_ok g" "d1 = (new_driver uri c)\<lparr>attach_descpath := oa_desc a, xdev := True, nsid := ns, geo := g\<rparr>"
    "H = base_held K + desc_res a + {#R_Qpairs, R_Device#}"
    by auto
  have n: "n_workers d1 = nat (n_io_threads c)"
    by (simp add: g(2) new_driver_def n_workers_def)
  have "quiet H"
    using base_quiet [OF K] by (simp add: g(3) desc_res_def)
  from workers_setup_result [OF v this, of ctx_get a d1]
  obtain arc d2 H' where w: "workers_setup ctx_get (host_alloc v) a d1 H = Some (arc, d2, H')" "attach_descpath d2 = oa_desc a"
    "if arc = 0 then \<exists>ctx p q. p \<noteq> 0 \<and> d2 = d1\<lparr>accel_ctx := ctx, stream_words_host := p, stream_words_dptr := q,
        workers := replicate (n_workers d1) zero_worker, workers_ready := True\<rparr> \<and>
      H' = H + {#R_Words p, R_Workers#} + run_res (n_workers d1)
     else H' = H"
    using g(2) by auto
  show thesis
  proof (cases "arc = 0")
    case True
    then obtain ctx p q where d2: "d2 = d1\<lparr>accel_ctx := ctx, stream_words_host := p, stream_words_dptr := q,
        workers := replicate (n_workers d1) zero_worker, workers_ready := True\<rparr>" "H' = H + {#R_Words p, R_Workers#} + run_res (n_workers d1)"
      using w(3) by auto
    note st = started_driver [OF c g(1) d2(1) [unfolded n, unfolded g(2)]]
    have "H' = K + mset (driver_res d2)"
      unfolding st(5) d2(2) by (simp add: g(3) n base_held_def desc_res_def)
    then show ?thesis
      using True st(1-4) by (intro that [OF w(1)]) simp
  next
    case False
    have "release_all ([R_Device, R_Qpairs, R_Homi] @ descpath_res d2 @ locks @ [R_Driver]) H' = Some K"
      by (rule release_foreign [OF K]) (use w False in \<open>simp_all add: g(3) base_held_def locks_def descpath_res_def desc_res_def\<close>)
    then show ?thesis
      using False by (intro that [OF w(1)]) simp
  qed
qed

lemma driver_open_result:
  assumes v: "valid v" and K: "foreign K" and P: "drv P = None" "holds P = K"
  shows "\<exists>e P'. opends_driver_open ctx_get (host_alloc v) env caps a P = Some (e, P') \<and> use_count P' = use_count P \<and>
    (if err e = OPENDS_SUCCESS then proc_inv K P' \<and> futures (world P') = futures (world P) \<and>
       (\<exists>d. drv P' = Some d \<and> workers d = replicate (n_workers d) zero_worker \<and> bufs d = [] \<and> stream_slots d = [])
     else drv P' = None \<and> world P' = world P \<and> holds P' =
       K + (if 0 \<le> oa_attach a \<and> err e = OPENDS_DEVICE_NOT_FOUND then {#R_Qpairs#} else {#}))"
proof (cases "\<exists>dev c. env ''OPENDS_HOMI_DEV'' = Some dev \<and> dev \<noteq> [] \<and> oa_calloc a \<and> read_env_config env caps = Inr c \<and> 0 \<le> oa_connect a")
  case False
  from open_refused [OF K P this] show ?thesis
    using P by fastforce
next
  case True
  then obtain dev c where t: "env ''OPENDS_HOMI_DEV'' = Some dev" "dev \<noteq> []" "oa_calloc a" "read_env_config env caps = Inr c"
      "\<not> oa_connect a < 0"
    by auto
  note open_def = opends_driver_open_def [of ctx_get "host_alloc v" env caps a P, simplified t P Let_def, folded base_held_def, simplified t]
  obtain orc d1 H where o: "open_device a (new_driver dev c) (base_held K) = Some (orc, d1, H)"
    using open_device_result [OF base_quiet [OF K], of a "new_driver dev c"] by blast
  show ?thesis
  proof (cases "orc < 0")
    case True
    then show ?thesis
      using device_failed [OF K o] o P by (simp add: open_def opends_err_def)
  next
    case False
    then have "0 \<le> orc"
      by simp
    obtain arc d2 H' where w: "workers_setup ctx_get (host_alloc v) a d1 H = Some (arc, d2, H')"
      "if arc = 0 then driver_inv d2 \<and> H' = K + mset (driver_res d2) \<and> workers d2 = replicate (n_workers d2) zero_worker \<and>
         bufs d2 = [] \<and> stream_slots d2 = []
       else release_all ([R_Device, R_Qpairs, R_Homi] @ descpath_res d2 @ locks @ [R_Driver]) H' = Some K"
      by (rule device_opened [OF v K t(4) o \<open>0 \<le> orc\<close>, of ctx_get])
    then show ?thesis
      using False o P K by (cases "arc = 0") (simp_all add: open_def opends_err_dev_def opends_ok_def proc_inv_def)
  qed
qed

end

end
