(* ===== verification/Stream_Api.thy ===== *)
theory Stream_Api
  imports Lifecycle_Correct Stream_Gate
begin

text \<open>
  The stream calls of src/opends_aisio.c: the registration of a stream with its bounce buffer and copy
  descriptor, and \<open>submit_stream_op\<close>. The operations of the accelerator that they call (ds_accel.h) are
  arguments, with their contracts as the locales \<open>accel_memory\<close> of theory Lifecycle_Correct and
  \<open>accel_streams\<close> below.
\<close>

section \<open>Registration\<close>

text \<open>
  \<open>buf\<close> is what xNVMe's allocation returns. The result is the return code, the slot of the stream and
  what is held; the descriptor that the code clears is in the world.
\<close>

definition stream_bounce_alloc ::
  "host_alloc_fn \<Rightarrow> ptr \<Rightarrow> stream_slot \<Rightarrow> held \<Rightarrow> (int \<times> stream_slot \<times> held) option" where
  "stream_bounce_alloc host_alloc buf s H =
     (let s0 = s\<lparr>slot_bounce := 0, slot_desc_host := 0, slot_desc_dev := 0\<rparr>
      in case host_alloc R_Desc H of ((rc, desc_host, desc_dev), H1) \<Rightarrow>
         if rc \<noteq> 0 then Some (rc, s0, H1)
         else if buf = 0 then map_option (\<lambda>H2. (-1, s0, H2)) (release (R_Desc desc_host) H1)
         else Some (0, s0\<lparr>slot_desc_host := desc_host, slot_desc_dev := desc_dev, slot_bounce := buf\<rparr>,
                    add_mset (R_Bounce buf) H1))"

definition opends_stream_get :: "ds_stream_map_entry list \<Rightarrow> ptr \<Rightarrow> nat option" where
  "opends_stream_get e stream =
     (let i = ds_stream_map_get e STREAM_MAP_MASK stream in if i < 0 then None else Some (nat i))"

definition opends_stream_register ::
  "host_alloc_fn \<Rightarrow> ptr \<Rightarrow> ptr \<Rightarrow> aisio_proc \<Rightarrow> (opends_error \<times> aisio_proc) option" where
  "opends_stream_register host_alloc buf stream P =
     (case drv P of
        None \<Rightarrow> Some (opends_err OPENDS_DRIVER_NOT_INITIALIZED, P)
      | Some d \<Rightarrow>
      if stream = 0 then Some (opends_err OPENDS_INVALID_VALUE, P)
      else if \<not> workers_ready d then Some (opends_err OPENDS_DEVICE_DRIVER_ERROR, P)
      else if ds_stream_map_get (stream_map d) STREAM_MAP_MASK stream \<ge> 0 then Some (opends_ok, P)
      else if length (stream_slots d) \<ge> MAX_STREAMS then Some (opends_err OPENDS_INTERNAL_ERROR, P)
      else
        let n = length (stream_slots d);
            s = \<lparr>slot_gate_dptr = stream_words_dptr d + of_nat n * 4, slot_bounce = 0, slot_desc_host = 0, slot_desc_dev = 0\<rparr>;
            P1 = P\<lparr>world := upd_stream n (\<lambda>t. t\<lparr>gate := 0, next_seq := 0\<rparr>) (world P)\<rparr>
        in (case stream_bounce_alloc host_alloc buf s (holds P) of
             None \<Rightarrow> None
           | Some (rc, s1, H1) \<Rightarrow>
               if rc \<noteq> 0 then Some (opends_err_dev OPENDS_INTERNAL_ERROR rc, P1\<lparr>holds := H1\<rparr>)
               else (case ds_stream_map_put (stream_map d) STREAM_MAP_MASK stream (int n) of
                      (m, prc) \<Rightarrow>
                        if prc < 0
                        then map_option (\<lambda>H2. (opends_err OPENDS_INTERNAL_ERROR, P1\<lparr>holds := H2\<rparr>)) (release_all (stream_res s1) H1)
                        else Some (opends_ok, P1\<lparr>drv := Some (d\<lparr>stream_slots := stream_slots d @ [s1], stream_map := m\<rparr>),
                               holds := H1,
                               world := upd_stream n (\<lambda>t. t\<lparr>stream_bounce_buf := slot_bounce s1, bounce_desc := bounce_desc zero_stream\<rparr>)
                                 (world P1)\<rparr>))))"

text \<open>Deregistration does nothing: a stream keeps its place until the driver is closed.\<close>

definition opends_stream_deregister :: "ptr \<Rightarrow> aisio_proc \<Rightarrow> opends_error \<times> aisio_proc" where
  "opends_stream_deregister stream P = (opends_ok, P)"

section \<open>Submission\<close>

text \<open>
  An operation of the accelerator on a stream: its return code, and what it has enqueued. A host
  function is enqueued for \<open>park_gate_cb\<close> of the operation with the sequence number.
\<close>

type_synonym enqueue = "int \<times> gpu_cmd list"

record stream_ops =
  stream_write_value32 :: "u32 \<Rightarrow> enqueue"
  stream_wait_value32_geq :: "u32 \<Rightarrow> enqueue"
  launch_host_func :: "u32 \<Rightarrow> enqueue"
  copy_stream :: enqueue

record stream_request =
  sr_write :: bool
  sr_fh :: "registered_file option"
  sr_buf :: ptr
  sr_size_p :: ptr
  sr_file_offset_p :: ptr
  sr_buf_offset_p :: ptr
  sr_bytes_p :: ptr
  sr_stream :: ptr

definition classify_accel_failure :: "ctx_get_fn \<Rightarrow> ptr \<Rightarrow> int \<Rightarrow> opends_error" where
  "classify_accel_failure ctx_get ctx rc =
     (if fst ctx_get \<noteq> 0 \<or> snd ctx_get \<noteq> ctx then opends_err_dev OPENDS_CONTEXT_MISMATCH rc
      else opends_err_dev OPENDS_INTERNAL_ERROR rc)"

definition stream_mode :: "stream_request \<Rightarrow> nat \<Rightarrow> u32 \<Rightarrow> file_op_mode" where
  "stream_mode r i n = FILE_OP_STREAM \<lparr>size_p = sr_size_p r, file_offset_p = sr_file_offset_p r,
     buf_offset_p = sr_buf_offset_p r, bytes_read_p = sr_bytes_p r, op_stream = i, seq = n\<rparr>"

text \<open>A slot that is filled but not published, when the gate could not be enqueued.\<close>

definition fill_claimed :: "nat \<Rightarrow> file_op_mode \<Rightarrow> bool \<Rightarrow> registered_file \<Rightarrow> ptr \<Rightarrow> aisio_driver \<Rightarrow> aisio_driver" where
  "fill_claimed k m wr h buf d = d\<lparr>workers := (workers d)[k := fill_slot m wr h buf (workers d ! k)]\<rparr>"

text \<open>The gate commands, enqueued under the lock: the first nonzero return code, and what is enqueued.\<close>

definition enqueue_gate :: "stream_ops \<Rightarrow> bool \<Rightarrow> u32 \<Rightarrow> enqueue" where
  "enqueue_gate ops host n =
     (if host then launch_host_func ops n
      else case stream_write_value32 ops (2 * n) of (rc, cs) \<Rightarrow>
           if rc \<noteq> 0 then (rc, cs)
           else case stream_wait_value32_geq ops (2 * n + 1) of (rc, cs') \<Rightarrow> (rc, cs @ cs'))"

text \<open>
  \<open>e\<close> and \<open>ctx\<close> are the stream map and the context of the driver. The result is the error, the state, and
  the commands enqueued under the lock and after it.
\<close>

definition submit_stream_op ::
  "stream_ops \<Rightarrow> ctx_get_fn \<Rightarrow> ds_stream_map_entry list \<Rightarrow> ptr \<Rightarrow> (aisio_sys \<Rightarrow> aisio_sys) list \<Rightarrow> stream_request \<Rightarrow> aisio_sys
    \<Rightarrow> (opends_error \<times> aisio_sys \<times> gpu_cmd list \<times> gpu_cmd list) option" where
  "submit_stream_op ops ctx_get e ctx others r s =
     (case s of
        (None, wd) \<Rightarrow> Some (opends_err OPENDS_DRIVER_NOT_INITIALIZED, s, [], [])
      | (Some d, wd) \<Rightarrow>
      (case sr_fh r of
        None \<Rightarrow> Some (opends_err OPENDS_INVALID_VALUE, s, [], [])
      | Some h \<Rightarrow>
      if sr_buf r = 0 \<or> sr_size_p r = 0 \<or> sr_file_offset_p r = 0 \<or> sr_buf_offset_p r = 0 \<or> sr_bytes_p r = 0
      then Some (opends_err OPENDS_INVALID_VALUE, s, [], [])
      else if sr_stream r = 0 then Some (opends_err OPENDS_INVALID_VALUE, s, [], [])
      else if \<not> workers_ready d then Some (opends_err OPENDS_DEVICE_DRIVER_ERROR, s, [], [])
      else (case opends_stream_get e (sr_stream r) of
        None \<Rightarrow> Some (opends_err OPENDS_INTERNAL_ERROR, s, [], [])
      | Some i \<Rightarrow>
      (case claim_slot_locked others (Some d, wd) of
        None \<Rightarrow> None
      | Some (k, d1, wd1) \<Rightarrow>
          let n = next_seq (streams wd1 ! i) + 1;
              wd2 = upd_stream i (\<lambda>t. t\<lparr>next_seq := n\<rparr>) wd1;
              m = stream_mode r i n; host = assume_aligned_only (geo d1)
          in (case enqueue_gate ops host n of (rc, gate_cmds) \<Rightarrow>
             if rc \<noteq> 0
             then Some (classify_accel_failure ctx_get ctx rc, (Some (fill_claimed k m (sr_write r) h (sr_buf r) d1), wd2), gate_cmds, [])
             else let d2 = publish_op k m (sr_write r) h (sr_buf r) d1
                  in if host \<or> sr_write r then Some (opends_ok, (Some d2, wd2), gate_cmds, [])
                     else (case copy_stream ops of (rc, copy_cmds) \<Rightarrow>
                          Some (if rc \<noteq> 0 then classify_accel_failure ctx_get ctx rc else opends_ok, (Some d2, wd2), gate_cmds, copy_cmds)))))))"

definition opends_stream_read ::
  "stream_ops \<Rightarrow> ctx_get_fn \<Rightarrow> ds_stream_map_entry list \<Rightarrow> ptr \<Rightarrow> (aisio_sys \<Rightarrow> aisio_sys) list \<Rightarrow>
    registered_file option \<Rightarrow> ptr \<Rightarrow> ptr \<Rightarrow> ptr \<Rightarrow> ptr \<Rightarrow> ptr \<Rightarrow> ptr \<Rightarrow> aisio_sys \<Rightarrow>
    (opends_error \<times> aisio_sys \<times> gpu_cmd list \<times> gpu_cmd list) option" where
  "opends_stream_read ops ctx_get e ctx others fh buf len_p file_off_p buf_off_p bytes_p stream s =
     submit_stream_op ops ctx_get e ctx others \<lparr>sr_write = False, sr_fh = fh, sr_buf = buf, sr_size_p = len_p,
       sr_file_offset_p = file_off_p, sr_buf_offset_p = buf_off_p, sr_bytes_p = bytes_p, sr_stream = stream\<rparr> s"

definition opends_stream_write ::
  "stream_ops \<Rightarrow> ctx_get_fn \<Rightarrow> ds_stream_map_entry list \<Rightarrow> ptr \<Rightarrow> (aisio_sys \<Rightarrow> aisio_sys) list \<Rightarrow>
    registered_file option \<Rightarrow> ptr \<Rightarrow> ptr \<Rightarrow> ptr \<Rightarrow> ptr \<Rightarrow> ptr \<Rightarrow> ptr \<Rightarrow> aisio_sys \<Rightarrow>
    (opends_error \<times> aisio_sys \<times> gpu_cmd list \<times> gpu_cmd list) option" where
  "opends_stream_write ops ctx_get e ctx others fh buf len_p file_off_p buf_off_p bytes_p stream s =
     submit_stream_op ops ctx_get e ctx others \<lparr>sr_write = True, sr_fh = fh, sr_buf = buf, sr_size_p = len_p,
       sr_file_offset_p = file_off_p, sr_buf_offset_p = buf_off_p, sr_bytes_p = bytes_p, sr_stream = stream\<rparr> s"

end
