(* ===== verification/Stream_Correct.thy ===== *)
theory Stream_Correct
  imports Stream_Api
begin

text \<open>
  Registration keeps the invariant of the driver and makes exactly the new stream resolve to its
  index; a submission is one step of the gate's transition system (theory Stream_Gate), whichever of
  the calls of the accelerator fail.
\<close>

section \<open>Registration\<close>

lemma map_mask: "STREAM_MAP_MASK = mask STREAM_MAP_BITS"
  by (simp add: STREAM_MAP_MASK_def STREAM_MAP_BITS_def MAX_STREAMS_def mask_eq_exp_minus_1)

lemma stream_get_view:
  assumes "streams_inv d" "s \<noteq> 0"
  shows "opends_stream_get (stream_map d) s = map_option nat (stream_map_view (stream_map d) s)"
proof -
  have inv: "stream_map_inv STREAM_MAP_BITS (stream_map d)"
    and range: "\<And>i. stream_map_view (stream_map d) s = Some i \<Longrightarrow> 0 \<le> i"
    using assms(1) by (auto simp: streams_inv_def)
  show ?thesis
    using stream_map_get_correct [OF inv assms(2)] range
    by (cases "stream_map_view (stream_map d) s") (auto simp: opends_stream_get_def map_mask Let_def)
qed

lemma stream_get_nonneg:
  "ds_stream_map_get e STREAM_MAP_MASK s \<ge> 0 \<longleftrightarrow> opends_stream_get e s \<noteq> None"
  by (auto simp: opends_stream_get_def Let_def)

lemma driver_res_mset:
  "mset (driver_res d) = mset (map R_Thread [0..<n_workers d]) + mset (concat (map stream_res (stream_slots d))) +
     mset (concat (map (worker_res d) [0..<n_workers d])) + {#R_Workers, R_Words (stream_words_host d)#} +
     mset (map buf_res (bufs d)) + {#R_Device, R_Qpairs, R_Homi#} + mset (descpath_res d) + mset locks + {#R_Driver#}"
  by (simp add: driver_res_def teardown_res_def)

lemma worker_res_cong: "workers d' = workers d \<Longrightarrow> worker_res d' = worker_res d"
  by (simp add: worker_res_def fun_eq_iff)

definition add_stream :: "driver \<Rightarrow> stream_slot \<Rightarrow> ds_stream_map_entry list \<Rightarrow> driver" where
  "add_stream d s m = d\<lparr>stream_slots := stream_slots d @ [s], stream_map := m\<rparr>"

lemma add_stream_simps [simp]:
  "stream_slots (add_stream d s m) = stream_slots d @ [s]" "stream_map (add_stream d s m) = m"
  "workers (add_stream d s m) = workers d" "bufs (add_stream d s m) = bufs d" "n_workers (add_stream d s m) = n_workers d"
  "stream_words_host (add_stream d s m) = stream_words_host d" "descpath_res (add_stream d s m) = descpath_res d"
  "workers_ready (add_stream d s m) = workers_ready d" "xdev (add_stream d s m) = xdev d" "geo (add_stream d s m) = geo d"
  "aisio_driver.truncate (add_stream d s m) = aisio_driver.truncate d"
  by (simp_all add: add_stream_def n_workers_def descpath_res_def aisio_driver.truncate_def)

lemma add_stream_inv:
  assumes d: "driver_inv d" and room: "length (stream_slots d) < MAX_STREAMS"
    and s: "s \<noteq> 0" "opends_stream_get (stream_map d) s = None" and sl: "slot_bounce sl \<noteq> 0" "slot_desc_host sl \<noteq> 0"
  shows "\<exists>m. ds_stream_map_put (stream_map d) STREAM_MAP_MASK s (int (length (stream_slots d))) = (m, 0) \<and>
    driver_inv (add_stream d sl m) \<and> opends_stream_get m s = Some (length (stream_slots d)) \<and>
    (\<forall>t. t \<noteq> 0 \<longrightarrow> t \<noteq> s \<longrightarrow> opends_stream_get m t = opends_stream_get (stream_map d) t)"
proof -
  let ?n = "length (stream_slots d)"
  let ?view = "stream_map_view (stream_map d)"
  have inv: "streams_inv d" "stream_map_inv STREAM_MAP_BITS (stream_map d)"
    "free_slots (stream_map d) + ?n = 2 ^ STREAM_MAP_BITS"
    using d by (simp_all add: driver_inv_def streams_inv_def)
  have absent: "?view s = None"
    using s stream_get_view [OF inv(1) s(1)] by simp
  have "0 < free_slots (stream_map d)"
    using inv(3) room by (simp add: STREAM_MAP_BITS_def MAX_STREAMS_def)
  from stream_map_put_correct [OF inv(2) s(1) absent this, of "int ?n"]
  obtain m where m: "ds_stream_map_put (stream_map d) STREAM_MAP_MASK s (int ?n) = (m, 0)" "stream_map_inv STREAM_MAP_BITS m"
    "stream_map_view m = ?view(s \<mapsto> int ?n)" "free_slots (stream_map d) = Suc (free_slots m)"
    by (metis map_mask)
  have si: "streams_inv (add_stream d sl m)"
    using inv m room sl d by (auto simp: streams_inv_def split: if_splits) fastforce+
  have "driver_inv (add_stream d sl m)"
    using d si by (simp add: driver_inv_def)
  moreover have "opends_stream_get m t = map_option nat (stream_map_view m t)" if "t \<noteq> 0" for t
    using stream_get_view [OF si that] by simp
  ultimately show ?thesis
    using m(1,3) s(1) stream_get_view [OF inv(1)] by (intro exI [of _ m]) simp
qed

context accel_memory
begin

lemma stream_bounce_alloc_result:
  assumes "valid v"
  shows "\<exists>rc s' H'. stream_bounce_alloc (host_alloc v) buf s H = Some (rc, s', H') \<and> slot_gate_dptr s' = slot_gate_dptr s \<and>
    (if rc = 0 then slot_bounce s' = buf \<and> buf \<noteq> 0 \<and> slot_desc_host s' \<noteq> 0 \<and> H' = H + mset (stream_res s') else H' = H)"
proof -
  obtain rc p q H1 where h: "host_alloc v R_Desc H = ((rc, p, q), H1)"
    using prod.exhaust by metis
  note al = alloc [OF assms h]
  have nobody: "\<not> needs r (R_Desc p)" for r
    by (cases r) auto
  have rel: "release (R_Desc p) (add_mset (R_Desc p) H) = Some H"
    by (rule release_ok) (rule nobody)
  show ?thesis
    using h al rel by (cases "rc = 0"; cases "buf = 0")
      (auto simp: stream_bounce_alloc_def Let_def stream_res_def)
qed

text \<open>A registration whose bounce descriptor was allocated, and one where that failed.\<close>

definition slot_init :: "driver \<Rightarrow> stream_slot" where
  "slot_init d = \<lparr>slot_gate_dptr = stream_words_dptr d + of_nat (length (stream_slots d)) * 4,
     slot_bounce = 0, slot_desc_host = 0, slot_desc_dev = 0\<rparr>"

lemma stream_register_fails:
  assumes P: "proc_inv K P" "drv P = Some d" and s: "s \<noteq> 0" and d: "workers_ready d"
    and n: "length (stream_slots d) < MAX_STREAMS" "opends_stream_get (stream_map d) s = None"
    and a: "stream_bounce_alloc f buf (slot_init d) (holds P) = Some (rc, sl, holds P)" "rc \<noteq> 0"
  shows "\<exists>e P'. opends_stream_register f buf s P = Some (e, P') \<and> proc_inv K P' \<and>
    err e = OPENDS_INTERNAL_ERROR \<and> drv P' = drv P \<and> holds P' = holds P \<and>
    (\<forall>i. i \<noteq> length (stream_slots d) \<longrightarrow> streams (world P') ! i = streams (world P) ! i)"
proof -
  define w1 where "w1 = upd_stream (length (stream_slots d)) (\<lambda>t. t\<lparr>gate := 0, next_seq := 0\<rparr>) (world P)"
  have "opends_stream_register f buf s P = Some (opends_err_dev OPENDS_INTERNAL_ERROR rc, P\<lparr>world := w1, holds := holds P\<rparr>)"
    using P(2) s d n a
    by (simp add: opends_stream_register_def stream_get_nonneg Let_def flip: slot_init_def w1_def)
  moreover have "proc_inv K (P\<lparr>world := w1, holds := holds P\<rparr>)"
    using P by (simp add: proc_inv_def w1_def upd_stream_def)
  ultimately show ?thesis
    by (simp add: opends_err_dev_def w1_def upd_stream_def)
qed

lemma stream_registers:
  assumes P: "proc_inv K P" "drv P = Some d" and s: "s \<noteq> 0" and d: "workers_ready d"
    and n: "length (stream_slots d) < MAX_STREAMS" "opends_stream_get (stream_map d) s = None"
    and a: "stream_bounce_alloc f buf (slot_init d) (holds P) = Some (0, sl, H')" "slot_gate_dptr sl = slot_gate_dptr (slot_init d)"
    and sl: "slot_bounce sl = buf" "buf \<noteq> 0" "slot_desc_host sl \<noteq> 0" "H' = holds P + mset (stream_res sl)"
  defines "n \<equiv> length (stream_slots d)"
  shows "\<exists>P' d'. opends_stream_register f buf s P = Some (opends_ok, P') \<and> proc_inv K P' \<and>
    drv P' = Some d' \<and> aisio_driver.truncate d' = aisio_driver.truncate d \<and> stream_slots d' = stream_slots d @ [sl] \<and>
    opends_stream_get (stream_map d') s = Some n \<and>
    (\<forall>t. t \<noteq> 0 \<longrightarrow> t \<noteq> s \<longrightarrow> opends_stream_get (stream_map d') t = opends_stream_get (stream_map d) t) \<and>
    streams (world P') = (streams (world P))[n := zero_stream\<lparr>stream_bounce_buf := buf\<rparr>]"
proof -
  have inv: "driver_inv d" "holds P = K + mset (driver_res d)" "foreign K" "length (streams (world P)) = MAX_STREAMS"
    using P by (simp_all add: proc_inv_def)
  obtain m where m: "ds_stream_map_put (stream_map d) STREAM_MAP_MASK s (int n) = (m, 0)" "driver_inv (add_stream d sl m)"
    "opends_stream_get m s = Some n" "\<forall>t. t \<noteq> 0 \<longrightarrow> t \<noteq> s \<longrightarrow> opends_stream_get m t = opends_stream_get (stream_map d) t"
    using add_stream_inv [OF inv(1) n(1) s n(2) _ sl(3)] sl(1,2) unfolding n_def by blast
  define w1 where "w1 = upd_stream n (\<lambda>t. t\<lparr>gate := 0, next_seq := 0\<rparr>) (world P)"
  define w2 where "w2 = upd_stream n (\<lambda>t. t\<lparr>stream_bounce_buf := slot_bounce sl, bounce_desc := bounce_desc zero_stream\<rparr>) w1"
  define P' where "P' = P\<lparr>drv := Some (add_stream d sl m), holds := H', world := w2\<rparr>"
  have run: "opends_stream_register f buf s P = Some (opends_ok, P')"
    using P(2) s d n a(1) m(1)
    by (simp add: opends_stream_register_def stream_get_nonneg Let_def P'_def w2_def w1_def slot_init_def add_stream_def
      flip: n_def)
  have "r\<lparr>gate := 0, next_seq := 0, stream_bounce_buf := buf, bounce_desc := bounce_desc zero_stream\<rparr> =
      zero_stream\<lparr>stream_bounce_buf := buf\<rparr>" for r :: opends_stream
    by (cases r) (simp add: zero_stream_def)
  then have w2: "streams w2 = (streams (world P))[n := zero_stream\<lparr>stream_bounce_buf := buf\<rparr>]"
    using n(1) inv(4) sl(1) by (simp add: w2_def w1_def upd_stream_def n_def)
  have "mset (driver_res (add_stream d sl m)) = mset (driver_res d) + mset (stream_res sl)"
    by (simp add: driver_res_mset worker_res_cong [of "add_stream d sl m" d])
  then have "proc_inv K P'"
    using inv m(2) sl(4) w2 by (simp add: proc_inv_def P'_def)
  then show ?thesis
    using run m(3,4) w2 by (intro exI [of _ P'] exI [of _ "add_stream d sl m"]) (simp add: P'_def)
qed

lemma stream_register_result:
  assumes v: "valid v" and P: "proc_inv K P" "drv P = Some d" and s: "s \<noteq> 0"
  defines "n \<equiv> length (stream_slots d)"
  shows "\<exists>e P'. opends_stream_register (host_alloc v) buf s P = Some (e, P') \<and> proc_inv K P' \<and>
    (if opends_stream_get (stream_map d) s \<noteq> None then e = opends_ok \<and> P' = P
     else if n = MAX_STREAMS then e = opends_err OPENDS_INTERNAL_ERROR \<and> P' = P
     else if err e = OPENDS_SUCCESS then
       \<exists>d' sl. drv P' = Some d' \<and> aisio_driver.truncate d' = aisio_driver.truncate d \<and> stream_slots d' = stream_slots d @ [sl] \<and>
         slot_gate_dptr sl = stream_words_dptr d + of_nat n * 4 \<and>
         opends_stream_get (stream_map d') s = Some n \<and>
         (\<forall>t. t \<noteq> 0 \<longrightarrow> t \<noteq> s \<longrightarrow> opends_stream_get (stream_map d') t = opends_stream_get (stream_map d) t) \<and>
         streams (world P') = (streams (world P))[n := zero_stream\<lparr>stream_bounce_buf := buf\<rparr>]
     else err e = OPENDS_INTERNAL_ERROR \<and> drv P' = drv P \<and> holds P' = holds P \<and>
       (\<forall>i. i \<noteq> n \<longrightarrow> streams (world P') ! i = streams (world P) ! i))"
proof -
  have d: "driver_inv d"
    using P by (simp add: proc_inv_def)
  have ready: "workers_ready d" and le: "n \<le> MAX_STREAMS"
    using d by (simp_all add: driver_inv_def streams_inv_def n_def)
  show ?thesis
  proof (cases "opends_stream_get (stream_map d) s \<noteq> None \<or> n = MAX_STREAMS")
    case True
    then show ?thesis
      using P s ready by (auto simp: opends_stream_register_def stream_get_nonneg n_def opends_err_def)
  next
    case False
    then have n: "n < MAX_STREAMS" "opends_stream_get (stream_map d) s = None"
      using le by auto
    obtain rc sl H' where a: "stream_bounce_alloc (host_alloc v) buf (slot_init d) (holds P) = Some (rc, sl, H')"
      "slot_gate_dptr sl = slot_gate_dptr (slot_init d)"
      "if rc = 0 then slot_bounce sl = buf \<and> buf \<noteq> 0 \<and> slot_desc_host sl \<noteq> 0 \<and> H' = holds P + mset (stream_res sl) else H' = holds P"
      using stream_bounce_alloc_result [OF v, of buf "slot_init d" "holds P"] by blast
    show ?thesis
    proof (cases "rc = 0")
      case failed: False
      then show ?thesis
        using stream_register_fails [OF P s ready n [unfolded n_def], of "host_alloc v" buf rc sl] a n False
        by (fastforce simp: n_def)
    next
      case True
      then show ?thesis
        using stream_registers [OF P s ready n [unfolded n_def], of "host_alloc v" buf sl H'] a n False
        by (fastforce simp: n_def opends_ok_def slot_init_def)
    qed
  qed
qed

end

section \<open>Submission\<close>

text \<open>
  What \<open>ds_accel.h\<close> promises of the stream operations: each enqueues its own command when it returns
  0, and nothing when it does not.
\<close>

locale accel_streams =
  fixes ops :: "'b \<Rightarrow> stream_ops"
  assumes enq_write: "stream_write_value32 (ops b) v = (rc, cs) \<Longrightarrow> cs = (if rc = 0 then [Write_Value v] else [])"
    and enq_wait: "stream_wait_value32_geq (ops b) v = (rc, cs) \<Longrightarrow> cs = (if rc = 0 then [Wait_Geq v] else [])"
    and enq_host: "launch_host_func (ops b) n = (rc, cs) \<Longrightarrow> cs = (if rc = 0 then [Host_Park n] else [])"
    and enq_copy: "copy_stream (ops b) = (rc, cs) \<Longrightarrow> cs = (if rc = 0 then [Copy_Kernel] else [])"

lemma fill_slot_ring:
  assumes "ring_ok w" "has_room w"
  shows "ring (fill_slot m wr h buf w) = ring w" "ring_ok (fill_slot m wr h buf w)"
proof -
  note ok = ring_okD [OF assms(1)]
  have n: "ring_len w < 1024"
    using assms(2) by (simp add: has_room_len)
  define q where "q = upd_op (fill_op m wr h buf) (slot_at w (queue_head w))"
  have fill: "fill_slot m wr h buf w = set_slot (queue_tail w + of_nat (ring_len w)) q w"
    by (simp add: fill_slot_def q_def head_index)
  have at: "slot_at (fill_slot m wr h buf w) (queue_tail w + of_nat k) =
      (if k = ring_len w then q else slot_at w (queue_tail w + of_nat k))" if "k < 1024" for k
    using slot_of_inj [of k "ring_len w" "queue_tail w"] that n by (auto simp: fill slot_at_set ok(1))
  have tl: "queue_tail (fill_slot m wr h buf w) = queue_tail w" "ring_len (fill_slot m wr h buf w) = ring_len w"
    "length (file_op_queue (fill_slot m wr h buf w)) = 1024"
    by (simp_all add: fill ok(1))
  show "ring (fill_slot m wr h buf w) = ring w"
    using at n by (intro nth_equalityI) (auto simp: tl)
  have "op_state (q_op q) = FILE_OP_FREE"
    using ok(3) [of "ring_len w"] n by (simp add: q_def upd_op_def fill_op_def state_at_def flip: head_index)
  then show "ring_ok (fill_slot m wr h buf w)"
    using ok at n by (auto simp: ring_ok_def queue_size state_at_def tl)
qed

lemma seq_of_Suc: "seq_of (Suc n) = seq_of n + 1"
  by (simp add: seq_of_def)

context accel_streams
begin

lemma enqueue_gate_result:
  assumes "enqueue_gate (ops b) host n = (rc, cs)"
  shows "if rc = 0 then cs = (if host then [Host_Park n] else [Write_Value (2 * n), Wait_Geq (2 * n + 1)])
    else cs = [] \<or> \<not> host \<and> cs = [Write_Value (2 * n)]"
  using assms enq_host [of b n] enq_write [of b "2 * n"] enq_wait [of b "2 * n + 1"]
  by (auto simp: enqueue_gate_def split: prod.splits if_splits)

text \<open>What the accelerator's errors become.\<close>

lemma classified:
  "err (classify_accel_failure cg ctx c) \<in> {OPENDS_CONTEXT_MISMATCH, OPENDS_INTERNAL_ERROR}"
  "err (classify_accel_failure cg ctx c) \<noteq> OPENDS_SUCCESS"
  by (simp_all add: classify_accel_failure_def opends_err_dev_def)

text \<open>The step of the gate for a submission whose gate was enqueued, and for one whose gate was not.\<close>

lemma gate_submits:
  assumes "in_reach g" "cs = item_cmds (It_Op (Suc (gs_count g)) host rd)"
  shows "\<exists>g'. gate_step g g' \<and> gs_cmds g' = gs_cmds g @ cs \<and> gs_count g' = Suc (gs_count g) \<and>
    gs_pending g' = gs_pending g @ [(Suc (gs_count g), rd)]"
  by (rule exI, rule conjI, rule gate_step.submit [OF assms(1) refl]) (simp add: assms(2))

lemma gate_fails:
  assumes "in_reach g" "enqueue_gate (ops b) host (seq_of (Suc (gs_count g))) = (rc, cs)" "rc \<noteq> 0"
  shows "\<exists>g'. gate_step g g' \<and> gs_cmds g' = gs_cmds g @ cs \<and> gs_count g' = Suc (gs_count g) \<and> gs_pending g' = gs_pending g"
proof (cases "cs = []")
  case True
  then show ?thesis
    using gate_step.submit_fails [OF assms(1)] by (intro exI [of _ "g\<lparr>gs_count := Suc (gs_count g)\<rparr>"]) simp
next
  case False
  then have cs: "cs = item_cmds (It_Skip (Suc (gs_count g)))"
    using enqueue_gate_result [OF assms(2)] assms(3) by simp
  show ?thesis
    by (rule exI, rule conjI, rule gate_step.wait_fails [OF assms(1) refl]) (simp add: cs)
qed

text \<open>What the submission does after the claim, branch by branch.\<close>

lemma submit_stream_reduce:
  assumes args: "sr_fh r = Some h" "sr_buf r \<noteq> 0" "sr_size_p r \<noteq> 0" "sr_file_offset_p r \<noteq> 0" "sr_buf_offset_p r \<noteq> 0"
      "sr_bytes_p r \<noteq> 0" "sr_stream r \<noteq> 0" "workers_ready d" "opends_stream_get e (sr_stream r) = Some i"
    and claim: "claim_slot_locked others (Some d, wd) = Some (k, d1, wd1)" "next_seq (streams wd1 ! i) = seq_of n"
    and q: "enqueue_gate (ops b) (assume_aligned_only (geo d1)) (seq_of (Suc n)) = (rc, gcs)"
  defines "m \<equiv> stream_mode r i (seq_of (Suc n))" and "wd2 \<equiv> upd_stream i (\<lambda>t. t\<lparr>next_seq := seq_of (Suc n)\<rparr>) wd1"
  shows "submit_stream_op (ops b) cg e ctx others r (Some d, wd) =
      (if rc \<noteq> 0
       then Some (classify_accel_failure cg ctx rc, (Some (fill_claimed k m (sr_write r) h (sr_buf r) d1), wd2), gcs, [])
       else if assume_aligned_only (geo d1) \<or> sr_write r
       then Some (opends_ok, (Some (publish_op k m (sr_write r) h (sr_buf r) d1), wd2), gcs, [])
       else case copy_stream (ops b) of (rc, ccs) \<Rightarrow>
         Some (if rc \<noteq> 0 then classify_accel_failure cg ctx rc else opends_ok,
           (Some (publish_op k m (sr_write r) h (sr_buf r) d1), wd2), gcs, ccs))"
  using args claim q
  by (simp add: submit_stream_op_def Let_def m_def wd2_def seq_of_Suc split: prod.splits)

lemma submit_stream_step:
  assumes run: "submit_stream_op (ops b) cg e ctx others r (Some d, wd) = Some (er, s', gc, cc)"
    and args: "sr_fh r = Some h" "sr_buf r \<noteq> 0" "sr_size_p r \<noteq> 0" "sr_file_offset_p r \<noteq> 0" "sr_buf_offset_p r \<noteq> 0"
      "sr_bytes_p r \<noteq> 0" "sr_stream r \<noteq> 0" "workers_ready d" "opends_stream_get e (sr_stream r) = Some i"
    and claim: "claim_slot_locked others (Some d, wd) = Some (k, d1, wd1)" "k < length (workers d1)" "has_room (workers d1 ! k)"
      "driver_ok d1" "i < length (streams wd1)"
    and g: "next_seq (streams wd1 ! i) = seq_of (gs_count g)" "in_reach g"
  defines "m \<equiv> stream_mode r i (seq_of (Suc (gs_count g)))" and "w \<equiv> workers d1 ! k"
  shows "\<exists>g' d' wd' rd. gate_step g g' \<and> gs_cmds g' = gs_cmds g @ gc @ cc \<and> gs_count g' = Suc (gs_count g) \<and>
    s' = (Some d', wd') \<and> streams wd' = (streams wd1)[i := (streams wd1 ! i)\<lparr>next_seq := seq_of (gs_count g')\<rparr>] \<and>
    (\<forall>j. j \<noteq> k \<longrightarrow> workers d' ! j = workers d1 ! j) \<and>
    (if err er = OPENDS_SUCCESS \<or> cc \<noteq> [] \<or> ring (workers d' ! k) \<noteq> ring w then
       gs_pending g' = gs_pending g @ [(gs_count g', rd)] \<and>
       ring (workers d' ! k) = ring w @ [upd_op (pending_op m (sr_write r) h (sr_buf r)) (slot_at w (queue_head w))] \<and>
       (err er = OPENDS_SUCCESS \<longrightarrow> rd = (\<not> sr_write r)) \<and> (err er \<noteq> OPENDS_SUCCESS \<longrightarrow> \<not> sr_write r)
     else gs_pending g' = gs_pending g) \<and>
    (err er \<noteq> OPENDS_SUCCESS \<longrightarrow> err er \<in> {OPENDS_CONTEXT_MISMATCH, OPENDS_INTERNAL_ERROR})"
proof -
  let ?n = "Suc (gs_count g)"
  define host where "host = assume_aligned_only (geo d1)"
  define wd2 where "wd2 = upd_stream i (\<lambda>t. t\<lparr>next_seq := seq_of ?n\<rparr>) wd1"
  obtain rc gcs where q: "enqueue_gate (ops b) host (seq_of ?n) = (rc, gcs)"
    by fastforce
  note red = submit_stream_reduce [OF args claim(1) g(1) q [unfolded host_def], folded host_def m_def wd2_def]
  have ok: "ring_ok w"
    using claim(2,4) by (simp add: driver_ok_def worker_ok_def w_def)
  have w2: "streams wd2 = (streams wd1)[i := (streams wd1 ! i)\<lparr>next_seq := seq_of ?n\<rparr>]"
    by (simp add: wd2_def upd_stream_def)
  show ?thesis
  proof (cases "rc = 0")
    case False
    then have res: "er = classify_accel_failure cg ctx rc" "s' = (Some (fill_claimed k m (sr_write r) h (sr_buf r) d1), wd2)" "gc = gcs" "cc = []"
      using run red by simp_all
    have ring: "ring (workers (fill_claimed k m (sr_write r) h (sr_buf r) d1) ! k) = ring w"
      using fill_slot_ring(1) [OF ok] claim(2,3) by (simp add: fill_claimed_def w_def)
    obtain g' where "gate_step g g'" "gs_cmds g' = gs_cmds g @ gcs" "gs_count g' = ?n" "gs_pending g' = gs_pending g"
      using gate_fails [OF g(2) q False] by blast
    then show ?thesis
      using res ring w2 classified(1) [of cg ctx rc] by (intro exI [of _ g']) (auto simp: fill_claimed_def)
  next
    case True
    define d2 where "d2 = publish_op k m (sr_write r) h (sr_buf r) d1"
    define rd where "rd = (\<not> sr_write r \<and> (host \<or> fst (copy_stream (ops b)) = 0))"
    have gcs: "gcs = (if host then [Host_Park (seq_of ?n)] else [Write_Value (2 * seq_of ?n), Wait_Geq (2 * seq_of ?n + 1)])"
      using enqueue_gate_result [OF q] True by simp
    have ring: "ring (workers d2 ! k) = ring w @ [upd_op (pending_op m (sr_write r) h (sr_buf r)) (slot_at w (queue_head w))]"
      "\<forall>j. j \<noteq> k \<longrightarrow> workers d2 ! j = workers d1 ! j"
      using submit_ring(1) [OF ok, of m "sr_write r" h "sr_buf r"] claim(2,3) by (simp_all add: d2_def publish_op_def w_def)
    have res: "s' = (Some d2, wd2)" "gc = gcs" "gc @ cc = item_cmds (It_Op ?n host rd)"
      "err er = OPENDS_SUCCESS \<longrightarrow> rd = (\<not> sr_write r)" "err er \<noteq> OPENDS_SUCCESS \<longrightarrow> \<not> sr_write r"
      "err er \<noteq> OPENDS_SUCCESS \<longrightarrow> err er \<in> {OPENDS_CONTEXT_MISMATCH, OPENDS_INTERNAL_ERROR}"
      using run red True gcs classified [of cg ctx] enq_copy [of b]
      by (auto simp: d2_def rd_def opends_ok_def split: if_splits prod.splits)
    show ?thesis
      using gate_submits [OF g(2) res(3)] res ring w2
      by (auto intro!: exI [of _ d2] exI [of _ wd2] exI [of _ rd] elim!: ex_forward)
  qed
qed

end

end
