(* ===== verification/Accel_Cuda.thy ===== *)
theory Accel_Cuda
  imports Stream_Correct
begin

text \<open>
  The CUDA side of the accelerator interface, src/ds_accel_cuda.c with \<open>cuda_copy_stream\<close> of
  src/ds_bounce_kernel_cuda.cu: what each operation of the table does with the results of the CUDA
  driver's calls, and that the table keeps the contracts of ds_accel.h on which the core rests, for
  memory (locale \<open>accel_memory\<close>) and for streams (locale \<open>accel_streams\<close>).
\<close>

section \<open>The operations\<close>

text \<open>\<open>cuCtxGetCurrent\<close> answers with a result and a context, which is null when there is none.\<close>

definition cuda_ctx_get :: "int \<times> ptr \<Rightarrow> ctx_get_fn" where
  "cuda_ctx_get answer =
     (case answer of (rc, ctx) \<Rightarrow> if rc \<noteq> 0 then (rc, 0) else if ctx = 0 then (-1, 0) else (0, ctx))"

text \<open>\<open>cuMemHostAlloc\<close> and \<open>cuMemHostGetDevicePointer\<close>, each with its result.\<close>

record cuda_memory =
  cu_mem_host_alloc :: "int \<times> ptr"
  cu_device_pointer :: "int \<times> u64"

definition cuda_host_free :: "resource \<Rightarrow> held \<Rightarrow> held" where
  "cuda_host_free r H = H - {#r#}"

definition cuda_host_alloc_mapped :: "cuda_memory \<Rightarrow> host_alloc_fn" where
  "cuda_host_alloc_mapped cu c H =
     (case cu_mem_host_alloc cu of (rc, host) \<Rightarrow>
      if rc \<noteq> 0 then ((rc, host, 0), H)
      else let H1 = add_mset (c host) H
           in case cu_device_pointer cu of (rc, d) \<Rightarrow>
              if rc \<noteq> 0 then ((rc, 0, 0), cuda_host_free (c host) H1)
              else ((0, host, d), H1))"

definition cuda_memory_ok :: "cuda_memory \<Rightarrow> bool" where
  "cuda_memory_ok cu \<longleftrightarrow> (fst (cu_mem_host_alloc cu) = 0 \<longrightarrow> snd (cu_mem_host_alloc cu) \<noteq> 0)"

text \<open>The results of the four calls of the CUDA driver.\<close>

record cuda_streams =
  cu_stream_write :: int
  cu_stream_wait :: int
  cu_launch_host :: int
  cu_last_error :: int

definition enqueued :: "int \<Rightarrow> gpu_cmd \<Rightarrow> enqueue" where
  "enqueued rc c = (rc, if rc = 0 then [c] else [])"

definition cuda_stream_write_value32 :: "cuda_streams \<Rightarrow> u32 \<Rightarrow> enqueue" where
  "cuda_stream_write_value32 cu v = enqueued (cu_stream_write cu) (Write_Value v)"

definition cuda_stream_wait_value32_geq :: "cuda_streams \<Rightarrow> u32 \<Rightarrow> enqueue" where
  "cuda_stream_wait_value32_geq cu v = enqueued (cu_stream_wait cu) (Wait_Geq v)"

definition cuda_launch_host_func :: "cuda_streams \<Rightarrow> u32 \<Rightarrow> enqueue" where
  "cuda_launch_host_func cu n = enqueued (cu_launch_host cu) (Host_Park n)"

definition cuda_copy_stream :: "cuda_streams \<Rightarrow> enqueue" where
  "cuda_copy_stream cu = enqueued (cu_last_error cu) Copy_Kernel"

definition cuda_ops :: "cuda_streams \<Rightarrow> stream_ops" where
  "cuda_ops cu = \<lparr>stream_write_value32 = cuda_stream_write_value32 cu,
     stream_wait_value32_geq = cuda_stream_wait_value32_geq cu,
     launch_host_func = cuda_launch_host_func cu, copy_stream = cuda_copy_stream cu\<rparr>"

definition cuda_caps :: accel_caps where
  "cuda_caps = \<lparr>has_launch_host_func = True, has_stream_write_value32 = True, has_stream_wait_value32_geq = True\<rparr>"

text \<open>The other two operations pass their arguments on.\<close>

definition cuda_ctx_set :: "(ptr \<Rightarrow> 's \<Rightarrow> int \<times> 's) \<Rightarrow> ptr \<Rightarrow> 's \<Rightarrow> 's" where
  "cuda_ctx_set cuCtxSetCurrent ctx s = snd (cuCtxSetCurrent ctx s)"

definition cuda_copy :: "accel_copy \<Rightarrow> accel_copy" where
  "cuda_copy cuMemcpy dst src nbytes m = cuMemcpy dst src nbytes m"

section \<open>The contracts\<close>

interpretation cudamem: accel_memory cuda_host_alloc_mapped cuda_memory_ok
  by unfold_locales
    (auto simp: cuda_host_alloc_mapped_def cuda_host_free_def cuda_memory_ok_def Let_def split: prod.splits if_splits)

interpretation cudastr: accel_streams cuda_ops
  by unfold_locales
    (auto simp: cuda_ops_def enqueued_def cuda_stream_write_value32_def cuda_stream_wait_value32_geq_def
      cuda_launch_host_func_def cuda_copy_stream_def)

end
