(* ===== verification/Buffers.thy ===== *)
theory Buffers
  imports Lifecycle_Correct
begin

text \<open>
  The buffer table of the aisio driver, \<open>opends_alloc\<close>, \<open>opends_free\<close>, \<open>opends_buf_register\<close> and
  \<open>opends_buf_deregister\<close> of src/opends_aisio.c, and the contract of registration that a program can
  rely on with any backend, the locale \<open>buffer_table\<close>. The calls of xNVMe are arguments.
\<close>

section \<open>The code\<close>

definition find_buf :: "buf_entry list \<Rightarrow> ptr \<Rightarrow> nat option" where
  "find_buf bs p = find (\<lambda>i. entry_base (bs ! i) = p) [0..<length bs]"

text \<open>The last entry takes the place of entry \<open>i\<close>.\<close>

definition remove_buf :: "'a list \<Rightarrow> nat \<Rightarrow> 'a list" where
  "remove_buf bs i = butlast (bs[i := last bs])"

definition opends_alloc :: "ptr \<Rightarrow> u64 \<Rightarrow> aisio_proc \<Rightarrow> ptr \<times> aisio_proc" where
  "opends_alloc buf n P =
     (case drv P of
        None \<Rightarrow> (0, P)
      | Some d \<Rightarrow>
          if \<not> xdev d then (0, P)
          else if length (bufs d) \<ge> MAX_BUF_ENTRIES then (0, P)
          else if buf = 0 then (0, P)
          else (buf, P\<lparr>drv := Some (d\<lparr>bufs := bufs d @ [\<lparr>entry_base = buf, entry_length = n, entry_owned = True\<rparr>]\<rparr>),
                  holds := add_mset (R_Buf buf) (holds P)\<rparr>))"

definition opends_free :: "ptr \<Rightarrow> aisio_proc \<Rightarrow> aisio_proc option" where
  "opends_free buf P =
     (case drv P of
        None \<Rightarrow> Some P
      | Some d \<Rightarrow>
          if buf = 0 then Some P
          else (case find_buf (bufs d) buf of
                 None \<Rightarrow> Some P
               | Some i \<Rightarrow>
                   if \<not> entry_owned (bufs d ! i) then Some P
                   else map_option (\<lambda>H. P\<lparr>drv := Some (d\<lparr>bufs := remove_buf (bufs d) i\<rparr>), holds := H\<rparr>)
                          (release (R_Buf buf) (holds P))))"

text \<open>\<open>rc\<close> is what \<open>xnvme_mem_map\<close> returns.\<close>

definition opends_buf_register :: "int \<Rightarrow> ptr \<Rightarrow> u64 \<Rightarrow> aisio_proc \<Rightarrow> (opends_error \<times> aisio_proc) option" where
  "opends_buf_register rc base n P =
     (case drv P of
        None \<Rightarrow> Some (opends_err OPENDS_DRIVER_NOT_INITIALIZED, P)
      | Some d \<Rightarrow>
          if \<not> xdev d then Some (opends_err OPENDS_DEVICE_NOT_FOUND, P)
          else if base = 0 \<or> n = 0 then Some (opends_err OPENDS_INVALID_VALUE, P)
          else if find_buf (bufs d) base \<noteq> None then Some (opends_err OPENDS_MEMORY_ALREADY_REGISTERED, P)
          else if length (bufs d) \<ge> MAX_BUF_ENTRIES then Some (opends_err OPENDS_INTERNAL_ERROR, P)
          else if rc < 0 then Some (opends_err OPENDS_DEVICE_DRIVER_ERROR, P)
          else Some (opends_ok, P\<lparr>drv := Some (d\<lparr>bufs := bufs d @ [\<lparr>entry_base = base, entry_length = n, entry_owned = False\<rparr>]\<rparr>),
                 holds := add_mset (R_Map base) (holds P)\<rparr>))"

definition opends_buf_deregister :: "ptr \<Rightarrow> aisio_proc \<Rightarrow> (opends_error \<times> aisio_proc) option" where
  "opends_buf_deregister base P =
     (case drv P of
        None \<Rightarrow> Some (opends_err OPENDS_DRIVER_NOT_INITIALIZED, P)
      | Some d \<Rightarrow>
          if \<not> xdev d then Some (opends_err OPENDS_DEVICE_NOT_FOUND, P)
          else if base = 0 then Some (opends_err OPENDS_INVALID_VALUE, P)
          else (case find_buf (bufs d) base of
                 None \<Rightarrow> Some (opends_err OPENDS_MEMORY_NOT_REGISTERED, P)
               | Some i \<Rightarrow>
                   if entry_owned (bufs d ! i) then Some (opends_err OPENDS_INVALID_VALUE, P)
                   else map_option (\<lambda>H. (opends_ok, P\<lparr>drv := Some (d\<lparr>bufs := remove_buf (bufs d) i\<rparr>), holds := H\<rparr>))
                          (release (R_Map base) (holds P))))"

section \<open>The table\<close>

lemma mset_remove:
  assumes "i < length bs"
  shows "mset bs = add_mset (bs ! i) (mset (remove_buf bs i))"
proof -
  have ne: "bs \<noteq> []"
    using assms by auto
  define l where "l = last bs"
  have "bs[i := l] \<noteq> []" and last: "last (bs[i := l]) = l"
    using ne assms by (cases "i = length bs - 1"; auto simp: l_def last_conv_nth nth_list_update)+
  then have "mset (bs[i := l]) = add_mset l (mset (remove_buf bs i))"
    using append_butlast_last_id [of "bs[i := l]"] unfolding remove_buf_def l_def
    by (metis add_mset_add_single mset.simps(1) mset.simps(2) mset_append)
  moreover have "add_mset (bs ! i) (mset (bs[i := l])) = add_mset l (mset bs)"
    using assms by (simp add: mset_update)
  ultimately show ?thesis
    by (metis add_mset_commute add_mset_add_single add_mset_remove_trivial)
qed

lemma find_buf_None: "find_buf bs p = None \<longleftrightarrow> p \<notin> entry_base ` set bs"
proof -
  have "entry_base ` set bs = entry_base ` ((!) bs ` {..<length bs})"
    by (simp add: set_conv_nth) blast
  then show ?thesis
    by (auto simp: find_buf_def find_None_iff image_iff)
qed

lemma find_buf_Some: "find_buf bs p = Some i \<Longrightarrow> i < length bs \<and> entry_base (bs ! i) = p"
  by (auto simp: find_buf_def find_Some_iff)

text \<open>The driver and what is held change together.\<close>

definition with_bufs :: "driver \<Rightarrow> buf_entry list \<Rightarrow> driver" where
  "with_bufs d bs = d\<lparr>bufs := bs\<rparr>"

lemma with_bufs_res:
  "mset (driver_res (with_bufs d bs)) + mset (map buf_res (bufs d)) = mset (driver_res d) + mset (map buf_res bs)"
  "driver_inv d \<Longrightarrow> length bs \<le> MAX_BUF_ENTRIES \<Longrightarrow> driver_inv (with_bufs d bs)"
proof -
  have "worker_res (with_bufs d bs) = worker_res d"
    by (simp add: worker_res_def with_bufs_def fun_eq_iff)
  then show "mset (driver_res (with_bufs d bs)) + mset (map buf_res (bufs d)) = mset (driver_res d) + mset (map buf_res bs)"
    by (simp add: driver_res_def teardown_res_def with_bufs_def n_workers_def descpath_res_def)
  show "driver_inv d \<Longrightarrow> length bs \<le> MAX_BUF_ENTRIES \<Longrightarrow> driver_inv (with_bufs d bs)"
  proof -
    have "aisio_driver.truncate (with_bufs d bs) = aisio_driver.truncate d" "streams_inv (with_bufs d bs) = streams_inv d"
      "n_workers (with_bufs d bs) = n_workers d" "workers_ready (with_bufs d bs) = workers_ready d" "xdev (with_bufs d bs) = xdev d"
      "workers (with_bufs d bs) = workers d" "geo (with_bufs d bs) = geo d" "bufs (with_bufs d bs) = bs"
      by (simp_all add: with_bufs_def n_workers_def streams_inv_def aisio_driver.truncate_def)
    then show "driver_inv d \<Longrightarrow> length bs \<le> MAX_BUF_ENTRIES \<Longrightarrow> driver_inv (with_bufs d bs)"
      by (simp add: driver_inv_def)
  qed
qed

lemma add_buf_inv:
  assumes "proc_inv K P" "drv P = Some d" "length (bufs d) < MAX_BUF_ENTRIES"
  shows "proc_inv K (P\<lparr>drv := Some (d\<lparr>bufs := bufs d @ [e]\<rparr>), holds := add_mset (buf_res e) (holds P)\<rparr>)"
  using assms with_bufs_res [of d "bufs d @ [e]"] by (simp add: proc_inv_def with_bufs_def)

lemma remove_buf_inv:
  assumes P: "proc_inv K P" "drv P = Some d" and i: "i < length (bufs d)"
  shows "\<exists>H. release (buf_res (bufs d ! i)) (holds P) = Some H \<and>
    proc_inv K (P\<lparr>drv := Some (d\<lparr>bufs := remove_buf (bufs d) i\<rparr>), holds := H\<rparr>)"
proof -
  let ?r = "buf_res (bufs d ! i)"
  have holds: "holds P = K + mset (driver_res d)" and d: "driver_inv d"
    using P by (simp_all add: proc_inv_def)
  have "?r \<in># holds P"
    using i by (simp add: holds driver_res_def)
  then obtain H where H: "holds P = add_mset ?r H"
    by (metis insert_DiffM)
  have nobody: "\<not> needs q ?r" for q
    by (cases q) (auto simp: buf_res_def)
  have "release ?r (holds P) = Some H"
    unfolding H by (rule release_ok) (rule nobody)
  moreover have "H = K + mset (driver_res (with_bufs d (remove_buf (bufs d) i)))"
  proof -
    have "mset (map buf_res (bufs d)) = add_mset ?r (mset (map buf_res (remove_buf (bufs d) i)))"
      using arg_cong [OF mset_remove [OF i], of "image_mset buf_res"] by simp
    then have "mset (driver_res d) = add_mset ?r (mset (driver_res (with_bufs d (remove_buf (bufs d) i))))"
      using with_bufs_res(1) [of d "remove_buf (bufs d) i"] by simp
    then have "add_mset ?r H = add_mset ?r (K + mset (driver_res (with_bufs d (remove_buf (bufs d) i))))"
      using H holds by simp
    then show ?thesis
      by simp
  qed
  moreover have "driver_inv (with_bufs d (remove_buf (bufs d) i))"
    using d by (intro with_bufs_res(2)) (auto simp: driver_inv_def remove_buf_def)
  ultimately show ?thesis
    using P by (simp add: proc_inv_def with_bufs_def)
qed

lemma opends_alloc_inv: "proc_inv K P \<Longrightarrow> proc_inv K (snd (opends_alloc buf n P))"
  using add_buf_inv [of K P _ "\<lparr>entry_base = buf, entry_length = n, entry_owned = True\<rparr>"]
  by (auto simp: opends_alloc_def buf_res_def split: option.splits)

lemma opends_free_inv:
  assumes "proc_inv K P"
  shows "\<exists>P'. opends_free buf P = Some P' \<and> proc_inv K P'"
proof (cases "drv P")
  case (Some d)
  show ?thesis
  proof (cases "find_buf (bufs d) buf")
    case found: (Some i)
    note i = find_buf_Some [OF found]
    obtain H where "release (buf_res (bufs d ! i)) (holds P) = Some H"
      "proc_inv K (P\<lparr>drv := Some (d\<lparr>bufs := remove_buf (bufs d) i\<rparr>), holds := H\<rparr>)"
      using remove_buf_inv [OF assms Some conjunct1 [OF i]] by blast
    then show ?thesis
      using i Some found assms by (cases "entry_owned (bufs d ! i)") (simp_all add: opends_free_def buf_res_def)
  qed (use Some assms in \<open>simp add: opends_free_def\<close>)
qed (use assms in \<open>simp add: opends_free_def\<close>)

lemma opends_buf_register_inv:
  assumes "proc_inv K P"
  shows "\<exists>e P'. opends_buf_register rc base n P = Some (e, P') \<and> proc_inv K P'"
  using assms add_buf_inv [OF assms, of _ "\<lparr>entry_base = base, entry_length = n, entry_owned = False\<rparr>"]
  by (auto simp: opends_buf_register_def buf_res_def split: option.splits)

lemma opends_buf_deregister_inv:
  assumes "proc_inv K P"
  shows "\<exists>e P'. opends_buf_deregister base P = Some (e, P') \<and> proc_inv K P'"
proof (cases "drv P")
  case (Some d)
  show ?thesis
  proof (cases "find_buf (bufs d) base")
    case found: (Some i)
    note i = find_buf_Some [OF found]
    obtain H where "release (buf_res (bufs d ! i)) (holds P) = Some H"
      "proc_inv K (P\<lparr>drv := Some (d\<lparr>bufs := remove_buf (bufs d) i\<rparr>), holds := H\<rparr>)"
      using remove_buf_inv [OF assms Some conjunct1 [OF i]] by blast
    then show ?thesis
      using i Some found assms by (cases "entry_owned (bufs d ! i)") (simp_all add: opends_buf_deregister_def buf_res_def)
  qed (use Some assms in \<open>simp add: opends_buf_deregister_def\<close>)
qed (use assms in \<open>simp add: opends_buf_deregister_def\<close>)

section \<open>The contract of registration\<close>

text \<open>
  What a program can rely on. A call of \<open>register\<close> comes with the answer of the system, which the backend
  may not need; \<open>fails\<close> says which answers refuse the mapping. \<open>bases\<close> are the buffers the backend
  knows, \<open>owned\<close> those it has allocated itself, which are not the caller's to deregister.
\<close>

datatype buf_call = Register int ptr u64 | Deregister ptr

fun buf_spec :: "nat \<Rightarrow> (int \<Rightarrow> bool) \<Rightarrow> ptr set \<Rightarrow> buf_call \<Rightarrow> ptr set \<Rightarrow> opends_op_error \<times> ptr set" where
  "buf_spec cap fails own (Register a p n) B =
     (if p = 0 \<or> n = 0 then (OPENDS_INVALID_VALUE, B)
      else if p \<in> B then (OPENDS_MEMORY_ALREADY_REGISTERED, B)
      else if card B \<ge> cap then (OPENDS_INTERNAL_ERROR, B)
      else if fails a then (OPENDS_DEVICE_DRIVER_ERROR, B)
      else (OPENDS_SUCCESS, insert p B))"
| "buf_spec cap fails own (Deregister p) B =
     (if p = 0 then (OPENDS_INVALID_VALUE, B)
      else if p \<notin> B then (OPENDS_MEMORY_NOT_REGISTERED, B)
      else if p \<in> own then (OPENDS_INVALID_VALUE, B)
      else (OPENDS_SUCCESS, B - {p}))"

fun buf_op ::
  "(int \<Rightarrow> ptr \<Rightarrow> u64 \<Rightarrow> 's \<Rightarrow> (opends_error \<times> 's) option) \<Rightarrow> (ptr \<Rightarrow> 's \<Rightarrow> (opends_error \<times> 's) option) \<Rightarrow> buf_call \<Rightarrow> 's
    \<Rightarrow> (opends_error \<times> 's) option" where
  "buf_op register deregister (Register a p n) s = register a p n s"
| "buf_op register deregister (Deregister p) s = deregister p s"

locale buffer_table =
  fixes register :: "int \<Rightarrow> ptr \<Rightarrow> u64 \<Rightarrow> 's \<Rightarrow> (opends_error \<times> 's) option"
    and deregister :: "ptr \<Rightarrow> 's \<Rightarrow> (opends_error \<times> 's) option"
    and bases :: "'s \<Rightarrow> ptr set"
    and owned :: "'s \<Rightarrow> ptr set"
    and cap :: nat
    and fails :: "int \<Rightarrow> bool"
    and ok :: "'s \<Rightarrow> bool"
  assumes reg: "ok s \<Longrightarrow> \<exists>e s'. register a p n s = Some (e, s') \<and> ok s' \<and> owned s' = owned s \<and>
      (err e, bases s') = buf_spec cap fails (owned s) (Register a p n) (bases s)"
    and dereg: "ok s \<Longrightarrow> \<exists>e s'. deregister p s = Some (e, s') \<and> ok s' \<and> owned s' = owned s \<and>
      (err e, bases s') = buf_spec cap fails (owned s) (Deregister p) (bases s)"

context buffer_table
begin

lemma buf_op_ok:
  "ok s \<Longrightarrow> \<exists>e s'. buf_op register deregister c s = Some (e, s') \<and> ok s' \<and> owned s' = owned s \<and>
     (err e, bases s') = buf_spec cap fails (owned s) c (bases s)"
  using reg dereg by (cases c) simp_all

end

section \<open>The aisio table keeps the contract\<close>

definition aisio_bases :: "aisio_proc \<Rightarrow> ptr set" where
  "aisio_bases P = (case drv P of None \<Rightarrow> {} | Some d \<Rightarrow> entry_base ` set (bufs d))"

definition aisio_owned :: "aisio_proc \<Rightarrow> ptr set" where
  "aisio_owned P = (case drv P of None \<Rightarrow> {} | Some d \<Rightarrow> entry_base ` {e \<in> set (bufs d). entry_owned e})"

text \<open>An open driver, none of whose buffers starts where another does.\<close>

definition table_ok :: "aisio_proc \<Rightarrow> bool" where
  "table_ok P \<longleftrightarrow> (\<exists>K d. proc_inv K P \<and> drv P = Some d \<and> distinct (map entry_base (bufs d)))"

lemma remove_set:
  assumes "distinct (map entry_base bs)" "i < length bs"
  shows "set (remove_buf bs i) = set bs - {bs ! i}" "distinct (map entry_base (remove_buf bs i))"
    "\<And>e. e \<in> set (remove_buf bs i) \<Longrightarrow> entry_base e \<noteq> entry_base (bs ! i)"
proof -
  have d: "distinct (map entry_base (bs ! i # remove_buf bs i))"
  proof -
    have "mset (map entry_base (bs ! i # remove_buf bs i)) = mset (map entry_base bs)"
      using arg_cong [OF mset_remove [OF assms(2)], of "image_mset entry_base"] by simp
    then show ?thesis
      using assms(1) by (metis mset_eq_imp_distinct_iff)
  qed
  then show "distinct (map entry_base (remove_buf bs i))"
    by simp
  show other: "entry_base e \<noteq> entry_base (bs ! i)" if "e \<in> set (remove_buf bs i)" for e
    using d imageI [OF that, of entry_base] by auto
  have "set bs = insert (bs ! i) (set (remove_buf bs i))"
    using arg_cong [OF mset_remove [OF assms(2)], of set_mset] by simp
  then show "set (remove_buf bs i) = set bs - {bs ! i}"
    using other by auto
qed

lemma table_facts:
  assumes "proc_inv K P" "drv P = Some d" "distinct (map entry_base (bufs d))"
  shows "xdev d" "aisio_bases P = entry_base ` set (bufs d)" "card (aisio_bases P) = length (bufs d)"
    "aisio_owned P = entry_base ` {e \<in> set (bufs d). entry_owned e}"
    "find_buf (bufs d) p = None \<longleftrightarrow> p \<notin> aisio_bases P"
  using assms distinct_card [OF assms(3)]
  by (simp_all add: proc_inv_def driver_inv_def aisio_bases_def aisio_owned_def find_buf_None)

lemma aisio_register_ok:
  assumes "table_ok P"
  shows "\<exists>e P'. opends_buf_register rc p n P = Some (e, P') \<and> table_ok P' \<and> aisio_owned P' = aisio_owned P \<and>
    (err e, aisio_bases P') = buf_spec MAX_BUF_ENTRIES (\<lambda>rc. rc < 0) (aisio_owned P) (Register rc p n) (aisio_bases P)"
proof -
  obtain K d where P: "proc_inv K P" "drv P = Some d" "distinct (map entry_base (bufs d))"
    using assms by (auto simp: table_ok_def)
  note t = table_facts [OF P]
  define e where "e = \<lparr>entry_base = p, entry_length = n, entry_owned = False\<rparr>"
  define P' where "P' = P\<lparr>drv := Some (d\<lparr>bufs := bufs d @ [e]\<rparr>), holds := add_mset (R_Map p) (holds P)\<rparr>"
  show ?thesis
  proof (cases "p = 0 \<or> n = 0 \<or> p \<in> aisio_bases P \<or> length (bufs d) \<ge> MAX_BUF_ENTRIES \<or> rc < 0")
    case True
    then show ?thesis
      using P(2) t assms by (auto simp: opends_buf_register_def opends_err_def)
  next
    case False
    have "opends_buf_register rc p n P = Some (opends_ok, P')"
      using False P(2) t(1) t(5) [of p] by (simp add: opends_buf_register_def P'_def e_def)
    moreover have "proc_inv K P'"
      using add_buf_inv [OF P(1,2), of e] False by (simp add: P'_def e_def buf_res_def)
    moreover have "aisio_bases P' = insert p (aisio_bases P)" "aisio_owned P' = aisio_owned P"
      by (auto simp: P'_def e_def aisio_bases_def aisio_owned_def P(2))
    moreover have "drv P' = Some (d\<lparr>bufs := bufs d @ [e]\<rparr>)"
      by (simp add: P'_def)
    moreover have "distinct (map entry_base (bufs d @ [e]))"
      using P(3) False t(2) by (simp add: e_def)
    ultimately show ?thesis
      using False t(3) by (fastforce simp: table_ok_def opends_ok_def)
  qed
qed

lemma aisio_deregister_ok:
  assumes "table_ok P"
  shows "\<exists>e P'. opends_buf_deregister p P = Some (e, P') \<and> table_ok P' \<and> aisio_owned P' = aisio_owned P \<and>
    (err e, aisio_bases P') = buf_spec MAX_BUF_ENTRIES (\<lambda>rc. rc < 0) (aisio_owned P) (Deregister p) (aisio_bases P)"
proof -
  obtain K d where P: "proc_inv K P" "drv P = Some d" "distinct (map entry_base (bufs d))"
    using assms by (auto simp: table_ok_def)
  note t = table_facts [OF P]
  show ?thesis
  proof (cases "find_buf (bufs d) p")
    case None
    then show ?thesis
      using P(2) t(1) t(5) [of p] assms by (auto simp: opends_buf_deregister_def opends_err_def)
  next
    case (Some i)
    note i = find_buf_Some [OF Some]
    have mem: "bufs d ! i \<in> set (bufs d)" and known: "p \<in> aisio_bases P"
      using i t(2) by auto
    have own: "p \<in> aisio_owned P \<longleftrightarrow> entry_owned (bufs d ! i)"
    proof
      assume "p \<in> aisio_owned P"
      then obtain e where "e \<in> set (bufs d)" "entry_owned e" "entry_base e = entry_base (bufs d ! i)"
        using t(4) i by auto
      then show "entry_owned (bufs d ! i)"
        using P(3) mem by (auto simp: distinct_map inj_on_def)
    qed (use mem i t(4) in auto)
    show ?thesis
    proof (cases "p = 0 \<or> entry_owned (bufs d ! i)")
      case True
      then show ?thesis
        using P(2) t(1) Some own known assms by (auto simp: opends_buf_deregister_def opends_err_def)
    next
      case False
      obtain H where H: "release (buf_res (bufs d ! i)) (holds P) = Some H"
        "proc_inv K (P\<lparr>drv := Some (d\<lparr>bufs := remove_buf (bufs d) i\<rparr>), holds := H\<rparr>)"
        using remove_buf_inv [OF P(1,2) conjunct1 [OF i]] by blast
      define P' where "P' = P\<lparr>drv := Some (d\<lparr>bufs := remove_buf (bufs d) i\<rparr>), holds := H\<rparr>"
      note rm = remove_set [OF P(3) conjunct1 [OF i]]
      have run: "opends_buf_deregister p P = Some (opends_ok, P')"
        using False P(2) t(1) Some H(1) i by (simp add: opends_buf_deregister_def P'_def buf_res_def)
      have "aisio_bases P' = aisio_bases P - {p}"
        using rm i t(2) by (auto simp: P'_def aisio_bases_def)
      moreover have "aisio_owned P' = aisio_owned P"
        using rm i t(4) False by (auto simp: P'_def aisio_owned_def)
      moreover have "table_ok P'"
        using H(2) rm(2) by (auto simp: table_ok_def P'_def)
      ultimately show ?thesis
        using run False own known by (simp add: opends_ok_def)
    qed
  qed
qed

interpretation abuf: buffer_table opends_buf_register opends_buf_deregister aisio_bases aisio_owned MAX_BUF_ENTRIES
  "\<lambda>rc. rc < 0" table_ok
  by unfold_locales (use aisio_register_ok aisio_deregister_ok in blast)+

end
