(* ===== verification/Registry.thy ===== *)
theory Registry
  imports Buffers
begin

unbundle bit_operations_syntax

text \<open>
  The registrations that a program makes with a backend: its buffers and its files. An abstract
  registry with one operation for every call, the locale \<open>file_registry\<close> which extends the contract of
  the buffer table by that of \<open>opends_handle_register\<close> and \<open>opends_handle_deregister\<close>, the simulation of
  the registry by any backend that keeps it, and the aisio backend of src/opends_aisio.c as one.
\<close>

section \<open>The abstract registry\<close>

text \<open>
  \<open>Open_File fhp d flags p\<close> is a call with a result pointer if \<open>fhp\<close>, for the descriptor \<open>d\<close> with the
  answer \<open>flags\<close> of \<open>fcntl\<close> and the memory \<open>p\<close> for the handle. A program that closes a handle it does not
  have is stuck: the code frees memory that is not its own.
\<close>

datatype reg_call = Buffer buf_call | Open_File bool int int ptr | Close_File ptr

type_synonym reg_result = "opends_op_error \<times> (ptr \<times> registered_file) option"

record registry =
  r_bases :: "ptr set"
  r_owned :: "ptr set"
  r_files :: "ptr \<Rightarrow> nat"
  r_uses :: int

fun registry_spec :: "nat \<Rightarrow> (int \<Rightarrow> bool) \<Rightarrow> reg_call \<Rightarrow> registry \<Rightarrow> (reg_result \<times> registry) option" where
  "registry_spec cap fails (Buffer c) R =
     (case buf_spec cap fails (r_owned R) c (r_bases R) of (e, B) \<Rightarrow> Some ((e, None), R\<lparr>r_bases := B\<rparr>))"
| "registry_spec cap fails (Open_File fhp d flags p) R =
     (if \<not> fhp \<or> flags < 0 then Some ((OPENDS_INVALID_VALUE, None), R)
      else if of_int flags AND O_DIRECT = 0 then Some ((OPENDS_DIO_NOT_SET, None), R)
      else if p = 0 then Some ((OPENDS_INTERNAL_ERROR, None), R)
      else Some ((OPENDS_SUCCESS, Some (p, \<lparr>fd = d, oflags = of_int flags\<rparr>)),
             R\<lparr>r_files := (r_files R)(p := Suc (r_files R p)), r_uses := r_uses R + 1\<rparr>))"
| "registry_spec cap fails (Close_File p) R =
     (if p = 0 then Some ((OPENDS_SUCCESS, None), R)
      else if r_files R p = 0 then None
      else Some ((OPENDS_SUCCESS, None), R\<lparr>r_files := (r_files R)(p := r_files R p - 1), r_uses := r_uses R - 1\<rparr>))"

text \<open>What is asked of the environment: \<open>fcntl\<close> fails on what is no descriptor.\<close>

fun fcntl_ok :: "reg_call \<Rightarrow> bool" where
  "fcntl_ok (Open_File fhp d flags p) \<longleftrightarrow> (d < 0 \<longrightarrow> flags < 0)"
| "fcntl_ok c \<longleftrightarrow> True"

text \<open>Calls one after the other, up to the first that is stuck.\<close>

fun run_calls :: "('c \<Rightarrow> 's \<Rightarrow> ('r \<times> 's) option) \<Rightarrow> 'c list \<Rightarrow> 's \<Rightarrow> ('r list \<times> 's) option" where
  "run_calls f [] s = Some ([], s)"
| "run_calls f (c # cs) s =
     (case f c s of
        None \<Rightarrow> None
      | Some (r, s1) \<Rightarrow> (case run_calls f cs s1 of None \<Rightarrow> None | Some (rs, s2) \<Rightarrow> Some (r # rs, s2)))"

text \<open>A simulation of single calls is one of sequences of calls.\<close>

lemma run_calls_sim:
  assumes "\<And>c s. c \<in> C \<Longrightarrow> R s \<Longrightarrow> map_option (map_prod id v) (f c s) = g c (v s)"
    and "\<And>c s r s'. c \<in> C \<Longrightarrow> R s \<Longrightarrow> f c s = Some (r, s') \<Longrightarrow> R s'"
    and "set cs \<subseteq> C" "R s"
  shows "map_option (map_prod id v) (run_calls f cs s) = run_calls g cs (v s)"
  using assms(3,4)
proof (induction cs arbitrary: s)
  case (Cons c cs)
  have c: "g c (v s) = map_option (map_prod id v) (f c s)"
    using assms(1) [of c s] Cons.prems by simp
  show ?case
  proof (cases "f c s")
    case (Some x)
    obtain r s1 where x: "x = (r, s1)"
      by fastforce
    have "R s1"
      using assms(2) [of c s r s1] Cons.prems Some x by simp
    then show ?thesis
      using Cons.IH [of s1] Cons.prems(1) Some x c
      by (simp flip: Cons.IH [of s1]) (simp split: option.split)
  qed (simp add: c)
qed simp

definition reg_op ::
  "(int \<Rightarrow> ptr \<Rightarrow> u64 \<Rightarrow> 's \<Rightarrow> (opends_error \<times> 's) option) \<Rightarrow> (ptr \<Rightarrow> 's \<Rightarrow> (opends_error \<times> 's) option) \<Rightarrow>
   (bool \<Rightarrow> int \<Rightarrow> int \<Rightarrow> ptr \<Rightarrow> 's \<Rightarrow> opends_error \<times> (ptr \<times> registered_file) option \<times> 's) \<Rightarrow> (ptr \<Rightarrow> 's \<Rightarrow> 's option) \<Rightarrow>
   reg_call \<Rightarrow> 's \<Rightarrow> (reg_result \<times> 's) option" where
  "reg_op register deregister opn cls c s = (case c of
     Buffer b \<Rightarrow> map_option (\<lambda>(e, s'). ((err e, None), s')) (buf_op register deregister b s)
   | Open_File fhp d flags p \<Rightarrow> (case opn fhp d flags p s of (e, h, s') \<Rightarrow> Some ((err e, h), s'))
   | Close_File p \<Rightarrow> map_option (\<lambda>s'. ((OPENDS_SUCCESS, None), s')) (cls p s))"

section \<open>The contract\<close>

locale file_registry = buffer_table +
  fixes opn :: "bool \<Rightarrow> int \<Rightarrow> int \<Rightarrow> ptr \<Rightarrow> 'a \<Rightarrow> opends_error \<times> (ptr \<times> registered_file) option \<times> 'a"
    and cls :: "ptr \<Rightarrow> 'a \<Rightarrow> 'a option"
    and files :: "'a \<Rightarrow> ptr \<Rightarrow> nat"
    and uses :: "'a \<Rightarrow> int"
  assumes opn: "ok s \<Longrightarrow> fcntl_ok (Open_File fhp d flags p) \<Longrightarrow> opn fhp d flags p s = (e, h, s') \<Longrightarrow>
      ok s' \<and> registry_spec cap fails (Open_File fhp d flags p) \<lparr>r_bases = bases s, r_owned = owned s, r_files = files s, r_uses = uses s\<rparr> =
        Some ((err e, h), \<lparr>r_bases = bases s', r_owned = owned s', r_files = files s', r_uses = uses s'\<rparr>)"
    and cls: "ok s \<Longrightarrow> (\<forall>s'. cls p s = Some s' \<longrightarrow> ok s') \<and>
      registry_spec cap fails (Close_File p) \<lparr>r_bases = bases s, r_owned = owned s, r_files = files s, r_uses = uses s\<rparr> =
        map_option (\<lambda>s'. ((OPENDS_SUCCESS, None), \<lparr>r_bases = bases s', r_owned = owned s', r_files = files s', r_uses = uses s'\<rparr>)) (cls p s)"
    and buf: "ok s \<Longrightarrow> buf_op register deregister c s = Some (e, s') \<Longrightarrow> files s' = files s \<and> uses s' = uses s"

context file_registry
begin

definition view :: "'a \<Rightarrow> registry" where
  "view s = \<lparr>r_bases = bases s, r_owned = owned s, r_files = files s, r_uses = uses s\<rparr>"

lemma reg_op_sim:
  assumes "ok s" "fcntl_ok c"
  shows "map_option (map_prod id view) (reg_op register deregister opn cls c s) = registry_spec cap fails c (view s)"
    and "reg_op register deregister opn cls c s = Some (r, s') \<Longrightarrow> ok s'"
proof -
  have "map_option (map_prod id view) (reg_op register deregister opn cls c s) = registry_spec cap fails c (view s) \<and>
    (\<forall>r s'. reg_op register deregister opn cls c s = Some (r, s') \<longrightarrow> ok s')"
  proof (cases c)
    case (Buffer b)
    obtain e s1 where b: "buf_op register deregister b s = Some (e, s1)" "ok s1" "owned s1 = owned s"
      "buf_spec cap fails (owned s) b (bases s) = (err e, bases s1)"
      using buf_op_ok [OF assms(1), of b] by metis
    then show ?thesis
      using Buffer buf [OF assms(1) b(1)] by (simp add: reg_op_def view_def)
  next
    case (Open_File fhp d flags p)
    obtain e h s1 where o: "opn fhp d flags p s = (e, h, s1)"
      using prod.exhaust by metis
    show ?thesis
      using opn [OF assms(1) assms(2) [unfolded Open_File] o] Open_File o by (simp add: reg_op_def view_def)
  next
    case (Close_File p)
    then show ?thesis
      using cls [OF assms(1), of p] by (cases "cls p s") (simp_all add: reg_op_def view_def)
  qed
  then show "map_option (map_prod id view) (reg_op register deregister opn cls c s) = registry_spec cap fails c (view s)"
    "reg_op register deregister opn cls c s = Some (r, s') \<Longrightarrow> ok s'"
    by blast+
qed

text \<open>The backend simulates the registry, stuck calls included.\<close>

lemma calls_sim:
  "ok s \<Longrightarrow> \<forall>c \<in> set cs. fcntl_ok c \<Longrightarrow>
    map_option (map_prod id view) (run_calls (reg_op register deregister opn cls) cs s) =
    run_calls (registry_spec cap fails) cs (view s)"
  by (rule run_calls_sim [of "Collect fcntl_ok" ok]) (auto simp: reg_op_sim(1) intro: reg_op_sim(2))

end

section \<open>Far from both limits the limit does not matter\<close>

definition registers :: "reg_call \<Rightarrow> bool" where
  "registers c \<longleftrightarrow> (\<exists>a p n. c = Buffer (Register a p n))"

text \<open>The calls whose mapping neither of the two backends refuses.\<close>

definition maps_ok :: "(int \<Rightarrow> bool) \<Rightarrow> (int \<Rightarrow> bool) \<Rightarrow> reg_call \<Rightarrow> bool" where
  "maps_ok fails fails' c \<longleftrightarrow> (\<forall>a p n. c = Buffer (Register a p n) \<longrightarrow> fails a = fails' a)"

lemma registry_spec_limit:
  assumes "registers c \<Longrightarrow> card (r_bases R) < cap \<and> card (r_bases R) < cap'" "maps_ok fails fails' c"
  shows "registry_spec cap fails c R = registry_spec cap' fails' c R"
proof (cases c)
  case (Buffer b)
  then show ?thesis
    using assms by (cases b) (auto simp: registers_def maps_ok_def)
qed simp_all

lemma registry_spec_card:
  assumes "registry_spec cap fails c R = Some (r, R')" "finite (r_bases R)"
  shows "finite (r_bases R') \<and> card (r_bases R') \<le> card (r_bases R) + (if registers c then 1 else 0)"
proof (cases c)
  case (Buffer b)
  then show ?thesis
    using assms by (cases b) (auto simp: registers_def card_insert_if card_Diff_singleton_if split: if_splits)
qed (use assms in \<open>auto simp: registers_def split: if_splits\<close>)

lemma run_spec_limit:
  assumes "finite (r_bases R)" "card (r_bases R) + length (filter registers cs) \<le> cap"
    "card (r_bases R) + length (filter registers cs) \<le> cap'" "\<forall>c \<in> set cs. maps_ok fails fails' c"
  shows "run_calls (registry_spec cap fails) cs R = run_calls (registry_spec cap' fails') cs R"
  using assms
proof (induction cs arbitrary: R)
  case (Cons c cs)
  have same: "registry_spec cap fails c R = registry_spec cap' fails' c R"
    using Cons.prems by (intro registry_spec_limit) auto
  show ?case
  proof (cases "registry_spec cap' fails' c R")
    case (Some x)
    obtain r R1 where x: "x = (r, R1)"
      by fastforce
    have "run_calls (registry_spec cap fails) cs R1 = run_calls (registry_spec cap' fails') cs R1"
      using Cons.prems registry_spec_card [OF Some [unfolded x]] by (intro Cons.IH) (auto split: if_splits)
    then show ?thesis
      using same Some x by simp
  qed (simp add: same)
qed simp

section \<open>Handles in what a process holds\<close>

definition file_count :: "held \<Rightarrow> ptr \<Rightarrow> nat" where
  "file_count H p = count H (R_Handle p)"

lemma file_count_simps [simp]:
  "file_count (add_mset (R_Handle p) H) = (file_count H)(p := Suc (file_count H p))"
  "file_count (H - {#R_Handle p#}) = (file_count H)(p := file_count H p - 1)"
  "file_count (add_mset (R_Map q) H) = file_count H" "file_count (H - {#R_Map q#}) = file_count H"
  by (auto simp: file_count_def fun_eq_iff)

lemma release_handle:
  "release (R_Handle p) H = (if file_count H p = 0 then None else Some (H - {#R_Handle p#}))"
  by (auto simp: release_def file_count_def not_in_iff)

lemma proc_inv_handle:
  "proc_inv K P \<Longrightarrow> proc_inv (add_mset (R_Handle p) K) (P\<lparr>use_count := c, holds := add_mset (R_Handle p) (holds P)\<rparr>)"
  by (auto simp: proc_inv_def split: option.splits)

text \<open>A registered handle is not among the driver's own.\<close>

lemma handle_foreign:
  assumes "proc_inv K P" "R_Handle p \<in># holds P"
  shows "R_Handle p \<in># K"
proof -
  have "R_Handle p \<notin> set (driver_res d)" for d
    by (auto simp: driver_res_def teardown_res_def stream_res_def worker_res_def buf_res_def descpath_res_def locks_def
        split: if_splits)
  then show ?thesis
    using assms by (auto simp: proc_inv_def split: option.splits)
qed

lemma handle_deregister_inv:
  assumes P: "proc_inv K P" and p: "R_Handle p \<in># holds P" "p \<noteq> 0"
  defines "P' \<equiv> P\<lparr>use_count := use_count P - 1, holds := holds P - {#R_Handle p#}\<rparr>"
  shows "opends_handle_deregister p P = Some P'" "proc_inv (K - {#R_Handle p#}) P'"
proof -
  obtain K' where K: "K = add_mset (R_Handle p) K'"
    using handle_foreign [OF P p(1)] by (metis insert_DiffM)
  show "opends_handle_deregister p P = Some P'"
    using p by (simp add: opends_handle_deregister_def P'_def release_def)
  show "proc_inv (K - {#R_Handle p#}) P'"
    using P K by (auto simp: P'_def proc_inv_def split: option.splits)
qed

section \<open>The aisio backend keeps the contract\<close>

abbreviation aisio_call :: "reg_call \<Rightarrow> aisio_proc \<Rightarrow> (reg_result \<times> aisio_proc) option" where
  "aisio_call \<equiv> reg_op opends_buf_register opends_buf_deregister opends_handle_register opends_handle_deregister"

lemma aisio_open_file:
  assumes "table_ok P" "opends_handle_register fhp d flags p P = (e, h, P')"
  shows "table_ok P' \<and>
    registry_spec cap fails (Open_File fhp d flags p)
      \<lparr>r_bases = aisio_bases P, r_owned = aisio_owned P, r_files = file_count (holds P), r_uses = use_count P\<rparr> =
    Some ((err e, h), \<lparr>r_bases = aisio_bases P', r_owned = aisio_owned P', r_files = file_count (holds P'), r_uses = use_count P'\<rparr>)"
proof -
  obtain K D where P: "proc_inv K P" "drv P = Some D" "distinct (map entry_base (bufs D))"
    using assms(1) by (auto simp: table_ok_def)
  have "table_ok (P\<lparr>use_count := use_count P + 1, holds := add_mset (R_Handle p) (holds P)\<rparr>)"
    using proc_inv_handle [OF P(1), of p "use_count P + 1"] P(2,3) by (auto simp: table_ok_def)
  then show ?thesis
    using assms P(2)
    by (auto simp: opends_handle_register_def opends_ok_def opends_err_def aisio_bases_def aisio_owned_def split: if_splits)
qed

lemma aisio_close_file:
  assumes "table_ok P"
  shows "(\<forall>P'. opends_handle_deregister p P = Some P' \<longrightarrow> table_ok P') \<and>
    registry_spec cap fails (Close_File p)
      \<lparr>r_bases = aisio_bases P, r_owned = aisio_owned P, r_files = file_count (holds P), r_uses = use_count P\<rparr> =
    map_option (\<lambda>P'. ((OPENDS_SUCCESS, None),
      \<lparr>r_bases = aisio_bases P', r_owned = aisio_owned P', r_files = file_count (holds P'), r_uses = use_count P'\<rparr>))
      (opends_handle_deregister p P)"
proof (cases "p \<noteq> 0 \<and> R_Handle p \<in># holds P")
  case True
  obtain K D where P: "proc_inv K P" "drv P = Some D" "distinct (map entry_base (bufs D))"
    using assms by (auto simp: table_ok_def)
  note h = handle_deregister_inv [OF P(1) conjunct2 [OF True] conjunct1 [OF True]]
  have "table_ok (P\<lparr>use_count := use_count P - 1, holds := holds P - {#R_Handle p#}\<rparr>)"
    using h(2) P(2,3) by (auto simp: table_ok_def)
  then show ?thesis
    using True h(1) by (simp add: aisio_bases_def aisio_owned_def) (simp add: file_count_def)
next
  case False
  then show ?thesis
    using assms by (auto simp: opends_handle_deregister_def release_handle) (simp_all add: file_count_def not_in_iff)
qed

lemma aisio_buf_files:
  assumes "buf_op opends_buf_register opends_buf_deregister c P = Some (e, P')"
  shows "file_count (holds P') = file_count (holds P) \<and> use_count P' = use_count P"
  using assms
  by (cases c) (auto simp: opends_buf_register_def opends_buf_deregister_def release_def split: option.splits if_splits)

interpretation aisio_registry: file_registry opends_buf_register opends_buf_deregister aisio_bases aisio_owned MAX_BUF_ENTRIES
  "\<lambda>rc. rc < 0" table_ok opends_handle_register opends_handle_deregister "\<lambda>P. file_count (holds P)" use_count
  by unfold_locales (use aisio_open_file aisio_close_file aisio_buf_files in blast)+

end
