(* ===== verification/Driver_Props.thy ===== *)
theory Driver_Props
  imports Accel_Cuda Registry Async_Props
begin

text \<open>
  The aisio driver with the CUDA operations as a whole: the states that its calls and its I/O threads
  can bring it into, what holds in all of them, and what a program can rely on when it opens and
  closes the driver, registers streams and submits on them.
\<close>

section \<open>Reachable states\<close>

definition aisio_part :: "aisio_proc \<Rightarrow> aisio_sys" where
  "aisio_part P = (map_option aisio_driver.truncate (drv P), world P)"

text \<open>A driver whose queues and routing are those of \<open>a\<close>, and its bounce buffers.\<close>

definition with_aisio :: "driver \<Rightarrow> aisio_driver \<Rightarrow> driver" where
  "with_aisio d a = d\<lparr>workers := workers a, rr_next := rr_next a\<rparr>"

definition bounce_res :: "driver \<Rightarrow> held" where
  "bounce_res d = mset (concat (map (\<lambda>i. map R_Bounce (bounce_bufs (workers d ! i))) [0..<n_workers d]))"

text \<open>What submissions and I/O threads have made of the part of the driver that they use.\<close>

definition put_part :: "driver \<Rightarrow> aisio_driver \<Rightarrow> io_world \<Rightarrow> aisio_proc \<Rightarrow> aisio_proc" where
  "put_part d a wd P = P\<lparr>drv := Some (with_aisio d a), world := wd, holds := holds P - bounce_res d + bounce_res (with_aisio d a)\<rparr>"

text \<open>
  The calls, with any arguments and any answers of the system, and the steps of theory Async_Api: the
  passes of I/O threads, which may allocate bounce buffers, and the submissions. A handle is
  deregistered only while it is registered. Joining an I/O thread waits for its last pass, which is
  a step before the one that closes the driver.
\<close>

inductive api_step :: "aisio_proc \<Rightarrow> aisio_proc \<Rightarrow> bool" where
  "cuda_memory_ok cu \<Longrightarrow> opends_driver_open (cuda_ctx_get cx) (cuda_host_alloc_mapped cu) env cuda_caps a P = Some (e, P') \<Longrightarrow>
    api_step P P'"
| "opends_driver_close P = Some (e, P') \<Longrightarrow> api_step P P'"
| "opends_handle_register fhp d flags p P = (e, h, P') \<Longrightarrow> api_step P P'"
| "R_Handle p \<in># holds P \<Longrightarrow> opends_handle_deregister p P = Some P' \<Longrightarrow> api_step P P'"
| "opends_alloc buf n P = (p, P') \<Longrightarrow> api_step P P'"
| "opends_free buf P = Some P' \<Longrightarrow> api_step P P'"
| "opends_buf_register rc base n P = Some (e, P') \<Longrightarrow> api_step P P'"
| "opends_buf_deregister base P = Some (e, P') \<Longrightarrow> api_step P P'"
| "cuda_memory_ok cu \<Longrightarrow> stream \<noteq> 0 \<Longrightarrow> opends_stream_register (cuda_host_alloc_mapped cu) buf stream P = Some (e, P') \<Longrightarrow> api_step P P'"
| "drv P = Some d \<Longrightarrow> aisio_step F (aisio_part P) (Some a, wd) \<Longrightarrow> length (streams wd) = length (streams (world P)) \<Longrightarrow>
    api_step P (put_part d a wd P)"

definition handles :: "held \<Rightarrow> held" where
  "handles K = filter_mset (\<lambda>q. case q of R_Handle p \<Rightarrow> True | _ \<Rightarrow> False) K"

definition start_proc :: "io_world \<Rightarrow> aisio_proc" where
  "start_proc wd = \<lparr>drv = None, use_count = 0, holds = {#}, world = wd\<rparr>"

definition proc_ok :: "aisio_proc \<Rightarrow> bool" where
  "proc_ok P \<longleftrightarrow> aisio_ok (aisio_part P) \<and> (\<exists>K. proc_inv K P \<and> use_count P = int (size (handles K)))"

section \<open>The steps keep the invariant\<close>

lemma handles_simps [simp]:
  "handles {#} = {#}" "handles (add_mset (R_Handle p) K) = add_mset (R_Handle p) (handles K)"
  "handles (K + L) = handles K + handles L" "handles {#R_Qpairs#} = {#}"
  by (simp_all add: handles_def)

lemma worker_res_split:
  "mset (concat (map (worker_res d) is)) = mset (concat (map (\<lambda>i. map R_Bounce (bounce_bufs (workers d ! i))) is)) + mset (map R_Queue is)"
  by (induction "is") (simp_all add: worker_res_def ac_simps)

lemma with_aisio_simps [simp]:
  "stream_slots (with_aisio d a) = stream_slots d" "bufs (with_aisio d a) = bufs d" "n_workers (with_aisio d a) = n_workers d"
  "stream_words_host (with_aisio d a) = stream_words_host d" "descpath_res (with_aisio d a) = descpath_res d"
  "workers (with_aisio d a) = workers a" "xdev (with_aisio d a) = xdev d" "geo (with_aisio d a) = geo d"
  "workers_ready (with_aisio d a) = workers_ready d" "streams_inv (with_aisio d a) = streams_inv d"
  by (simp_all add: with_aisio_def n_workers_def descpath_res_def streams_inv_def)

lemma with_aisio_truncate:
  "same_setup (aisio_driver.truncate d) a \<Longrightarrow> aisio_driver.truncate (with_aisio d a) = a"
  by (cases a) (simp add: same_setup_def with_aisio_def aisio_driver.truncate_def)

lemma with_aisio_res:
  "\<exists>R. mset (driver_res d) = R + bounce_res d \<and> mset (driver_res (with_aisio d a)) = R + bounce_res (with_aisio d a)"
  by (intro exI [of _ "mset (driver_res d) - bounce_res d"]) (simp add: driver_res_mset worker_res_split bounce_res_def)

lemma put_part_inv:
  assumes P: "proc_inv K P" "drv P = Some d" and s: "same_setup (aisio_driver.truncate d) a" "aisio_ok (Some a, wd)"
    and len: "length (streams wd) = length (streams (world P))"
  shows "proc_inv K (put_part d a wd P) \<and> aisio_part (put_part d a wd P) = (Some a, wd)"
proof -
  have inv: "driver_inv d" "holds P = K + mset (driver_res d)" "foreign K" "length (streams (world P)) = MAX_STREAMS"
    using P by (simp_all add: proc_inv_def)
  have tr: "aisio_driver.truncate (with_aisio d a) = a" and la: "length (workers a) = length (workers d)"
    by (rule with_aisio_truncate) (use s(1) in \<open>simp_all add: same_setup_def aisio_driver.truncate_def\<close>)
  then have "driver_inv (with_aisio d a)"
    using inv(1) s(2) by (simp add: driver_inv_def aisio_ok_def)
  moreover have "holds P - bounce_res d + bounce_res (with_aisio d a) = K + mset (driver_res (with_aisio d a))"
    using with_aisio_res [of d a] inv(2) by auto
  ultimately show ?thesis
    using inv tr len by (simp add: proc_inv_def aisio_part_def put_part_def)
qed

lemma aisio_part_ok:
  assumes "aisio_ok (aisio_part P)" "map_option aisio_driver.truncate (drv P') = map_option aisio_driver.truncate (drv P)"
    and "futures (world P') = futures (world P)"
  shows "aisio_ok (aisio_part P')"
  using assms by (simp add: aisio_part_def aisio_ok_def sys_futs_def aisio_fut_def)

lemma closed_part_ok: "drv P = None \<Longrightarrow> aisio_ok (aisio_part P)"
  by (simp add: aisio_part_def aisio_ok_def sys_futs_def)

lemma opened_part_ok:
  assumes "proc_inv K P" "drv P = Some d" "workers d = replicate (n_workers d) zero_worker"
  shows "aisio_ok (aisio_part P)"
proof -
  have "worker_futs zero_worker = {#}"
    by (simp add: worker_futs_def zero_worker_def zero_slot_def zero_op_def fut_of_def)
  then have "driver_futs (aisio_driver.truncate d) = {#}"
    using assms(3) by (simp add: driver_futs_def aisio_driver.truncate_def)
  then show ?thesis
    using assms by (simp add: aisio_part_def aisio_ok_def sys_futs_def proc_inv_def driver_inv_def)
qed

lemma buffer_part:
  "opends_alloc buf n P = (p, P') \<Longrightarrow> aisio_part P' = aisio_part P \<and> use_count P' = use_count P"
  "opends_free buf P = Some P' \<Longrightarrow> aisio_part P' = aisio_part P \<and> use_count P' = use_count P"
  "opends_buf_register rc base m P = Some (e, P') \<Longrightarrow> aisio_part P' = aisio_part P \<and> use_count P' = use_count P"
  "opends_buf_deregister base P = Some (e, P') \<Longrightarrow> aisio_part P' = aisio_part P \<and> use_count P' = use_count P"
  by (auto simp: opends_alloc_def opends_free_def opends_buf_register_def opends_buf_deregister_def aisio_part_def
      aisio_driver.truncate_def split: option.splits if_splits)

lemma stream_register_part:
  "opends_stream_register host_alloc buf stream P = Some (e, P') \<Longrightarrow>
    map_option aisio_driver.truncate (drv P') = map_option aisio_driver.truncate (drv P) \<and>
    futures (world P') = futures (world P) \<and> use_count P' = use_count P"
  by (auto simp: opends_stream_register_def Let_def upd_stream_def aisio_driver.truncate_def split: option.splits prod.splits if_splits)

lemma proc_okI:
  "proc_inv K P' \<Longrightarrow> aisio_ok (aisio_part P') \<Longrightarrow> use_count P' = int (size (handles K)) \<Longrightarrow> proc_ok P'"
  by (auto simp: proc_ok_def)

lemma proc_okE:
  assumes "proc_ok P"
  obtains K where "proc_inv K P" "aisio_ok (aisio_part P)" "use_count P = int (size (handles K))"
  using assms by (auto simp: proc_ok_def)

lemma no_handles: "proc_ok P \<Longrightarrow> use_count P = 0 \<Longrightarrow> file_count (holds P) = (\<lambda>_. 0)"
proof
  fix p
  assume P: "proc_ok P" "use_count P = 0"
  obtain K where K: "proc_inv K P" "use_count P = int (size (handles K))"
    using P(1) by (rule proc_okE)
  have "R_Handle p \<notin># holds P"
  proof
    assume "R_Handle p \<in># holds P"
    then have "R_Handle p \<in># handles K"
      using handle_foreign [OF K(1)] by (simp add: handles_def)
    then show False
      using K(2) P(2) by auto
  qed
  then show "file_count (holds P) p = 0"
    by (simp add: file_count_def not_in_iff)
qed

lemma driver_open_ok:
  assumes cu: "cuda_memory_ok cu" and run: "opends_driver_open (cuda_ctx_get cx) (cuda_host_alloc_mapped cu) env cuda_caps a P = Some (e, P')"
    and P: "proc_ok P"
  shows "proc_ok P'"
proof (cases "drv P")
  case None
  obtain K where K: "proc_inv K P" "use_count P = int (size (handles K))"
    using P by (rule proc_okE)
  then have f: "foreign K" "holds P = K"
    using None by (auto simp: proc_inv_def)
  define L where "L = (if 0 \<le> oa_attach a \<and> err e = OPENDS_DEVICE_NOT_FOUND then {#R_Qpairs#} else {#})"
  have r: "use_count P' = use_count P" "if err e = OPENDS_SUCCESS then proc_inv K P' \<and>
      (\<exists>d. drv P' = Some d \<and> workers d = replicate (n_workers d) zero_worker)
    else drv P' = None \<and> holds P' = K + L"
    using cudamem.driver_open_result [OF cu f(1) None f(2), of "cuda_ctx_get cx" env cuda_caps a] run
    by (auto simp: L_def split: if_splits)
  show ?thesis
  proof (cases "err e = OPENDS_SUCCESS")
    case True
    then show ?thesis
      using r K(2) opened_part_ok [of K P'] by (auto intro!: proc_okI)
  next
    case False
    have "proc_inv (K + L) P'" "handles (K + L) = handles K"
      using False r(2) f(1) by (simp_all add: proc_inv_def L_def)
    then show ?thesis
      using False r K(2) closed_part_ok [of P'] by (intro proc_okI [of "K + L"]) simp_all
  qed
qed (use run P in \<open>simp add: opends_driver_open_def\<close>)

lemma driver_close_ok:
  assumes run: "opends_driver_close P = Some (e, P')" and P: "proc_ok P"
  shows "proc_ok P'"
proof (cases "drv P")
  case (Some d)
  obtain K where K: "proc_inv K P" "use_count P = int (size (handles K))"
    using P by (rule proc_okE)
  then have "P' = P\<lparr>drv := None, holds := K\<rparr>" "foreign K"
    using run Some close_result [OF K(1)] by (simp_all add: proc_inv_def)
  then show ?thesis
    using K(2) by (intro proc_okI [of K]) (simp_all add: proc_inv_def closed_part_ok)
qed (use run P in \<open>simp add: opends_driver_close_def\<close>)

lemma handle_register_ok:
  assumes run: "opends_handle_register fhp d flags p P = (e, h, P')" and P: "proc_ok P"
  shows "proc_ok P'"
proof -
  obtain K where K: "proc_inv K P" "aisio_ok (aisio_part P)" "use_count P = int (size (handles K))"
    using P by (rule proc_okE)
  consider "P' = P" | "P' = P\<lparr>use_count := use_count P + 1, holds := add_mset (R_Handle p) (holds P)\<rparr>"
    using run by (auto simp: opends_handle_register_def split: if_splits)
  then show ?thesis
  proof cases
    case 2
    then show ?thesis
      using K proc_inv_handle [OF K(1), of p "use_count P + 1"]
      by (intro proc_okI [of "add_mset (R_Handle p) K"]) (simp_all add: aisio_part_def)
  qed (use P in simp)
qed

lemma handle_deregister_ok:
  assumes h: "R_Handle p \<in># holds P" and run: "opends_handle_deregister p P = Some P'" and P: "proc_ok P"
  shows "proc_ok P'"
proof (cases "p = 0")
  case False
  obtain K where K: "proc_inv K P" "aisio_ok (aisio_part P)" "use_count P = int (size (handles K))"
    using P by (rule proc_okE)
  have "handles (K - {#R_Handle p#}) + {#R_Handle p#} = handles K"
    using handle_foreign [OF K(1) h] by (metis add_mset_add_single handles_simps(2) insert_DiffM)
  then have "int (size (handles (K - {#R_Handle p#}))) = int (size (handles K)) - 1"
    by (metis add_diff_cancel_right' of_nat_1 of_nat_add size_single size_union)
  then show ?thesis
    using handle_deregister_inv [OF K(1) h False] run K
    by (intro proc_okI [of "K - {#R_Handle p#}"]) (auto simp: aisio_part_def)
qed (use run P in \<open>simp add: opends_handle_deregister_def\<close>)

lemma stream_register_ok:
  assumes cu: "cuda_memory_ok cu" "stream \<noteq> 0" and run: "opends_stream_register (cuda_host_alloc_mapped cu) buf stream P = Some (e, P')"
    and P: "proc_ok P"
  shows "proc_ok P'"
proof (cases "drv P")
  case (Some d)
  obtain K where K: "proc_inv K P" "aisio_ok (aisio_part P)" "use_count P = int (size (handles K))"
    using P by (rule proc_okE)
  then show ?thesis
    using cudamem.stream_register_result [OF cu(1) K(1) Some cu(2), of buf] run
      stream_register_part [OF run] aisio_part_ok [OF K(2), of P'] by (intro proc_okI [of K]) auto
qed (use run P in \<open>simp add: opends_stream_register_def\<close>)

lemma put_part_ok:
  assumes d: "drv P = Some d" "aisio_step F (aisio_part P) (Some a, wd)" "length (streams wd) = length (streams (world P))"
    and P: "proc_ok P"
  shows "proc_ok (put_part d a wd P)"
proof -
  obtain K where K: "proc_inv K P" "aisio_ok (aisio_part P)" "use_count P = int (size (handles K))"
    using P by (rule proc_okE)
  have ok: "aisio_ok (Some a, wd)"
    using aisio_step_ok [OF d(2) K(2)] by simp
  moreover have "same_setup (aisio_driver.truncate d) a"
    using aisio_step_setup [OF d(2), of "aisio_driver.truncate d"] d(1) by (simp add: aisio_part_def)
  ultimately show ?thesis
    using put_part_inv [OF K(1) d(1) _ _ d(3)] K(3) by (intro proc_okI [of K]) (simp_all add: put_part_def)
qed

lemma buffer_calls_ok:
  assumes "proc_ok P"
  shows "opends_alloc buf n P = (p, P') \<Longrightarrow> proc_ok P'" "opends_free buf P = Some P' \<Longrightarrow> proc_ok P'"
    "opends_buf_register rc base n P = Some (e, P') \<Longrightarrow> proc_ok P'" "opends_buf_deregister base P = Some (e, P') \<Longrightarrow> proc_ok P'"
proof -
  obtain K where K: "proc_inv K P" "aisio_ok (aisio_part P)" "use_count P = int (size (handles K))"
    using assms by (rule proc_okE)
  note inv = opends_alloc_inv [OF K(1), of buf n] opends_free_inv [OF K(1), of buf] opends_buf_register_inv [OF K(1), of rc base n]
    opends_buf_deregister_inv [OF K(1), of base]
  show "opends_alloc buf n P = (p, P') \<Longrightarrow> proc_ok P'" "opends_free buf P = Some P' \<Longrightarrow> proc_ok P'"
    "opends_buf_register rc base n P = Some (e, P') \<Longrightarrow> proc_ok P'" "opends_buf_deregister base P = Some (e, P') \<Longrightarrow> proc_ok P'"
    using inv K(2,3) by (auto dest: buffer_part intro!: proc_okI [of K])
qed

lemma api_step_ok: "api_step P P' \<Longrightarrow> proc_ok P \<Longrightarrow> proc_ok P'"
  by (induction rule: api_step.induct)
    (blast intro: driver_open_ok driver_close_ok handle_register_ok handle_deregister_ok stream_register_ok put_part_ok buffer_calls_ok)+

lemma reachable_ok: "api_step\<^sup>*\<^sup>* (start_proc wd) P \<Longrightarrow> proc_ok P"
proof (induction rule: rtranclp_induct)
  case base
  show ?case
    by (rule proc_okI [of "{#}"]) (simp_all add: start_proc_def proc_inv_def closed_part_ok)
next
  case (step P P')
  then show ?case
    using api_step_ok by blast
qed

lemma foreign_handles:
  "foreign K \<Longrightarrow> \<exists>n. K = handles K + replicate_mset n R_Qpairs"
proof (induction K)
  case (add q K)
  then obtain n where n: "K = handles K + replicate_mset n R_Qpairs"
    by (auto simp: foreign_def)
  from add.prems consider p where "q = R_Handle p" | "q = R_Qpairs"
    by (auto simp: foreign_def)
  then show ?case
  proof cases
    case 1
    then show ?thesis
      using n by auto
  next
    case 2
    then have "add_mset q K = handles (add_mset q K) + replicate_mset (Suc n) R_Qpairs"
      using n by (simp add: handles_def)
    then show ?thesis
      by blast
  qed
qed simp

section \<open>Properties\<close>

text \<open>
  C22: opening the driver never uses or frees what it does not hold, whichever call fails. If it succeeds
  the driver satisfies its invariant: between one and fifteen idle workers with their queues, a
  device whose block size is a power of two, no buffers and no streams, ready for submissions. If it
  fails, the process holds and knows exactly what it did before, except that the queue pairs stay
  attached when the device cannot be opened after attaching them.
\<close>

theorem driver_open_outcome:
  assumes "cuda_memory_ok cu" "proc_ok P" "drv P = None"
  shows "\<exists>e P'. opends_driver_open (cuda_ctx_get cx) (cuda_host_alloc_mapped cu) env cuda_caps a P = Some (e, P') \<and>
    (if err e = OPENDS_SUCCESS then proc_ok P' \<and> (\<exists>d. drv P' = Some d \<and> driver_inv d \<and>
         workers d = replicate (n_workers d) zero_worker \<and> bufs d = [] \<and> stream_slots d = [])
     else drv P' = None \<and> world P' = world P \<and> use_count P' = use_count P \<and>
       holds P' = holds P + (if 0 \<le> oa_attach a \<and> err e = OPENDS_DEVICE_NOT_FOUND then {#R_Qpairs#} else {#}))"
proof -
  obtain K where K: "proc_inv K P" "foreign K" "holds P = K"
    using assms(2,3) by (auto simp: proc_ok_def proc_inv_def)
  from cudamem.driver_open_result [OF assms(1) K(2) assms(3) K(3), of "cuda_ctx_get cx" env cuda_caps a]
  obtain e P' where r: "opends_driver_open (cuda_ctx_get cx) (cuda_host_alloc_mapped cu) env cuda_caps a P = Some (e, P')"
    "use_count P' = use_count P" "if err e = OPENDS_SUCCESS then proc_inv K P' \<and> futures (world P') = futures (world P) \<and>
       (\<exists>d. drv P' = Some d \<and> workers d = replicate (n_workers d) zero_worker \<and> bufs d = [] \<and> stream_slots d = [])
     else drv P' = None \<and> world P' = world P \<and>
       holds P' = K + (if 0 \<le> oa_attach a \<and> err e = OPENDS_DEVICE_NOT_FOUND then {#R_Qpairs#} else {#})"
    by blast
  have "proc_ok P'"
    by (rule api_step_ok [OF api_step.intros(1) [OF assms(1) r(1)] assms(2)])
  then show ?thesis
    using r K(3) by (auto simp: proc_inv_def)
qed

text \<open>
  C19: whatever a program calls, in whatever order and with whatever answers of the system, and whatever
  the I/O threads do, the driver's invariant holds: what the process holds is exactly what the
  tables of the driver record, the file handles, and queue pairs left by a failed opening; the use
  count is the number of handles; the tables stay within their bounds; streams have different
  indices below the number of streams; every worker's ring is in order, and no future belongs to two
  operations or is done while an operation will still write it.
\<close>

theorem driver_invariant:
  assumes "api_step\<^sup>*\<^sup>* (start_proc wd) P"
  shows "proc_ok P"
  by (rule reachable_ok [OF assms])

text \<open>
  C21: no call of the driver frees something twice, frees something that something else still needs, or
  releases what it does not hold: in every reachable state every call returns.
\<close>

theorem driver_never_misuses:
  assumes "api_step\<^sup>*\<^sup>* (start_proc wd) P" "cuda_memory_ok cu" "R_Handle h \<in># holds P" "s \<noteq> 0"
  shows "opends_driver_open (cuda_ctx_get cx) (cuda_host_alloc_mapped cu) env cuda_caps a P \<noteq> None \<and>
    opends_driver_close P \<noteq> None \<and> opends_handle_deregister h P \<noteq> None \<and> opends_free buf P \<noteq> None \<and>
    opends_buf_register rc base n P \<noteq> None \<and> opends_buf_deregister base P \<noteq> None \<and>
    opends_stream_register (cuda_host_alloc_mapped cu) buf s P \<noteq> None"
proof -
  obtain K where K: "proc_inv K P"
    using reachable_ok [OF assms(1)] by (auto simp: proc_ok_def)
  have "opends_driver_open (cuda_ctx_get cx) (cuda_host_alloc_mapped cu) env cuda_caps a P \<noteq> None"
    using cudamem.driver_open_result [OF assms(2), of K P "cuda_ctx_get cx" env cuda_caps a] K
    by (cases "drv P") (auto simp: proc_inv_def opends_driver_open_def)
  moreover have "opends_stream_register (cuda_host_alloc_mapped cu) buf s P \<noteq> None"
    using cudamem.stream_register_result [OF assms(2) K _ assms(4), of _ buf]
    by (cases "drv P") (auto simp: opends_stream_register_def)
  moreover have "opends_handle_deregister h P \<noteq> None"
    using handle_deregister_inv [OF K assms(3)] by (cases "h = 0") (auto simp: opends_handle_deregister_def)
  ultimately show ?thesis
    using opends_free_inv [OF K, of buf] opends_buf_register_inv [OF K, of rc base n] opends_buf_deregister_inv [OF K, of base]
      close_result [OF K] by (auto split: option.splits)
qed

text \<open>
  C20: closing the driver gives everything back: the threads, queues, stream words, bounce buffers,
  descriptors, buffers and mappings, the device and its queue pairs, the connection, the locks and
  the driver itself, whatever was registered or allocated before and however many failed calls there
  were. What is left are the file handles that are still registered, as many as the use count says,
  and queue pairs that a failed opening has left attached.
\<close>

theorem driver_close_releases:
  assumes "api_step\<^sup>*\<^sup>* (start_proc wd) P" "drv P = Some d"
  shows "\<exists>P' n. opends_driver_close P = Some (opends_ok, P') \<and> drv P' = None \<and>
    holds P' = handles (holds P') + replicate_mset n R_Qpairs \<and> int (size (handles (holds P'))) = opends_use_count P'"
proof -
  obtain K where K: "proc_inv K P" "use_count P = int (size (handles K))" "foreign K"
    using reachable_ok [OF assms(1)] by (auto simp: proc_ok_def proc_inv_def)
  obtain n where "K = handles K + replicate_mset n R_Qpairs"
    using foreign_handles [OF K(3)] by blast
  then show ?thesis
    using close_result [OF K(1)] assms(2) K(2) by (auto simp: opends_use_count_def)
qed

text \<open>
  C24: registering a stream makes exactly that stream resolve to the next free index, with a gate word of
  its own, a cleared gate and sequence number, and its bounce buffer, and changes no other stream and
  nothing that submission uses. A registered stream is left alone. If memory runs out the driver is
  as before and holds nothing more; and when 8192 streams have been registered there is no more
  room. Deregistering the stream afterwards changes nothing, so it makes no room either.
\<close>

theorem stream_register_outcome:
  assumes "cuda_memory_ok cu" "proc_ok P" "drv P = Some d" "s \<noteq> 0"
  shows "\<exists>e P'. opends_stream_register (cuda_host_alloc_mapped cu) buf s P = Some (e, P') \<and>
    (if opends_stream_get (stream_map d) s \<noteq> None then e = opends_ok \<and> P' = P
     else if length (stream_slots d) = 8192 then e = opends_err OPENDS_INTERNAL_ERROR \<and> P' = P
     else if err e = OPENDS_SUCCESS then
       \<exists>d' sl. drv P' = Some d' \<and> aisio_driver.truncate d' = aisio_driver.truncate d \<and> stream_slots d' = stream_slots d @ [sl] \<and>
         slot_gate_dptr sl = stream_words_dptr d + of_nat (length (stream_slots d)) * 4 \<and>
         opends_stream_get (stream_map d') s = Some (length (stream_slots d)) \<and>
         (\<forall>t. t \<noteq> 0 \<longrightarrow> t \<noteq> s \<longrightarrow> opends_stream_get (stream_map d') t = opends_stream_get (stream_map d) t) \<and>
         streams (world P') = (streams (world P))[length (stream_slots d) := zero_stream\<lparr>stream_bounce_buf := buf\<rparr>]
     else err e = OPENDS_INTERNAL_ERROR \<and> drv P' = drv P \<and> holds P' = holds P \<and>
       (\<forall>i. i \<noteq> length (stream_slots d) \<longrightarrow> streams (world P') ! i = streams (world P) ! i)) \<and>
    opends_stream_deregister s P' = (opends_ok, P')"
proof -
  obtain K where K: "proc_inv K P"
    using assms(2) by (auto simp: proc_ok_def)
  show ?thesis
    using cudamem.stream_register_result [OF assms(1) K assms(3,4), of buf, unfolded MAX_STREAMS_def]
    by (auto simp only: opends_stream_deregister_def)
qed


section \<open>Examples\<close>

definition demo_answers :: open_answers where
  "demo_answers = \<lparr>oa_calloc = True, oa_connect = 0, oa_attach = 0, oa_desc = True,
     oa_dev = Some (\<lparr>geo_lba_nbytes = 512, geo_nbytes = 0, geo_mdts_nbytes = 0\<rparr>, 1), oa_workers_calloc = True,
     oa_queue_init = (\<lambda>_. 0), oa_pthread_create = (\<lambda>_. 0)\<rparr>"

definition demo_cuda :: cuda_memory where
  "demo_cuda = \<lparr>cu_mem_host_alloc = (0, 4096), cu_device_pointer = (0, 8192)\<rparr>"

definition demo_environ :: environ where
  "demo_environ = [''OPENDS_HOMI_DEV'' \<mapsto> ''0000:01:00.0'', ''OPENDS_AISIO_IO_THREADS'' \<mapsto> ''1'']"

lemma demo_cuda_ok: "cuda_memory_ok demo_cuda"
  by (simp add: cuda_memory_ok_def demo_cuda_def)

lemma demo_opens:
  "\<exists>P. opends_driver_open (cuda_ctx_get (0, 77)) (cuda_host_alloc_mapped demo_cuda) demo_environ cuda_caps demo_answers
     (start_proc idle_world) = Some (opends_ok, P)"
proof -
  have cfg: "\<exists>c. read_env_config demo_environ cuda_caps = Inr c \<and> n_io_threads c = 1"
    by (simp add: read_env_config_def demo_environ_def cuda_caps_def env_int_def strtol10_def is_space_def
        digit_in_def digits_value_def env_spin_def env_mask_def env_aligned_def clamp_def
        DEFAULT_IO_THREADS_def MAX_IO_THREADS_def DEFAULT_QUEUE_DEPTH_def MAX_QUEUE_DEPTH_def DEFAULT_IDLE_SPIN_US_def
        MAX_IDLE_SPIN_US_def)
  have geo: "\<exists>g. open_device_geometry al \<lparr>geo_lba_nbytes = 512, geo_nbytes = 0, geo_mdts_nbytes = 0\<rparr> = Some g" for al
    by (simp add: open_device_geometry_def)
  obtain c g where c: "read_env_config demo_environ cuda_caps = Inr c" "n_io_threads c = 1"
    "open_device_geometry (cfg_aligned_only c) \<lparr>geo_lba_nbytes = 512, geo_nbytes = 0, geo_mdts_nbytes = 0\<rparr> = Some g"
    using cfg geo by blast
  have dev: "demo_environ ''OPENDS_HOMI_DEV'' = Some ''0000:01:00.0''"
    by (simp add: demo_environ_def)
  show ?thesis
    using c by (auto simp: opends_driver_open_def start_proc_def dev demo_answers_def open_device_def Let_def
        workers_setup_def cuda_ctx_get_def cuda_host_alloc_mapped_def demo_cuda_def n_workers_def new_driver_def)
qed

lemma demo_reached:
  obtains P d where "api_step\<^sup>*\<^sup>* (start_proc idle_world) P" "proc_ok P" "drv P = Some d" "bufs d = []"
    "use_count P = 0"
proof -
  have start: "proc_ok (start_proc idle_world)" "drv (start_proc idle_world) = None"
    using reachable_ok [of idle_world] by (simp_all add: start_proc_def)
  obtain P where run: "opends_driver_open (cuda_ctx_get (0, 77)) (cuda_host_alloc_mapped demo_cuda) demo_environ cuda_caps demo_answers
     (start_proc idle_world) = Some (opends_ok, P)"
    using demo_opens by blast
  have "api_step (start_proc idle_world) P"
    by (rule api_step.intros(1) [OF demo_cuda_ok run])
  then have "api_step\<^sup>*\<^sup>* (start_proc idle_world) P"
    by simp
  moreover have "use_count P = 0 \<and> (\<exists>d. drv P = Some d \<and> bufs d = [])"
  proof -
    obtain K where K: "proc_inv K (start_proc idle_world)"
      using start(1) by (auto simp: proc_ok_def)
    then have "foreign K" "holds (start_proc idle_world) = K"
      by (simp_all add: proc_inv_def start_proc_def)
    from cudamem.driver_open_result [OF demo_cuda_ok this(1) start(2) this(2), of "cuda_ctx_get (0, 77)" demo_environ cuda_caps demo_answers]
    show ?thesis
      using run by (auto simp: opends_ok_def start_proc_def)
  qed
  ultimately show thesis
    using that reachable_ok by blast
qed

theorem driver_open_outcome_witness:
  "\<exists>P'. opends_driver_open (cuda_ctx_get (0, 77)) (cuda_host_alloc_mapped demo_cuda) demo_environ cuda_caps demo_answers
     (start_proc idle_world) = Some (opends_ok, P') \<and> proc_ok P'"
proof -
  have "proc_ok (start_proc idle_world)" "drv (start_proc idle_world) = None"
    using reachable_ok [of idle_world] by (simp_all add: start_proc_def)
  from driver_open_outcome [OF demo_cuda_ok this, of "(0, 77)" demo_environ demo_answers] show ?thesis
    using demo_opens by (auto simp: opends_ok_def)
qed

theorem driver_invariant_witness:
  "\<exists>(P :: aisio_proc) d. api_step\<^sup>*\<^sup>* (start_proc idle_world) P \<and> drv P = Some d \<and> proc_ok P"
proof -
  obtain P d where "api_step\<^sup>*\<^sup>* (start_proc idle_world) P" "drv P = Some d"
    using demo_reached by blast
  then show ?thesis
    using driver_invariant [of idle_world P] by blast
qed

theorem driver_never_misuses_witness:
  "\<exists>(P :: aisio_proc) d. api_step\<^sup>*\<^sup>* (start_proc idle_world) P \<and> drv P = Some d \<and> R_Handle 16 \<in># holds P \<and>
     opends_driver_close P \<noteq> None \<and> opends_handle_deregister 16 P \<noteq> None"
proof -
  obtain P d where P: "api_step\<^sup>*\<^sup>* (start_proc idle_world) P" "drv P = Some d"
    using demo_reached by blast
  define P' where "P' = P\<lparr>use_count := use_count P + 1, holds := add_mset (R_Handle 16) (holds P)\<rparr>"
  have "opends_handle_register True 3 16384 16 P = (opends_ok, Some (16, \<lparr>fd = 3, oflags = 16384\<rparr>), P')"
    using P(2) by (simp add: opends_handle_register_def O_DIRECT_def P'_def)
  then have "api_step P P'"
    by (rule api_step.intros(3))
  then have r: "api_step\<^sup>*\<^sup>* (start_proc idle_world) P'"
    using P(1) by simp
  have h: "R_Handle 16 \<in># holds P'" and d: "drv P' = Some d"
    using P(2) by (simp_all add: P'_def)
  show ?thesis
    using driver_never_misuses [OF r demo_cuda_ok h, of 1] r h d by auto
qed

theorem driver_close_releases_witness:
  "\<exists>(P :: aisio_proc) d P'. api_step\<^sup>*\<^sup>* (start_proc idle_world) P \<and> drv P = Some d \<and>
     opends_driver_close P = Some (opends_ok, P') \<and> drv P' = None"
proof -
  obtain P d where P: "api_step\<^sup>*\<^sup>* (start_proc idle_world) P" "drv P = Some d"
    using demo_reached by blast
  then show ?thesis
    using driver_close_releases [OF P] by blast
qed

theorem stream_register_outcome_witness:
  "\<exists>(P :: aisio_proc) d e P'. proc_ok P \<and> drv P = Some d \<and>
     opends_stream_register (cuda_host_alloc_mapped demo_cuda) 512 99 P = Some (e, P') \<and>
     opends_stream_deregister 99 P' = (opends_ok, P')"
proof -
  obtain P d where P: "proc_ok P" "drv P = Some d"
    using demo_reached by metis
  then show ?thesis
    using stream_register_outcome [OF demo_cuda_ok P, of 99 512] by auto
qed

text \<open>Stream 99 as the only one, on a driver with the worker of theory Async_Props.\<close>

definition demo_streams :: io_world where
  "demo_streams = idle_world\<lparr>streams := [zero_stream]\<rparr>"

definition demo_cuda_streams :: cuda_streams where
  "demo_cuda_streams = \<lparr>cu_stream_write = 0, cu_stream_wait = 0, cu_launch_host = 0, cu_last_error = 0\<rparr>"

definition demo_stream_read :: stream_request where
  "demo_stream_read = \<lparr>sr_write = False, sr_fh = Some \<lparr>fd = 3, oflags = 0\<rparr>, sr_buf = 4096, sr_size_p = 8, sr_file_offset_p = 16,
     sr_buf_offset_p = 24, sr_bytes_p = 32, sr_stream = 99\<rparr>"

lemma demo_map: "\<exists>e. opends_stream_get e 99 = Some 0"
proof -
  have "stream_map_inv STREAM_MAP_BITS (empty_stream_map STREAM_MAP_BITS)"
    by (rule stream_map_inv_empty) (simp add: STREAM_MAP_BITS_def)
  from stream_map_put_correct [OF this, of 99 0] obtain e where
    e: "stream_map_inv STREAM_MAP_BITS e" "stream_map_view e = [99 \<mapsto> 0]"
    by auto
  then have "opends_stream_get e 99 = Some 0"
    using stream_map_get_correct [OF e(1), of 99] by (simp add: opends_stream_get_def map_mask)
  then show ?thesis
    by blast
qed


end
