(* ===== verification/Ref_Driver.thy ===== *)
theory Ref_Driver
  imports Ref_Backend Registry
begin

unbundle bit_operations_syntax

text \<open>
  The rest of src/opends_ref.c: opening and closing, handles, allocation and the table of registered
  buffers, which keeps the same contract as that of the aisio driver. \<open>ref_heap\<close> is what the backend
  has allocated, with the constructors of theory Resources.
\<close>

section \<open>The code\<close>

record ref_proc =
  ref_sys :: ref_sys
  ref_use_count :: int
  ref_registered :: "ptr list"
  ref_heap :: held

definition REF_MAX_BUFS :: nat where "REF_MAX_BUFS = 64"

definition ref_driver_open :: "ref_proc \<Rightarrow> opends_error \<times> ref_proc" where
  "ref_driver_open P =
     (if driver_open (ref_sys P) then (opends_err OPENDS_DRIVER_ALREADY_OPEN, P)
      else (opends_ok, P\<lparr>ref_sys := (ref_sys P)\<lparr>driver_open := True\<rparr>\<rparr>))"

definition ref_driver_close :: "ref_proc \<Rightarrow> opends_error \<times> ref_proc" where
  "ref_driver_close P =
     (if \<not> driver_open (ref_sys P) then (opends_err OPENDS_DRIVER_NOT_INITIALIZED, P)
      else (opends_ok, P\<lparr>ref_registered := [], ref_sys := (ref_sys P)\<lparr>driver_open := False\<rparr>\<rparr>))"

definition ref_get_use_count :: "ref_proc \<Rightarrow> int" where
  "ref_get_use_count P = ref_use_count P"

definition ref_driver_get_properties :: "bool \<Rightarrow> opends_error \<times> drv_props option" where
  "ref_driver_get_properties propsp =
     (if \<not> propsp then (opends_err OPENDS_INVALID_VALUE, None)
      else (opends_ok, Some \<lparr>major_version = 1, minor_version = 0, max_direct_io_size = 0, max_batch_io_size = 0,
              max_batch_io_timeout_msecs = 0\<rparr>))"

definition ref_set_max_direct_io_size :: "u64 \<Rightarrow> opends_error" where
  "ref_set_max_direct_io_size n = opends_ok"

text \<open>The three versions, each stored only where the caller gave a pointer.\<close>

definition opends_get_version :: "bool \<Rightarrow> bool \<Rightarrow> bool \<Rightarrow> opends_error \<times> u32 option \<times> u32 option \<times> u32 option" where
  "opends_get_version major minor patch =
     (opends_ok, if major then Some 0 else None, if minor then Some 1 else None, if patch then Some 0 else None)"

definition ref_handle_register ::
  "bool \<Rightarrow> int \<Rightarrow> int \<Rightarrow> ptr \<Rightarrow> ref_proc \<Rightarrow> opends_error \<times> (ptr \<times> registered_file) option \<times> ref_proc" where
  "ref_handle_register fhp d flags p P =
     (if \<not> fhp \<or> d < 0 then (opends_err OPENDS_INVALID_VALUE, None, P)
      else if flags < 0 then (opends_err OPENDS_INVALID_VALUE, None, P)
      else if of_int flags AND O_DIRECT = 0 then (opends_err OPENDS_DIO_NOT_SET, None, P)
      else if p = 0 then (opends_err OPENDS_INTERNAL_ERROR, None, P)
      else (opends_ok, Some (p, \<lparr>fd = d, oflags = of_int flags\<rparr>),
            P\<lparr>ref_heap := add_mset (R_Handle p) (ref_heap P), ref_use_count := ref_use_count P + 1\<rparr>))"

definition ref_handle_deregister :: "ptr \<Rightarrow> ref_proc \<Rightarrow> ref_proc option" where
  "ref_handle_deregister fh P =
     (if fh = 0 then Some P
      else map_option (\<lambda>H. P\<lparr>ref_heap := H, ref_use_count := ref_use_count P - 1\<rparr>) (release (R_Handle fh) (ref_heap P)))"

definition ALIGN_UP :: "u64 \<Rightarrow> u64 \<Rightarrow> u64" where
  "ALIGN_UP x a = (x + a - 1) AND NOT (a - 1)"

text \<open>\<open>aligned\<close> is \<open>aligned_alloc\<close> with its alignment and size.\<close>

definition ref_alloc :: "(u64 \<Rightarrow> u64 \<Rightarrow> ptr) \<Rightarrow> u64 \<Rightarrow> ref_proc \<Rightarrow> ptr \<times> ref_proc" where
  "ref_alloc aligned n P =
     (let p = aligned 4096 (ALIGN_UP n 4096)
      in (p, if p = 0 then P else P\<lparr>ref_heap := add_mset (R_Buf p) (ref_heap P)\<rparr>))"

definition ref_free :: "ptr \<Rightarrow> ref_proc \<Rightarrow> ref_proc option" where
  "ref_free buf P =
     (if buf = 0 then Some P
      else if buf \<in> set (ref_registered P) then Some P
      else map_option (\<lambda>H. P\<lparr>ref_heap := H\<rparr>) (release (R_Buf buf) (ref_heap P)))"

definition find_base :: "ptr list \<Rightarrow> ptr \<Rightarrow> nat option" where
  "find_base bs p = find (\<lambda>i. bs ! i = p) [0..<length bs]"

definition ref_buf_register :: "int \<Rightarrow> ptr \<Rightarrow> u64 \<Rightarrow> ref_proc \<Rightarrow> (opends_error \<times> ref_proc) option" where
  "ref_buf_register a base n P =
     (if \<not> driver_open (ref_sys P) then Some (opends_err OPENDS_DRIVER_NOT_INITIALIZED, P)
      else if base = 0 \<or> n = 0 then Some (opends_err OPENDS_INVALID_VALUE, P)
      else if find_base (ref_registered P) base \<noteq> None then Some (opends_err OPENDS_MEMORY_ALREADY_REGISTERED, P)
      else if length (ref_registered P) \<ge> REF_MAX_BUFS then Some (opends_err OPENDS_INTERNAL_ERROR, P)
      else Some (opends_ok, P\<lparr>ref_registered := ref_registered P @ [base]\<rparr>))"

definition ref_buf_deregister :: "ptr \<Rightarrow> ref_proc \<Rightarrow> (opends_error \<times> ref_proc) option" where
  "ref_buf_deregister base P =
     (if \<not> driver_open (ref_sys P) then Some (opends_err OPENDS_DRIVER_NOT_INITIALIZED, P)
      else if base = 0 then Some (opends_err OPENDS_INVALID_VALUE, P)
      else case find_base (ref_registered P) base of
             None \<Rightarrow> Some (opends_err OPENDS_MEMORY_NOT_REGISTERED, P)
           | Some i \<Rightarrow> Some (opends_ok, P\<lparr>ref_registered := remove_buf (ref_registered P) i\<rparr>))"

definition ref_stream_register :: "ptr \<Rightarrow> u32 \<Rightarrow> ref_proc \<Rightarrow> opends_error \<times> ref_proc" where
  "ref_stream_register stream flags P = (opends_ok, P)"

definition ref_stream_deregister :: "ptr \<Rightarrow> ref_proc \<Rightarrow> opends_error \<times> ref_proc" where
  "ref_stream_deregister stream P = (opends_ok, P)"

section \<open>The table keeps the contract\<close>

definition ref_bases :: "ref_proc \<Rightarrow> ptr set" where
  "ref_bases P = set (ref_registered P)"

definition ref_table_ok :: "ref_proc \<Rightarrow> bool" where
  "ref_table_ok P \<longleftrightarrow> driver_open (ref_sys P) \<and> distinct (ref_registered P)"

lemma find_base_None: "find_base bs p = None \<longleftrightarrow> p \<notin> set bs"
  by (auto simp: find_base_def find_None_iff in_set_conv_nth)

lemma find_base_Some: "find_base bs p = Some i \<Longrightarrow> i < length bs \<and> bs ! i = p"
  by (auto simp: find_base_def find_Some_iff)

lemma ref_register_ok:
  assumes "ref_table_ok P"
  shows "\<exists>e P'. ref_buf_register a p n P = Some (e, P') \<and> ref_table_ok P' \<and> {} = ({} :: ptr set) \<and>
    (err e, ref_bases P') = buf_spec REF_MAX_BUFS (\<lambda>_. False) {} (Register a p n) (ref_bases P)"
  using assms distinct_card [of "ref_registered P"]
  by (auto simp: ref_buf_register_def ref_table_ok_def ref_bases_def find_base_None opends_ok_def opends_err_def)

lemma ref_deregister_ok:
  assumes "ref_table_ok P"
  shows "\<exists>e P'. ref_buf_deregister p P = Some (e, P') \<and> ref_table_ok P' \<and> {} = ({} :: ptr set) \<and>
    (err e, ref_bases P') = buf_spec REF_MAX_BUFS (\<lambda>_. False) {} (Deregister p) (ref_bases P)"
proof (cases "find_base (ref_registered P) p")
  case None
  then have "p \<notin> set (ref_registered P)"
    by (simp add: find_base_None)
  then show ?thesis
    using assms None by (simp add: ref_buf_deregister_def ref_table_ok_def ref_bases_def opends_err_def)
next
  case (Some i)
  note i = find_base_Some [OF Some]
  have "mset (ref_registered P) = add_mset p (mset (remove_buf (ref_registered P) i))"
    using mset_remove [OF conjunct1 [OF i]] i by simp
  then have rm: "distinct (p # remove_buf (ref_registered P) i)" "set (ref_registered P) = insert p (set (remove_buf (ref_registered P) i))"
    using assms by (metis mset.simps(2) mset_eq_imp_distinct_iff ref_table_ok_def, metis set_mset_add_mset_insert set_mset_mset)
  then show ?thesis
    using assms Some by (auto simp: ref_buf_deregister_def ref_table_ok_def ref_bases_def opends_ok_def opends_err_def)
qed

interpretation rbuf: buffer_table ref_buf_register ref_buf_deregister ref_bases "\<lambda>_. {}" REF_MAX_BUFS "\<lambda>_. False" ref_table_ok
  by unfold_locales (use ref_register_ok ref_deregister_ok in blast)+

section \<open>The handles keep the contract\<close>

abbreviation ref_call :: "reg_call \<Rightarrow> ref_proc \<Rightarrow> (reg_result \<times> ref_proc) option" where
  "ref_call \<equiv> reg_op ref_buf_register ref_buf_deregister ref_handle_register ref_handle_deregister"

lemma ref_open_file:
  assumes "ref_table_ok P" "fcntl_ok (Open_File fhp d flags p)" "ref_handle_register fhp d flags p P = (e, h, P')"
  shows "ref_table_ok P' \<and>
    registry_spec cap fails (Open_File fhp d flags p)
      \<lparr>r_bases = ref_bases P, r_owned = {}, r_files = file_count (ref_heap P), r_uses = ref_use_count P\<rparr> =
    Some ((err e, h), \<lparr>r_bases = ref_bases P', r_owned = {}, r_files = file_count (ref_heap P'), r_uses = ref_use_count P'\<rparr>)"
  using assms
  by (auto simp: ref_handle_register_def ref_table_ok_def ref_bases_def opends_ok_def opends_err_def split: if_splits)

lemma ref_close_file:
  assumes "ref_table_ok P"
  shows "(\<forall>P'. ref_handle_deregister p P = Some P' \<longrightarrow> ref_table_ok P') \<and>
    registry_spec cap fails (Close_File p)
      \<lparr>r_bases = ref_bases P, r_owned = {}, r_files = file_count (ref_heap P), r_uses = ref_use_count P\<rparr> =
    map_option (\<lambda>P'. ((OPENDS_SUCCESS, None),
      \<lparr>r_bases = ref_bases P', r_owned = {}, r_files = file_count (ref_heap P'), r_uses = ref_use_count P'\<rparr>))
      (ref_handle_deregister p P)"
  using assms by (auto simp: ref_handle_deregister_def release_handle ref_table_ok_def ref_bases_def)

lemma ref_buf_files:
  assumes "buf_op ref_buf_register ref_buf_deregister c P = Some (e, P')"
  shows "file_count (ref_heap P') = file_count (ref_heap P) \<and> ref_use_count P' = ref_use_count P"
  using assms
  by (cases c) (auto simp: ref_buf_register_def ref_buf_deregister_def split: option.splits if_splits)

interpretation ref_registry: file_registry ref_buf_register ref_buf_deregister ref_bases "\<lambda>_. {}" REF_MAX_BUFS "\<lambda>_. False"
  ref_table_ok ref_handle_register ref_handle_deregister "\<lambda>P. file_count (ref_heap P)" ref_use_count
  by unfold_locales (use ref_open_file ref_close_file ref_buf_files in blast)+

section \<open>Rounding up\<close>

lemma align_up_4096:
  "unat (ALIGN_UP n 4096) = (if unat n \<le> 2 ^ 64 - 4096 then (unat n + 4095) div 4096 * 4096 else 0)"
proof -
  define y where "y = n + 4095"
  have "ALIGN_UP n 4096 = y AND NOT (mask 12)"
    by (simp add: ALIGN_UP_def y_def mask_eq_exp_minus_1 add.commute)
  also have "\<dots> = y - take_bit 12 y"
    by (rule and_not_mask)
  finally have a: "ALIGN_UP n 4096 = y - take_bit 12 y" .
  have t: "unat (take_bit 12 y) = unat y mod 4096"
    using unsigned_take_bit_eq [of 12 y, where 'a = nat] by (simp only: take_bit_eq_mod [of 12 "unat y"]) simp
  have "unat (ALIGN_UP n 4096) = unat y - unat y mod 4096"
    unfolding a by (subst unat_sub) (simp_all add: t word_le_nat_alt)
  then have y: "unat (ALIGN_UP n 4096) = unat y div 4096 * 4096"
    by (simp add: minus_mod_eq_div_mult)
  have un: "unat y = (unat n + 4095) mod 2 ^ 64"
    by (simp add: y_def unat_word_ariths)
  show ?thesis
  proof (cases "unat n \<le> 2 ^ 64 - 4096")
    case True
    then show ?thesis
      using y un by simp
  next
    case False
    then have "unat y = unat n + 4095 - 2 ^ 64"
      using un unat_u64_bound [of n] by (simp add: mod_if)
    then have "unat y < 4096"
      using unat_u64_bound [of n] by simp
    then show ?thesis
      using y False by simp
  qed
qed

section \<open>Properties\<close>

text \<open>
  The size that the reference backend's \<open>opends_alloc\<close> asks for is the least multiple of 4096 that
  holds the request, exactly as long as the request is at most \<open>2 ^ 64 - 4096\<close>. Beyond it the rounding
  wraps around and a block of no bytes is asked for.
\<close>

theorem ref_alloc_rounds:
  "if unat n \<le> 2 ^ 64 - 4096
   then unat n \<le> unat (ALIGN_UP n 4096) \<and> unat (ALIGN_UP n 4096) < unat n + 4096 \<and> 4096 dvd unat (ALIGN_UP n 4096)
   else ALIGN_UP n 4096 = 0"
proof (cases "unat n \<le> 2 ^ 64 - 4096")
  case True
  have "(unat n + 4095) div 4096 * 4096 + (unat n + 4095) mod 4096 = unat n + 4095" "(unat n + 4095) mod 4096 < 4096"
    by simp_all
  then have "unat n \<le> (unat n + 4095) div 4096 * 4096" "(unat n + 4095) div 4096 * 4096 < unat n + 4096"
    by linarith+
  then show ?thesis
    using True unfolding align_up_4096 by (simp only: if_True dvd_triv_right simp_thms)
next
  case False
  then have "unat (ALIGN_UP n 4096) = 0"
    by (simp add: align_up_4096)
  then show ?thesis
    using False by (simp only: if_False unat_eq_0)
qed

end
