(* ===== verification/Backend_Props.thy ===== *)
theory Backend_Props
  imports Driver_Props Ref_Driver
begin

text \<open>
  What a program can rely on whichever backend it runs with: theory Registry's abstract registry is
  simulated by both, and a program that stays below the smaller limit cannot tell them apart.
\<close>


section \<open>Example\<close>

definition demo_ref_proc :: ref_proc where
  "demo_ref_proc = \<lparr>ref_sys = demo_ref, ref_use_count = 0, ref_registered = [], ref_heap = {#}\<rparr>"

definition demo_calls_list :: "reg_call list" where
  "demo_calls_list = [Open_File True 3 16384 16, Buffer (Register 0 4096 512), Buffer (Register 0 4096 512),
     Open_File True 3 0 32, Close_File 16, Buffer (Deregister 8192), Buffer (Deregister 4096)]"

definition demo_results :: "reg_result list" where
  "demo_results = [(OPENDS_SUCCESS, Some (16, \<lparr>fd = 3, oflags = 16384\<rparr>)), (OPENDS_SUCCESS, None),
     (OPENDS_MEMORY_ALREADY_REGISTERED, None), (OPENDS_DIO_NOT_SET, None), (OPENDS_SUCCESS, None),
     (OPENDS_MEMORY_NOT_REGISTERED, None), (OPENDS_SUCCESS, None)]"

lemma demo_ref_calls: "\<exists>Q. run_calls ref_call demo_calls_list demo_ref_proc = Some (demo_results, Q)"
  by (simp add: demo_calls_list_def demo_results_def demo_ref_proc_def demo_ref_def reg_op_def ref_buf_register_def
      ref_buf_deregister_def ref_handle_register_def ref_handle_deregister_def release_handle file_count_def
      find_base_def remove_buf_def REF_MAX_BUFS_def O_DIRECT_def opends_ok_def opends_err_def)


end
