(* ===== verification/Gds_Backend.thy ===== *)
theory Gds_Backend
  imports Batch Lifecycle
begin

unbundle bit_operations_syntax

text \<open>
  src/opends_gds.c: the backend that hands every operation to NVIDIA's cuFile. cuFile and the CUDA
  runtime are a record of functions over a state of their own, about which nothing is assumed. A
  result is the pair of codes of the C structure, since the error of cuFile is cast to an
  \<open>opends_op_error_t\<close> whatever its value; \<open>raw\<close> gives the pair of a result of theory Status. What stands
  behind a handle is \<open>gds_files\<close>, from the address of a \<open>struct gds_handle\<close> to its cuFile handle, and a
  call that follows a handle which is not there is \<open>None\<close>.
\<close>

section \<open>Data\<close>

type_synonym raw_error = "int \<times> int"

definition raw :: "opends_error \<Rightarrow> raw_error" where
  "raw e = (op_code (err e), dev_err e)"

definition CU_FILE_SUCCESS :: int where "CU_FILE_SUCCESS = 0"

record cu_drv_props =
  nvfs_major_version :: u32
  nvfs_minor_version :: u32
  nvfs_max_direct_io_size :: u64
  cu_max_batch_io_size :: u32
  cu_max_batch_io_timeout_msecs :: u32

text \<open>A parameter block of either side; \<open>g_fh\<close> is a \<open>struct gds_handle\<close> in ours, a cuFile handle in theirs.\<close>

record gds_io_params =
  g_mode :: int
  g_dev_ptr_base :: ptr
  g_file_offset :: u64
  g_dev_ptr_offset :: u64
  g_size :: u64
  g_fh :: ptr
  g_opcode :: int
  g_cookie :: ptr

record gds_io_events =
  ge_cookie :: ptr
  ge_status :: int
  ge_ret :: u64

record stream_args =
  sa_buf :: ptr
  sa_size_p :: ptr
  sa_file_offset_p :: ptr
  sa_buf_offset_p :: ptr
  sa_bytes_p :: ptr
  sa_stream :: ptr

text \<open>cuFile and the CUDA runtime, on a state \<open>'s\<close> of theirs.\<close>

record 's cufile =
  cuFileDriverOpen :: "'s \<Rightarrow> raw_error \<times> 's"
  cuFileDriverClose :: "'s \<Rightarrow> raw_error \<times> 's"
  cuFileDriverGetProperties :: "'s \<Rightarrow> (raw_error \<times> cu_drv_props) \<times> 's"
  cuFileDriverSetMaxDirectIOSize :: "u64 \<Rightarrow> 's \<Rightarrow> raw_error \<times> 's"
  cuFileHandleRegister :: "int \<Rightarrow> 's \<Rightarrow> (raw_error \<times> ptr) \<times> 's"
  cuFileHandleDeregister :: "ptr \<Rightarrow> 's \<Rightarrow> 's"
  cudaMalloc :: "u64 \<Rightarrow> 's \<Rightarrow> (int \<times> ptr) \<times> 's"
  cudaFree :: "ptr \<Rightarrow> 's \<Rightarrow> 's"
  cuFileBufRegister :: "ptr \<Rightarrow> u64 \<Rightarrow> int \<Rightarrow> 's \<Rightarrow> raw_error \<times> 's"
  cuFileBufDeregister :: "ptr \<Rightarrow> 's \<Rightarrow> raw_error \<times> 's"
  cuFileRead :: "ptr \<Rightarrow> ptr \<Rightarrow> u64 \<Rightarrow> u64 \<Rightarrow> u64 \<Rightarrow> 's \<Rightarrow> int \<times> 's"
  cuFileWrite :: "ptr \<Rightarrow> ptr \<Rightarrow> u64 \<Rightarrow> u64 \<Rightarrow> u64 \<Rightarrow> 's \<Rightarrow> int \<times> 's"
  cuFileReadAsync :: "ptr \<Rightarrow> stream_args \<Rightarrow> 's \<Rightarrow> raw_error \<times> 's"
  cuFileWriteAsync :: "ptr \<Rightarrow> stream_args \<Rightarrow> 's \<Rightarrow> raw_error \<times> 's"
  cuFileStreamRegister :: "ptr \<Rightarrow> u32 \<Rightarrow> 's \<Rightarrow> raw_error \<times> 's"
  cuFileStreamDeregister :: "ptr \<Rightarrow> 's \<Rightarrow> raw_error \<times> 's"
  cuFileBatchIOSetUp :: "u32 \<Rightarrow> 's \<Rightarrow> (raw_error \<times> ptr) \<times> 's"
  cuFileBatchIOSubmit :: "ptr \<Rightarrow> u32 \<Rightarrow> gds_io_params list \<Rightarrow> u32 \<Rightarrow> 's \<Rightarrow> raw_error \<times> 's"
  cuFileBatchIOGetStatus :: "ptr \<Rightarrow> u32 \<Rightarrow> u32 \<Rightarrow> gds_io_events list \<Rightarrow> timespec option \<Rightarrow> 's \<Rightarrow>
    (raw_error \<times> u32 \<times> gds_io_events list) \<times> 's"
  cuFileBatchIOCancel :: "ptr \<Rightarrow> 's \<Rightarrow> raw_error \<times> 's"
  cuFileBatchIODestroy :: "ptr \<Rightarrow> 's \<Rightarrow> 's"

record 's gds_proc =
  gds_driver_open :: bool
  gds_use_count :: int
  gds_files :: "ptr \<rightharpoonup> ptr"
  gds_lib :: 's

text \<open>The cast of an error of cuFile keeps both numbers.\<close>

definition from_cufile_error :: "raw_error \<Rightarrow> raw_error" where
  "from_cufile_error e = (fst e, snd e)"

text \<open>The two ends of most functions: the error of cuFile, or success with the state it leaves.\<close>

definition answer_of :: "raw_error \<Rightarrow> 's \<Rightarrow> 's \<Rightarrow> raw_error \<times> 's" where
  "answer_of e bad good =
     (if fst e \<noteq> CU_FILE_SUCCESS then (from_cufile_error e, bad) else (raw opends_ok, good))"

section \<open>Driver\<close>

definition gds_open :: "'s cufile \<Rightarrow> 's gds_proc \<Rightarrow> raw_error \<times> 's gds_proc" where
  "gds_open L P =
     (if gds_driver_open P then (raw (opends_err OPENDS_DRIVER_ALREADY_OPEN), P)
      else case cuFileDriverOpen L (gds_lib P) of (e, s) \<Rightarrow>
        answer_of e (P\<lparr>gds_lib := s\<rparr>) (P\<lparr>gds_lib := s, gds_driver_open := True\<rparr>))"

definition gds_close :: "'s cufile \<Rightarrow> 's gds_proc \<Rightarrow> raw_error \<times> 's gds_proc" where
  "gds_close L P =
     (if \<not> gds_driver_open P then (raw (opends_err OPENDS_DRIVER_NOT_INITIALIZED), P)
      else case cuFileDriverClose L (gds_lib P) of (e, s) \<Rightarrow>
        answer_of e (P\<lparr>gds_lib := s\<rparr>) (P\<lparr>gds_lib := s, gds_driver_open := False\<rparr>))"

definition gds_get_use_count :: "'s gds_proc \<Rightarrow> int" where
  "gds_get_use_count P = gds_use_count P"

definition gds_get_properties :: "'s cufile \<Rightarrow> bool \<Rightarrow> 's gds_proc \<Rightarrow> (raw_error \<times> drv_props option) \<times> 's gds_proc" where
  "gds_get_properties L propsp P =
     (if \<not> propsp then ((raw (opends_err OPENDS_INVALID_VALUE), None), P)
      else case cuFileDriverGetProperties L (gds_lib P) of ((e, c), s) \<Rightarrow>
        if fst e \<noteq> CU_FILE_SUCCESS then ((from_cufile_error e, None), P\<lparr>gds_lib := s\<rparr>)
        else ((raw opends_ok, Some \<lparr>major_version = nvfs_major_version c, minor_version = nvfs_minor_version c,
                max_direct_io_size = nvfs_max_direct_io_size c, max_batch_io_size = cu_max_batch_io_size c,
                max_batch_io_timeout_msecs = cu_max_batch_io_timeout_msecs c\<rparr>), P\<lparr>gds_lib := s\<rparr>))"

definition gds_set_max_direct_io_size :: "'s cufile \<Rightarrow> u64 \<Rightarrow> 's gds_proc \<Rightarrow> raw_error \<times> 's gds_proc" where
  "gds_set_max_direct_io_size L n P =
     (case cuFileDriverSetMaxDirectIOSize L n (gds_lib P) of (e, s) \<Rightarrow>
        answer_of e (P\<lparr>gds_lib := s\<rparr>) (P\<lparr>gds_lib := s\<rparr>))"

definition gds_get_version ::
  "'s cufile \<Rightarrow> bool \<Rightarrow> bool \<Rightarrow> bool \<Rightarrow> 's gds_proc \<Rightarrow> (raw_error \<times> u32 option \<times> u32 option \<times> u32 option) \<times> 's gds_proc" where
  "gds_get_version L major minor patch P =
     (case cuFileDriverGetProperties L (gds_lib P) of ((e, c), s) \<Rightarrow>
        if fst e \<noteq> CU_FILE_SUCCESS then ((from_cufile_error e, None, None, None), P\<lparr>gds_lib := s\<rparr>)
        else ((raw opends_ok, if major then Some (nvfs_major_version c) else None,
                if minor then Some (nvfs_minor_version c) else None, if patch then Some 0 else None), P\<lparr>gds_lib := s\<rparr>))"

section \<open>Handles\<close>

text \<open>\<open>flags\<close> is what \<open>fcntl\<close> returns and \<open>p\<close> what \<open>malloc\<close> returns.\<close>

definition gds_handle_register ::
  "'s cufile \<Rightarrow> bool \<Rightarrow> int \<Rightarrow> int \<Rightarrow> ptr \<Rightarrow> 's gds_proc \<Rightarrow> (raw_error \<times> ptr option) \<times> 's gds_proc" where
  "gds_handle_register L fhp d flags p P =
     (if \<not> fhp \<or> d < 0 then ((raw (opends_err OPENDS_INVALID_VALUE), None), P)
      else if flags < 0 then ((raw (opends_err OPENDS_INVALID_VALUE), None), P)
      else if of_int flags AND O_DIRECT = 0 then ((raw (opends_err OPENDS_DIO_NOT_SET), None), P)
      else if p = 0 then ((raw (opends_err OPENDS_INTERNAL_ERROR), None), P)
      else case cuFileHandleRegister L d (gds_lib P) of ((e, cufh), s) \<Rightarrow>
        if fst e \<noteq> CU_FILE_SUCCESS then ((from_cufile_error e, None), P\<lparr>gds_lib := s\<rparr>)
        else ((raw opends_ok, Some p),
              P\<lparr>gds_lib := s, gds_files := (gds_files P)(p \<mapsto> cufh), gds_use_count := gds_use_count P + 1\<rparr>))"

definition gds_handle_deregister :: "'s cufile \<Rightarrow> ptr \<Rightarrow> 's gds_proc \<Rightarrow> 's gds_proc option" where
  "gds_handle_deregister L fh P =
     (if fh = 0 then Some P
      else map_option (\<lambda>h. P\<lparr>gds_lib := cuFileHandleDeregister L h (gds_lib P), gds_files := (gds_files P)(fh := None),
             gds_use_count := gds_use_count P - 1\<rparr>) (gds_files P fh))"

section \<open>Buffers\<close>

definition gds_alloc :: "'s cufile \<Rightarrow> u64 \<Rightarrow> 's gds_proc \<Rightarrow> ptr \<times> 's gds_proc" where
  "gds_alloc L n P =
     (case cudaMalloc L n (gds_lib P) of ((rc, p), s) \<Rightarrow>
        if rc \<noteq> 0 then (0, P\<lparr>gds_lib := s\<rparr>)
        else case cuFileBufRegister L p n 0 s of (e, s') \<Rightarrow>
          if fst e \<noteq> CU_FILE_SUCCESS then (0, P\<lparr>gds_lib := cudaFree L p s'\<rparr>)
          else (p, P\<lparr>gds_lib := s'\<rparr>))"

definition gds_free :: "'s cufile \<Rightarrow> ptr \<Rightarrow> 's gds_proc \<Rightarrow> 's gds_proc" where
  "gds_free L buf P =
     (if buf = 0 then P else P\<lparr>gds_lib := cudaFree L buf (snd (cuFileBufDeregister L buf (gds_lib P)))\<rparr>)"

definition gds_buf_register :: "'s cufile \<Rightarrow> ptr \<Rightarrow> u64 \<Rightarrow> int \<Rightarrow> 's gds_proc \<Rightarrow> raw_error \<times> 's gds_proc" where
  "gds_buf_register L base n flags P =
     (if \<not> gds_driver_open P then (raw (opends_err OPENDS_DRIVER_NOT_INITIALIZED), P)
      else if base = 0 \<or> n = 0 then (raw (opends_err OPENDS_INVALID_VALUE), P)
      else case cuFileBufRegister L base n flags (gds_lib P) of (e, s) \<Rightarrow>
        answer_of e (P\<lparr>gds_lib := s\<rparr>) (P\<lparr>gds_lib := s\<rparr>))"

definition gds_buf_deregister :: "'s cufile \<Rightarrow> ptr \<Rightarrow> 's gds_proc \<Rightarrow> raw_error \<times> 's gds_proc" where
  "gds_buf_deregister L base P =
     (if \<not> gds_driver_open P then (raw (opends_err OPENDS_DRIVER_NOT_INITIALIZED), P)
      else if base = 0 then (raw (opends_err OPENDS_INVALID_VALUE), P)
      else case cuFileBufDeregister L base (gds_lib P) of (e, s) \<Rightarrow>
        answer_of e (P\<lparr>gds_lib := s\<rparr>) (P\<lparr>gds_lib := s\<rparr>))"

section \<open>Reads and writes\<close>

definition gds_async_read :: "ptr \<Rightarrow> ptr \<Rightarrow> u64 \<Rightarrow> u64 \<Rightarrow> u64 \<Rightarrow> ptr \<Rightarrow> raw_error" where
  "gds_async_read fh buf n file_off buf_off fut = raw (opends_err OPENDS_ASYNC_NOT_SUPPORTED)"

definition gds_async_write :: "ptr \<Rightarrow> ptr \<Rightarrow> u64 \<Rightarrow> u64 \<Rightarrow> u64 \<Rightarrow> ptr \<Rightarrow> raw_error" where
  "gds_async_write fh buf n file_off buf_off fut = raw (opends_err OPENDS_ASYNC_NOT_SUPPORTED)"

definition gds_async_await :: "ptr \<Rightarrow> int" where
  "gds_async_await fut = - op_code OPENDS_ASYNC_NOT_SUPPORTED"

definition gds_sync_read ::
  "'s cufile \<Rightarrow> ptr \<Rightarrow> ptr \<Rightarrow> u64 \<Rightarrow> u64 \<Rightarrow> u64 \<Rightarrow> 's gds_proc \<Rightarrow> (int \<times> 's gds_proc) option" where
  "gds_sync_read L fh buf n file_off buf_off P =
     map_option (\<lambda>h. map_prod id (\<lambda>s. P\<lparr>gds_lib := s\<rparr>) (cuFileRead L h buf n file_off buf_off (gds_lib P))) (gds_files P fh)"

definition gds_sync_write ::
  "'s cufile \<Rightarrow> ptr \<Rightarrow> ptr \<Rightarrow> u64 \<Rightarrow> u64 \<Rightarrow> u64 \<Rightarrow> 's gds_proc \<Rightarrow> (int \<times> 's gds_proc) option" where
  "gds_sync_write L fh buf n file_off buf_off P =
     map_option (\<lambda>h. map_prod id (\<lambda>s. P\<lparr>gds_lib := s\<rparr>) (cuFileWrite L h buf n file_off buf_off (gds_lib P))) (gds_files P fh)"

definition gds_stream_read :: "'s cufile \<Rightarrow> ptr \<Rightarrow> stream_args \<Rightarrow> 's gds_proc \<Rightarrow> (raw_error \<times> 's gds_proc) option" where
  "gds_stream_read L fh a P =
     map_option (\<lambda>h. case cuFileReadAsync L h a (gds_lib P) of (e, s) \<Rightarrow>
       answer_of e (P\<lparr>gds_lib := s\<rparr>) (P\<lparr>gds_lib := s\<rparr>)) (gds_files P fh)"

definition gds_stream_write :: "'s cufile \<Rightarrow> ptr \<Rightarrow> stream_args \<Rightarrow> 's gds_proc \<Rightarrow> (raw_error \<times> 's gds_proc) option" where
  "gds_stream_write L fh a P =
     map_option (\<lambda>h. case cuFileWriteAsync L h a (gds_lib P) of (e, s) \<Rightarrow>
       answer_of e (P\<lparr>gds_lib := s\<rparr>) (P\<lparr>gds_lib := s\<rparr>)) (gds_files P fh)"

definition gds_stream_register :: "'s cufile \<Rightarrow> ptr \<Rightarrow> u32 \<Rightarrow> 's gds_proc \<Rightarrow> raw_error \<times> 's gds_proc" where
  "gds_stream_register L stream flags P =
     (case cuFileStreamRegister L stream flags (gds_lib P) of (e, s) \<Rightarrow>
        answer_of e (P\<lparr>gds_lib := s\<rparr>) (P\<lparr>gds_lib := s\<rparr>))"

definition gds_stream_deregister :: "'s cufile \<Rightarrow> ptr \<Rightarrow> 's gds_proc \<Rightarrow> raw_error \<times> 's gds_proc" where
  "gds_stream_deregister L stream P =
     (case cuFileStreamDeregister L stream (gds_lib P) of (e, s) \<Rightarrow>
        answer_of e (P\<lparr>gds_lib := s\<rparr>) (P\<lparr>gds_lib := s\<rparr>))"

section \<open>Batches\<close>

definition gds_batch_setup :: "'s cufile \<Rightarrow> bool \<Rightarrow> u32 \<Rightarrow> 's gds_proc \<Rightarrow> (raw_error \<times> ptr option) \<times> 's gds_proc" where
  "gds_batch_setup L idp nr P =
     (if \<not> idp \<or> nr = 0 then ((raw (opends_err OPENDS_INVALID_VALUE), None), P)
      else case cuFileBatchIOSetUp L nr (gds_lib P) of ((e, b), s) \<Rightarrow>
        if fst e \<noteq> CU_FILE_SUCCESS then ((from_cufile_error e, None), P\<lparr>gds_lib := s\<rparr>)
        else ((raw opends_ok, Some b), P\<lparr>gds_lib := s\<rparr>))"

text \<open>The array for cuFile, whose entries carry cuFile's handle instead of ours.\<close>

definition to_cu_params :: "(ptr \<rightharpoonup> ptr) \<Rightarrow> u32 \<Rightarrow> gds_io_params list \<Rightarrow> gds_io_params list option" where
  "to_cu_params files nr xs =
     (if length xs < unat nr then None
      else those (map (\<lambda>x. map_option (\<lambda>h. x\<lparr>g_fh := h\<rparr>) (files (g_fh x))) (take (unat nr) xs)))"

text \<open>\<open>ca\<close> says whether \<open>calloc\<close> succeeds, and \<open>None\<close> as the array is the null pointer.\<close>

definition gds_batch_submit ::
  "'s cufile \<Rightarrow> bool \<Rightarrow> ptr \<Rightarrow> u32 \<Rightarrow> gds_io_params list option \<Rightarrow> u32 \<Rightarrow> 's gds_proc \<Rightarrow> (raw_error \<times> 's gds_proc) option" where
  "gds_batch_submit L ca b nr iocbp flags P =
     (case iocbp of
        None \<Rightarrow> Some (raw (opends_err OPENDS_INVALID_VALUE), P)
      | Some xs \<Rightarrow>
          if b = 0 then Some (raw (opends_err OPENDS_INVALID_VALUE), P)
          else if \<not> ca then Some (raw (opends_err OPENDS_INTERNAL_ERROR), P)
          else map_option (\<lambda>cu. case cuFileBatchIOSubmit L b nr cu flags (gds_lib P) of (e, s) \<Rightarrow>
                 answer_of e (P\<lparr>gds_lib := s\<rparr>) (P\<lparr>gds_lib := s\<rparr>)) (to_cu_params (gds_files P) nr xs))"

definition zero_event :: gds_io_events where
  "zero_event = \<lparr>ge_cookie = 0, ge_status = 0, ge_ret = 0\<rparr>"

text \<open>
  \<open>nrp\<close> is what \<open>nr\<close> points to and \<open>room\<close> the length of the caller's array. The result has the new \<open>*nr\<close>,
  which cuFile writes itself, and the events that were copied; a count of cuFile's beyond either array
  is an access out of bounds.
\<close>

definition gds_batch_get_status ::
  "'s cufile \<Rightarrow> bool \<Rightarrow> ptr \<Rightarrow> u32 \<Rightarrow> u32 option \<Rightarrow> nat option \<Rightarrow> timespec option \<Rightarrow> 's gds_proc \<Rightarrow>
     ((raw_error \<times> u32 option \<times> gds_io_events list) \<times> 's gds_proc) option" where
  "gds_batch_get_status L ca b min_nr nrp iocbp timeout P =
     (case (nrp, iocbp) of
        (Some max_nr, Some room) \<Rightarrow>
          if b = 0 then Some ((raw (opends_err OPENDS_INVALID_VALUE), nrp, []), P)
          else if \<not> ca then Some ((raw (opends_err OPENDS_INTERNAL_ERROR), nrp, []), P)
          else (case cuFileBatchIOGetStatus L b min_nr max_nr (replicate (unat max_nr) zero_event) timeout (gds_lib P) of
                  ((e, nr, evs), s) \<Rightarrow>
                    if fst e \<noteq> CU_FILE_SUCCESS then Some ((from_cufile_error e, Some nr, []), P\<lparr>gds_lib := s\<rparr>)
                    else if length evs < unat nr \<or> room < unat nr then None
                    else Some ((raw opends_ok, Some nr, take (unat nr) evs), P\<lparr>gds_lib := s\<rparr>))
      | _ \<Rightarrow> Some ((raw (opends_err OPENDS_INVALID_VALUE), nrp, []), P))"

definition gds_batch_cancel :: "'s cufile \<Rightarrow> ptr \<Rightarrow> 's gds_proc \<Rightarrow> raw_error \<times> 's gds_proc" where
  "gds_batch_cancel L b P =
     (if b = 0 then (raw (opends_err OPENDS_INVALID_VALUE), P)
      else case cuFileBatchIOCancel L b (gds_lib P) of (e, s) \<Rightarrow>
        answer_of e (P\<lparr>gds_lib := s\<rparr>) (P\<lparr>gds_lib := s\<rparr>))"

definition gds_batch_destroy :: "'s cufile \<Rightarrow> ptr \<Rightarrow> 's gds_proc \<Rightarrow> 's gds_proc" where
  "gds_batch_destroy L b P = (if b = 0 then P else P\<lparr>gds_lib := cuFileBatchIODestroy L b (gds_lib P)\<rparr>)"

section \<open>What the backend promises\<close>

text \<open>The operations that report a status, and the deregistration of a handle.\<close>

datatype gds_call =
    G_Open | G_Close | G_Set_Max u64 | G_Handle_Register bool int int ptr | G_Handle_Deregister ptr
  | G_Buf_Register ptr u64 int | G_Buf_Deregister ptr
  | G_Stream_Read ptr stream_args | G_Stream_Write ptr stream_args | G_Stream_Register ptr u32 | G_Stream_Deregister ptr
  | G_Batch_Setup bool u32 | G_Batch_Submit bool ptr u32 "gds_io_params list option" u32
  | G_Batch_Get_Status bool ptr u32 "u32 option" "nat option" "timespec option" | G_Batch_Cancel ptr

fun gds_run :: "'s cufile \<Rightarrow> gds_call \<Rightarrow> 's gds_proc \<Rightarrow> (raw_error \<times> 's gds_proc) option" where
  "gds_run L G_Open P = Some (gds_open L P)"
| "gds_run L G_Close P = Some (gds_close L P)"
| "gds_run L (G_Set_Max n) P = Some (gds_set_max_direct_io_size L n P)"
| "gds_run L (G_Handle_Register fhp d flags p) P = Some (map_prod fst id (gds_handle_register L fhp d flags p P))"
| "gds_run L (G_Handle_Deregister fh) P = map_option (Pair (raw opends_ok)) (gds_handle_deregister L fh P)"
| "gds_run L (G_Buf_Register base n flags) P = Some (gds_buf_register L base n flags P)"
| "gds_run L (G_Buf_Deregister base) P = Some (gds_buf_deregister L base P)"
| "gds_run L (G_Stream_Read fh a) P = gds_stream_read L fh a P"
| "gds_run L (G_Stream_Write fh a) P = gds_stream_write L fh a P"
| "gds_run L (G_Stream_Register s flags) P = Some (gds_stream_register L s flags P)"
| "gds_run L (G_Stream_Deregister s) P = Some (gds_stream_deregister L s P)"
| "gds_run L (G_Batch_Setup idp nr) P = Some (map_prod fst id (gds_batch_setup L idp nr P))"
| "gds_run L (G_Batch_Submit ca b nr iocbp flags) P = gds_batch_submit L ca b nr iocbp flags P"
| "gds_run L (G_Batch_Get_Status ca b min_nr nrp room timeout) P =
     map_option (map_prod fst id) (gds_batch_get_status L ca b min_nr nrp room timeout P)"
| "gds_run L (G_Batch_Cancel b) P = Some (gds_batch_cancel L b P)"

text \<open>The call of cuFile that an operation stands for, by the table at the head of opends.h.\<close>

fun cu_counterpart :: "'s cufile \<Rightarrow> (ptr \<rightharpoonup> ptr) \<Rightarrow> gds_call \<Rightarrow> 's \<Rightarrow> raw_error \<times> 's" where
  "cu_counterpart L fs G_Open s = cuFileDriverOpen L s"
| "cu_counterpart L fs G_Close s = cuFileDriverClose L s"
| "cu_counterpart L fs (G_Set_Max n) s = cuFileDriverSetMaxDirectIOSize L n s"
| "cu_counterpart L fs (G_Handle_Register fhp d flags p) s = map_prod fst id (cuFileHandleRegister L d s)"
| "cu_counterpart L fs (G_Handle_Deregister fh) s = ((0, 0), if fh = 0 then s else cuFileHandleDeregister L (the (fs fh)) s)"
| "cu_counterpart L fs (G_Buf_Register base n flags) s = cuFileBufRegister L base n flags s"
| "cu_counterpart L fs (G_Buf_Deregister base) s = cuFileBufDeregister L base s"
| "cu_counterpart L fs (G_Stream_Read fh a) s = cuFileReadAsync L (the (fs fh)) a s"
| "cu_counterpart L fs (G_Stream_Write fh a) s = cuFileWriteAsync L (the (fs fh)) a s"
| "cu_counterpart L fs (G_Stream_Register st flags) s = cuFileStreamRegister L st flags s"
| "cu_counterpart L fs (G_Stream_Deregister st) s = cuFileStreamDeregister L st s"
| "cu_counterpart L fs (G_Batch_Setup idp nr) s = map_prod fst id (cuFileBatchIOSetUp L nr s)"
| "cu_counterpart L fs (G_Batch_Submit ca b nr iocbp flags) s =
     cuFileBatchIOSubmit L b nr (map (\<lambda>x. x\<lparr>g_fh := the (fs (g_fh x))\<rparr>) (take (unat nr) (the iocbp))) flags s"
| "cu_counterpart L fs (G_Batch_Get_Status ca b min_nr nrp room timeout) s =
     map_prod fst id (cuFileBatchIOGetStatus L b min_nr (the nrp) (replicate (unat (the nrp)) zero_event) timeout s)"
| "cu_counterpart L fs (G_Batch_Cancel b) s = cuFileBatchIOCancel L b s"

text \<open>What the backend keeps itself.\<close>

definition gds_own :: "'s gds_proc \<Rightarrow> bool \<times> int \<times> (ptr \<rightharpoonup> ptr)" where
  "gds_own P = (gds_driver_open P, gds_use_count P, gds_files P)"

text \<open>The effect of a successful operation on it.\<close>

fun own_effect :: "gds_call \<Rightarrow> bool \<times> int \<times> (ptr \<rightharpoonup> ptr) \<Rightarrow> bool \<times> int \<times> (ptr \<rightharpoonup> ptr) \<Rightarrow> bool" where
  "own_effect G_Open (f, n, fs) q = (\<not> f \<and> q = (True, n, fs))"
| "own_effect G_Close (f, n, fs) q = (f \<and> q = (False, n, fs))"
| "own_effect (G_Handle_Register fhp d flags p) (f, n, fs) q = (p \<noteq> 0 \<and> (\<exists>h. q = (f, n + 1, fs(p \<mapsto> h))))"
| "own_effect (G_Handle_Deregister p) (f, n, fs) q =
     (if p = 0 then q = (f, n, fs) else fs p \<noteq> None \<and> q = (f, n - 1, fs(p := None)))"
| "own_effect c o' q = (q = o')"

text \<open>The abstract backend: an operation is either refused at once or is what cuFile does.\<close>

inductive gds_spec :: "'s cufile \<Rightarrow> gds_call \<Rightarrow> 's gds_proc \<Rightarrow> raw_error \<Rightarrow> 's gds_proc \<Rightarrow> bool" where
  gds_refused: "x \<noteq> OPENDS_SUCCESS \<Longrightarrow> gds_spec L c P (op_code x, 0) P"
| gds_failed: "cu_counterpart L (gds_files P) c (gds_lib P) = (e, s) \<Longrightarrow> fst e \<noteq> 0 \<Longrightarrow> gds_spec L c P e (P\<lparr>gds_lib := s\<rparr>)"
| gds_done: "cu_counterpart L (gds_files P) c (gds_lib P) = (e, gds_lib P') \<Longrightarrow> fst e = 0 \<Longrightarrow>
    own_effect c (gds_own P) (gds_own P') \<Longrightarrow> gds_spec L c P (0, 0) P'"

lemma those_map_Some: "those (map f xs) = Some ys \<Longrightarrow> ys = map (\<lambda>x. the (f x)) xs"
  by (induction xs arbitrary: ys) (auto split: option.splits)

lemma to_cu_params_Some:
  assumes "to_cu_params files nr xs = Some ys"
  shows "ys = map (\<lambda>x. x\<lparr>g_fh := the (files (g_fh x))\<rparr>) (take (unat nr) xs)"
proof -
  have "those (map (\<lambda>x. map_option (\<lambda>h. x\<lparr>g_fh := h\<rparr>) (files (g_fh x))) (take (unat nr) xs)) = Some ys"
    using assms by (simp add: to_cu_params_def split: if_splits)
  moreover have "files (g_fh x) \<noteq> None" if "x \<in> set (take (unat nr) xs)" for x
  proof -
    have "those zs = Some ys \<Longrightarrow> z \<in> set zs \<Longrightarrow> z \<noteq> None" for z :: "'z option" and zs ys
      by (induction zs arbitrary: ys) (auto split: option.splits)
    then show ?thesis
      using calculation that by fastforce
  qed
  ultimately show ?thesis
    by (auto dest!: those_map_Some simp: option.map_sel)
qed

lemmas gds_defs =
  gds_open_def gds_close_def gds_set_max_direct_io_size_def gds_handle_register_def gds_handle_deregister_def
  gds_buf_register_def gds_buf_deregister_def gds_stream_read_def gds_stream_write_def gds_stream_register_def
  gds_stream_deregister_def gds_batch_setup_def gds_batch_submit_def gds_batch_get_status_def gds_batch_cancel_def

lemma raw_simps [simp]:
  "raw opends_ok = (0, 0)" "raw (opends_err x) = (op_code x, 0)"
  by (simp_all add: raw_def opends_ok_def opends_err_def)

lemma from_cufile_error_id [simp]: "from_cufile_error e = e"
  by (simp add: from_cufile_error_def)

text \<open>An operation that keeps nothing itself ends in one of the last two ways.\<close>

lemma answer_spec:
  assumes cu: "cu_counterpart L (gds_files P) c (gds_lib P) = (e, s)"
    and a: "answer_of e (P\<lparr>gds_lib := s\<rparr>) Q = (r, P')" and Q: "gds_lib Q = s" "own_effect c (gds_own P) (gds_own Q)"
  shows "gds_spec L c P r P'"
proof (cases "fst e = 0")
  case True
  then have "r = (0, 0)" "P' = Q"
    using a by (simp_all add: answer_of_def CU_FILE_SUCCESS_def)
  then show ?thesis
    using gds_done [of L P c e Q] cu Q True by simp
next
  case False
  then have "r = e" "P' = P\<lparr>gds_lib := s\<rparr>"
    using a by (simp_all add: answer_of_def CU_FILE_SUCCESS_def)
  then show ?thesis
    using gds_failed [OF cu False] by simp
qed

lemma forward_spec:
  assumes "(case cu_counterpart L (gds_files P) c (gds_lib P) of (e, s) \<Rightarrow> answer_of e (P\<lparr>gds_lib := s\<rparr>) (P\<lparr>gds_lib := s\<rparr>)) = (r, P')"
    and "own_effect c (gds_own P) (gds_own P)"
  shows "gds_spec L c P r P'"
proof -
  obtain e s where "cu_counterpart L (gds_files P) c (gds_lib P) = (e, s)"
    by (metis prod.exhaust)
  then show ?thesis
    using assms by (intro answer_spec [of L P c e s "P\<lparr>gds_lib := s\<rparr>"]) (simp_all add: gds_own_def)
qed

lemma refused_spec:
  "(raw (opends_err x), P) = (e, P') \<Longrightarrow> x \<noteq> OPENDS_SUCCESS \<Longrightarrow> gds_spec L c P e P'"
  using gds_refused [of x L c P] by auto

lemma own_update [simp]: "gds_own (P\<lparr>gds_lib := s\<rparr>) = gds_own P"
  by (simp add: gds_own_def)

text \<open>The calls that have a result beside the status end like the others.\<close>

lemma answer_of_split:
  "(if fst e \<noteq> CU_FILE_SUCCESS then ((from_cufile_error e, a), bad) else ((raw opends_ok, b), good)) = ((r, x), P') \<Longrightarrow>
    answer_of e bad good = (r, P')"
  by (auto simp: answer_of_def split: if_splits)

lemma run_driver:
  "gds_open L P = (e, P') \<Longrightarrow> gds_spec L G_Open P e P'"
  "gds_close L P = (e, P') \<Longrightarrow> gds_spec L G_Close P e P'"
  "gds_set_max_direct_io_size L n P = (e, P') \<Longrightarrow> gds_spec L (G_Set_Max n) P e P'"
  unfolding gds_open_def gds_close_def gds_set_max_direct_io_size_def
  by (auto split: if_splits prod.splits simp del: raw_simps simp: gds_own_def intro: refused_spec answer_spec)

lemma run_handles:
  "gds_handle_register L fhp d flags p P = ((e, h), P') \<Longrightarrow> gds_spec L (G_Handle_Register fhp d flags p) P e P'"
  "gds_handle_deregister L fh P = Some P' \<Longrightarrow> gds_spec L (G_Handle_Deregister fh) P (0, 0) P'"
proof -
  assume a: "gds_handle_register L fhp d flags p P = ((e, h), P')"
  show "gds_spec L (G_Handle_Register fhp d flags p) P e P'"
  proof (cases "\<not> fhp \<or> d < 0 \<or> flags < 0 \<or> of_int flags AND O_DIRECT = 0 \<or> p = 0")
    case True
    then show ?thesis
      using a by (auto simp: gds_handle_register_def simp del: raw_simps split: if_splits intro: refused_spec)
  next
    case False
    obtain ce cufh s where c: "cuFileHandleRegister L d (gds_lib P) = ((ce, cufh), s)"
      by (metis prod.exhaust)
    then show ?thesis
      using a False by (intro answer_spec [of L P _ ce s
            "P\<lparr>gds_lib := s, gds_files := (gds_files P)(p \<mapsto> cufh), gds_use_count := gds_use_count P + 1\<rparr>"])
        (auto simp: gds_handle_register_def gds_own_def answer_of_def split: if_splits)
  qed
next
  assume "gds_handle_deregister L fh P = Some P'"
  then show "gds_spec L (G_Handle_Deregister fh) P (0, 0) P'"
    by (intro gds_done [of L P _ "(0, 0)"]) (auto simp: gds_handle_deregister_def gds_own_def split: if_splits)
qed

lemma run_buffers:
  "gds_buf_register L base n flags P = (e, P') \<Longrightarrow> gds_spec L (G_Buf_Register base n flags) P e P'"
  "gds_buf_deregister L base P = (e, P') \<Longrightarrow> gds_spec L (G_Buf_Deregister base) P e P'"
  unfolding gds_buf_register_def gds_buf_deregister_def
  by (auto split: if_splits prod.splits simp del: raw_simps simp: gds_own_def intro: refused_spec answer_spec)

lemma run_streams:
  "gds_stream_read L fh a P = Some (e, P') \<Longrightarrow> gds_spec L (G_Stream_Read fh a) P e P'"
  "gds_stream_write L fh a P = Some (e, P') \<Longrightarrow> gds_spec L (G_Stream_Write fh a) P e P'"
  "gds_stream_register L st fl P = (e, P') \<Longrightarrow> gds_spec L (G_Stream_Register st fl) P e P'"
  "gds_stream_deregister L st P = (e, P') \<Longrightarrow> gds_spec L (G_Stream_Deregister st) P e P'"
  by (auto simp: gds_stream_read_def gds_stream_write_def gds_stream_register_def gds_stream_deregister_def gds_own_def
      intro: forward_spec)

lemma run_batch_setup:
  assumes "gds_batch_setup L idp nr P = ((e, b), P')"
  shows "gds_spec L (G_Batch_Setup idp nr) P e P'"
proof (cases "idp \<and> nr \<noteq> 0")
  case True
  obtain ce cb s where "cuFileBatchIOSetUp L nr (gds_lib P) = ((ce, cb), s)"
    by (metis prod.exhaust)
  then show ?thesis
    using assms True by (intro answer_spec [of L P _ ce s "P\<lparr>gds_lib := s\<rparr>"])
      (auto simp: gds_batch_setup_def gds_own_def answer_of_def split: if_splits)
qed (use assms in \<open>auto simp: gds_batch_setup_def simp del: raw_simps intro: refused_spec\<close>)

lemma run_batch_submit:
  assumes "gds_batch_submit L ca b nr iocbp flags P = Some (e, P')"
  shows "gds_spec L (G_Batch_Submit ca b nr iocbp flags) P e P'"
proof (cases "iocbp \<noteq> None \<and> b \<noteq> 0 \<and> ca")
  case True
  then obtain xs cu where xs: "iocbp = Some xs" "to_cu_params (gds_files P) nr xs = Some cu"
    using assms by (auto simp: gds_batch_submit_def)
  obtain ce s where "cuFileBatchIOSubmit L b nr cu flags (gds_lib P) = (ce, s)"
    by (metis prod.exhaust)
  then show ?thesis
    using assms True xs to_cu_params_Some [OF xs(2)] by (intro answer_spec [of L P _ ce s "P\<lparr>gds_lib := s\<rparr>"])
      (auto simp: gds_batch_submit_def gds_own_def)
qed (use assms in \<open>auto simp: gds_batch_submit_def simp del: raw_simps split: option.splits if_splits intro: refused_spec\<close>)

lemma run_batch_poll:
  assumes "gds_batch_get_status L ca b min_nr nrp room timeout P = Some ((e, r), P')"
  shows "gds_spec L (G_Batch_Get_Status ca b min_nr nrp room timeout) P e P'"
proof (cases "nrp \<noteq> None \<and> room \<noteq> None \<and> b \<noteq> 0 \<and> ca")
  case True
  then obtain max_nr n where x: "nrp = Some max_nr" "room = Some n"
    by auto
  obtain ce nr evs s where
    "cuFileBatchIOGetStatus L b min_nr max_nr (replicate (unat max_nr) zero_event) timeout (gds_lib P) = ((ce, nr, evs), s)"
    by (metis prod.exhaust)
  then show ?thesis
    using assms True x by (intro answer_spec [of L P _ ce s "P\<lparr>gds_lib := s\<rparr>"])
      (auto simp: gds_batch_get_status_def gds_own_def answer_of_def split: if_splits)
qed (use assms in \<open>auto simp: gds_batch_get_status_def simp del: raw_simps split: option.splits if_splits intro: refused_spec\<close>)

lemma run_batch_cancel:
  "gds_batch_cancel L b P = (e, P') \<Longrightarrow> gds_spec L (G_Batch_Cancel b) P e P'"
  unfolding gds_batch_cancel_def
  by (auto split: if_splits prod.splits simp del: raw_simps simp: gds_own_def intro: refused_spec answer_spec)

lemmas gds_runs =
  run_driver run_handles run_buffers run_streams run_batch_setup run_batch_submit run_batch_poll run_batch_cancel

lemma gds_run_spec:
  assumes "gds_run L c P = Some (e, P')"
  shows "gds_spec L c P e P'"
proof (cases c)
  case (G_Handle_Deregister fh)
  then show ?thesis
    using assms gds_runs(5) [of L fh P P'] by (simp add: map_option_case split: option.splits)
qed (use assms in \<open>auto intro: gds_runs simp: map_prod_def split: prod.splits\<close>)

section \<open>Whole runs\<close>

text \<open>
  The states a program can bring the backend into, with the operations that reported a status in
  between and what they reported. The memory that \<open>malloc\<close> returns for a handle is not that of a
  handle that is registered.
\<close>

inductive gds_reach :: "'s cufile \<Rightarrow> 's \<Rightarrow> (gds_call \<times> raw_error) list \<Rightarrow> 's gds_proc \<Rightarrow> bool" where
  start: "gds_reach L s [] \<lparr>gds_driver_open = False, gds_use_count = 0, gds_files = Map.empty, gds_lib = s\<rparr>"
| call: "gds_reach L s log P \<Longrightarrow> gds_run L c P = Some (e, P') \<Longrightarrow>
    (\<forall>fhp d flags p. c = G_Handle_Register fhp d flags p \<longrightarrow> p \<notin> dom (gds_files P)) \<Longrightarrow> gds_reach L s (log @ [(c, e)]) P'"
| alloc: "gds_reach L s log P \<Longrightarrow> gds_alloc L n P = (p, P') \<Longrightarrow> gds_reach L s log P'"
| freeing: "gds_reach L s log P \<Longrightarrow> gds_reach L s log (gds_free L buf P)"
| reading: "gds_reach L s log P \<Longrightarrow> gds_sync_read L fh buf n fo bo P = Some (r, P') \<Longrightarrow> gds_reach L s log P'"
| writing: "gds_reach L s log P \<Longrightarrow> gds_sync_write L fh buf n fo bo P = Some (r, P') \<Longrightarrow> gds_reach L s log P'"
| props: "gds_reach L s log P \<Longrightarrow> gds_get_properties L pp P = (r1, P') \<Longrightarrow> gds_reach L s log P'"
| version: "gds_reach L s log P \<Longrightarrow> gds_get_version L ma mi pa P = (r2, P') \<Longrightarrow> gds_reach L s log P'"
| destroy: "gds_reach L s log P \<Longrightarrow> gds_reach L s log (gds_batch_destroy L b P)"

text \<open>How often operations of a kind have succeeded.\<close>

definition successes :: "(gds_call \<Rightarrow> bool) \<Rightarrow> (gds_call \<times> raw_error) list \<Rightarrow> nat" where
  "successes k log = length (filter (\<lambda>(c, e). k c \<and> fst e = 0) log)"

lemma successes_simps [simp]:
  "successes k [] = 0" "successes k (log @ [(c, e)]) = successes k log + (if k c \<and> fst e = 0 then 1 else 0)"
  by (simp_all add: successes_def)

definition gds_ok :: "(gds_call \<times> raw_error) list \<Rightarrow> bool \<times> int \<times> (ptr \<rightharpoonup> ptr) \<Rightarrow> bool" where
  "gds_ok log own = (case own of (open_now, n, fs) \<Rightarrow>
     finite (dom fs) \<and> 0 \<notin> dom fs \<and> n = int (card (dom fs)) \<and>
     successes ((=) G_Open) log = successes ((=) G_Close) log + of_bool open_now)"

lemma lib_update_own: "map_prod id (\<lambda>s. P\<lparr>gds_lib := s\<rparr>) x = (r, P') \<Longrightarrow> gds_own P' = gds_own P"
  by (cases x) auto

lemma other_ops_own:
  "gds_alloc L n P = (p, P') \<Longrightarrow> gds_own P' = gds_own P"
  "gds_own (gds_free L buf P) = gds_own P"
  "gds_sync_read L fh buf n fo bo P = Some (r, P') \<Longrightarrow> gds_own P' = gds_own P"
  "gds_sync_write L fh buf n fo bo P = Some (r, P') \<Longrightarrow> gds_own P' = gds_own P"
  "gds_get_properties L pp P = (r1, P') \<Longrightarrow> gds_own P' = gds_own P"
  "gds_get_version L ma mi pa P = (r2, P') \<Longrightarrow> gds_own P' = gds_own P"
  "gds_own (gds_batch_destroy L b P) = gds_own P"
  by (auto simp: gds_alloc_def gds_free_def gds_get_properties_def gds_get_version_def gds_batch_destroy_def
      split: prod.splits if_splits)
    (auto simp: gds_sync_read_def gds_sync_write_def dest: lib_update_own)

lemma own_effect_ok:
  assumes ok: "gds_ok log q" and eff: "own_effect c q q'"
    and fresh: "\<forall>fhp d flags p. c = G_Handle_Register fhp d flags p \<longrightarrow> p \<notin> dom (snd (snd q))"
  shows "gds_ok (log @ [(c, (0, 0))]) q'"
proof -
  obtain f n fs where q: "q = (f, n, fs)"
    by (cases q)
  show ?thesis
  proof (cases c)
    case (G_Handle_Deregister p)
    show ?thesis
    proof (cases "p = 0")
      case False
      then have p: "p \<in> dom fs" "q' = (f, n - 1, fs(p := None))"
        using eff q G_Handle_Deregister by (auto simp: dom_def)
      then have "Suc (card (dom fs - {p})) = card (dom fs)"
        using ok q by (intro card_Suc_Diff1) (auto simp: gds_ok_def)
      then have "int (card (dom fs - {p})) = int (card (dom fs)) - 1"
        by simp
      then show ?thesis
        using ok q p G_Handle_Deregister by (simp add: gds_ok_def)
    qed (use ok eff q G_Handle_Deregister in \<open>simp add: gds_ok_def\<close>)
  qed (use ok eff fresh q in \<open>auto simp: gds_ok_def domIff\<close>)
qed

lemma failed_ok: "gds_ok log q \<Longrightarrow> fst e \<noteq> 0 \<Longrightarrow> gds_ok (log @ [(c, e)]) q"
  by (simp add: gds_ok_def split: prod.splits)

lemma gds_reach_ok: "gds_reach L s log P \<Longrightarrow> gds_ok log (gds_own P)"
proof (induction rule: gds_reach.induct)
  case (start L s)
  show ?case
    by (simp add: gds_ok_def gds_own_def)
next
  case (call L s log P c e P')
  show ?case
    using gds_run_spec [OF call.hyps(2)]
  proof (cases rule: gds_spec.cases)
    case gds_done
    then show ?thesis
      using own_effect_ok [OF call.IH gds_done(4)] call.hyps(3) by (simp add: gds_own_def)
  qed (use call.IH failed_ok in \<open>auto simp: gds_own_def\<close>)
qed (simp_all add: other_ops_own)

section \<open>Properties\<close>


text \<open>
  C36: whatever cuFile answers, the use count that the GDS backend reports is the number of handles that
  are registered, and its flag says that the driver has been opened once more than it has been closed.
\<close>

theorem gds_counts:
  assumes "gds_reach L s log P"
  shows "gds_get_use_count P = int (card (dom (gds_files P))) \<and> 0 \<notin> dom (gds_files P) \<and>
    successes ((=) G_Open) log = successes ((=) G_Close) log + of_bool (gds_driver_open P)"
  using gds_reach_ok [OF assms] by (simp add: gds_ok_def gds_own_def gds_get_use_count_def)

section \<open>Instances\<close>

text \<open>A cuFile that counts its calls, closes only with the error 5006 and numbers its handles.\<close>

definition demo_cufile :: "nat cufile" where
  "demo_cufile = \<lparr>cuFileDriverOpen = \<lambda>s. ((0, 0), Suc s), cuFileDriverClose = \<lambda>s. ((5006, 4), Suc s),
     cuFileDriverGetProperties = \<lambda>s. (((0, 0), \<lparr>nvfs_major_version = 1, nvfs_minor_version = 7, nvfs_max_direct_io_size = 16384,
       cu_max_batch_io_size = 128, cu_max_batch_io_timeout_msecs = 5\<rparr>), Suc s),
     cuFileDriverSetMaxDirectIOSize = \<lambda>n s. ((0, 0), Suc s),
     cuFileHandleRegister = \<lambda>d s. (((0, 0), of_nat s), Suc s), cuFileHandleDeregister = \<lambda>h s. Suc s,
     cudaMalloc = \<lambda>n s. ((0, 4096), Suc s), cudaFree = \<lambda>p s. Suc s,
     cuFileBufRegister = \<lambda>p n f s. ((0, 0), Suc s), cuFileBufDeregister = \<lambda>p s. ((0, 0), Suc s),
     cuFileRead = \<lambda>h b n f o' s. (int (unat n), Suc s), cuFileWrite = \<lambda>h b n f o' s. (int (unat n), Suc s),
     cuFileReadAsync = \<lambda>h a s. ((0, 0), Suc s), cuFileWriteAsync = \<lambda>h a s. ((0, 0), Suc s),
     cuFileStreamRegister = \<lambda>st f s. ((0, 0), Suc s), cuFileStreamDeregister = \<lambda>st s. ((0, 0), Suc s),
     cuFileBatchIOSetUp = \<lambda>n s. (((0, 0), 64), Suc s), cuFileBatchIOSubmit = \<lambda>b n ps f s. ((0, 0), Suc s),
     cuFileBatchIOGetStatus = \<lambda>b m n evs t s. (((0, 0), 0, evs), Suc s),
     cuFileBatchIOCancel = \<lambda>b s. ((0, 0), Suc s), cuFileBatchIODestroy = \<lambda>b s. Suc s\<rparr>"

definition demo_gds :: "bool \<Rightarrow> (ptr \<rightharpoonup> ptr) \<Rightarrow> nat \<Rightarrow> nat gds_proc" where
  "demo_gds f fs s = \<lparr>gds_driver_open = f, gds_use_count = int (card (dom fs)), gds_files = fs, gds_lib = s\<rparr>"


theorem gds_counts_witness:
  "\<exists>P :: nat gds_proc. gds_reach demo_cufile 0 [(G_Open, (0, 0)), (G_Handle_Register True 3 16384 96, (0, 0)), (G_Close, (5006, 4))] P \<and>
     gds_get_use_count P = 1 \<and> gds_driver_open P"
proof -
  have 0: "gds_reach demo_cufile 0 [] (demo_gds False Map.empty 0)"
    using gds_reach.start [of demo_cufile 0] by (simp add: demo_gds_def)
  have 1: "gds_reach demo_cufile 0 ([] @ [(G_Open, (0, 0))]) (demo_gds True Map.empty 1)"
    by (rule gds_reach.call [OF 0])
      (simp_all add: gds_open_def demo_cufile_def demo_gds_def answer_of_def CU_FILE_SUCCESS_def)
  have 2: "gds_reach demo_cufile 0 (([] @ [(G_Open, (0, 0))]) @ [(G_Handle_Register True 3 16384 96, (0, 0))]) (demo_gds True [96 \<mapsto> 1] 2)"
    by (rule gds_reach.call [OF 1])
      (simp_all add: gds_handle_register_def demo_cufile_def demo_gds_def CU_FILE_SUCCESS_def O_DIRECT_def)
  have 3: "gds_reach demo_cufile 0 ((([] @ [(G_Open, (0, 0))]) @ [(G_Handle_Register True 3 16384 96, (0, 0))]) @ [(G_Close, (5006, 4))])
      (demo_gds True [96 \<mapsto> 1] 3)"
    by (rule gds_reach.call [OF 2])
      (simp_all add: gds_close_def demo_cufile_def demo_gds_def answer_of_def CU_FILE_SUCCESS_def)
  show ?thesis
    using gds_counts [OF 3] 3 by (auto simp: demo_gds_def)
qed

end
