(* ===== verification/Async_Results.thy ===== *)
theory Async_Results
  imports Aisio_Clients Read_Delivery Lifecycle
begin

text \<open>
  The result of an asynchronous operation of the aisio backend, from its submission to the value that
  the caller finds in its future, through the worker's ring and under all interleavings: theories
  Async_Api and Async_Props show that a future is completed once, this one shows with what.
\<close>

section \<open>What HOMI and the disk answer\<close>

type_synonym homi_extents = "registered_file \<Rightarrow> int + ds_extent list"

text \<open>
  The extents are those of \<open>H\<close> at every visit, and \<open>pwrite_op\<close> returns the whole size or an error.
\<close>

definition obeys :: "homi_extents \<Rightarrow> visit_env \<Rightarrow> bool" where
  "obeys H env \<longleftrightarrow> re_extents (v_read env) = H \<and> (\<forall>h p n x. v_write env h (p, n, x) = int (unat n) \<or> v_write env h (p, n, x) < 0)"

lemma obeysD: "obeys H env \<Longrightarrow> v_write env h (p, n, x) = int (unat n) \<or> v_write env h (p, n, x) < 0"
  by (simp add: obeys_def)

text \<open>
  Where these two hypotheses come from. \<open>resolve_extents\<close> asks again, up to 6000 times, while HOMI
  calls the extents stale, and takes its first other answer.
\<close>

lemma resolve_loop_result:
  "resolve_loop homic n i r = (case find (\<lambda>j. fst (homic j) \<noteq> - ESTALE) [i..<i + n] of
     Some j \<Rightarrow> homic j | None \<Rightarrow> if n = 0 then r else homic (i + n - 1))"
proof (induction n arbitrary: i r)
  case (Suc n)
  have "[i..<i + Suc n] = i # [Suc i..<Suc i + n]"
    by (simp add: upt_rec)
  moreover have "Suc i + n - 1 = i + Suc n - 1"
    by simp
  ultimately show ?case
    using Suc.IH [of "Suc i" "homic i"] by (cases "n = 0") (auto simp: Let_def simp del: upt_Suc split: option.split)
qed simp

lemma resolve_extents_result:
  "resolve_extents homic calloc_ok = (case find (\<lambda>j. fst (homic j) \<noteq> - ESTALE) [0..<6000] of
     None \<Rightarrow> Inl (- ESTALE)
   | Some j \<Rightarrow> if fst (homic j) < 0 then Inl (fst (homic j)) else if calloc_ok then Inr (snd (homic j)) else Inl (- ENOMEM))"
proof (cases "find (\<lambda>j. fst (homic j) \<noteq> - ESTALE) [0..<6000]")
  case None
  then have "fst (homic 5999) = - ESTALE"
    by (auto simp: find_None_iff)
  then show ?thesis
    using None by (simp add: resolve_extents_def resolve_loop_result ESTALE_RETRIES_def ESTALE_def)
qed (simp add: resolve_extents_def resolve_loop_result ESTALE_RETRIES_def)

text \<open>\<open>pwrite_op\<close> passes on what \<open>opends_direct_pwrite\<close> returns, or the error of \<open>homic_mark_dirty\<close>.\<close>

lemma pwrite_op_size:
  assumes "opends_direct_pwrite os copy fl src len (int p) ras was f = Some (r, f')"
    and "p + unat len < 2 ^ 63" "unat len \<le> length src" "host_ok os copy ras" "errnos_ok was"
  shows "pwrite_op r dirty = int (unat len) \<or> pwrite_op r dirty < 0"
  using direct_pwrite_result [OF assms] by (auto simp: pwrite_op_def)

abbreviation homi_step :: "homi_extents \<Rightarrow> ptr set \<Rightarrow> aisio_sys \<Rightarrow> aisio_sys \<Rightarrow> bool" where
  "homi_step H \<equiv> env_step (obeys H)"

definition request_fits :: "nvme_geo \<Rightarrow> homi_extents \<Rightarrow> async_request \<Rightarrow> registered_file \<Rightarrow> bool" where
  "request_fits g H r h \<longleftrightarrow> geo_ok g \<and> (\<forall>es. H h = Inr es \<longrightarrow> extents_ok g es) \<and>
     unat (r_buf r + r_buf_offset r) + unat (r_size r) < 2 ^ 64"

text \<open>The results that a request may end with.\<close>

definition result_ok :: "homi_extents \<Rightarrow> async_request \<Rightarrow> registered_file \<Rightarrow> u64 \<Rightarrow> bool" where
  "result_ok H r h x \<longleftrightarrow>
     (\<exists>e. e \<noteq> OPENDS_SUCCESS \<and> x = neg_err e) \<or>
     (if r_write r then x = r_size r
      else \<exists>es. H h = Inr es \<and>
        x = of_nat (mapped_bytes (unat (r_file_offset r)) (unat (r_file_offset r) + unat (r_size r)) es))"

section \<open>One operation\<close>

text \<open>An operation that has been started for the extents of its file, and poked.\<close>

definition started :: "homi_extents \<Rightarrow> nvme_geo \<Rightarrow> qop \<Rightarrow> bool" where
  "started H g q \<longleftrightarrow> (\<exists>cs alloc as as' q0 q1 pokes. fresh_op q0 \<and>
     op_mode (q_op q0) = op_mode (q_op q) \<and> buf_base (q_op q0) = buf_base (q_op q) \<and>
     start_read_op g cs alloc (H (op_file (q_op q))) as q0 = Some (as', q1) \<and> q = queue_poke (lba_size g) pokes q1)"

text \<open>A slot that carries the request \<open>r\<close> on the file \<open>h\<close> for the future at \<open>p\<close>.\<close>

definition carries :: "homi_extents \<Rightarrow> nvme_geo \<Rightarrow> async_request \<Rightarrow> registered_file \<Rightarrow> ptr \<Rightarrow> qop \<Rightarrow> bool" where
  "carries H g r h p q \<longleftrightarrow>
     op_state (q_op q) \<noteq> FILE_OP_FREE \<and> op_mode (q_op q) = async_mode r p \<and> is_write (q_op q) = r_write r \<and>
     op_file (q_op q) = h \<and> buf_base (q_op q) = r_buf r \<and>
     (op_state (q_op q) = FILE_OP_IN_FLIGHT \<longrightarrow> \<not> r_write r \<and> started H g q)"

lemma carries_fut: "carries H g r h p q \<Longrightarrow> fut_of q = {#p#}"
  by (simp add: carries_def fut_of_def async_mode_def)

lemma started_deliver: "started H g q \<Longrightarrow> started H g (deliver (lba_size g) c q)"
proof -
  assume "started H g q"
  then obtain cs alloc as as' q0 q1 pokes where s: "fresh_op q0" "op_mode (q_op q0) = op_mode (q_op q)"
    "buf_base (q_op q0) = buf_base (q_op q)"
    "start_read_op g cs alloc (H (op_file (q_op q))) as q0 = Some (as', q1)" "q = queue_poke (lba_size g) pokes q1"
    by (auto simp: started_def)
  have "deliver (lba_size g) c q = queue_poke (lba_size g) (pokes @ [c]) q1"
    by (simp add: s(5) queue_poke_def)
  then show ?thesis
    using s deliver_same_plan [of q "lba_size g" c] unfolding started_def same_plan_def by metis
qed

lemma carries_deliver: "carries H g r h p q \<Longrightarrow> carries H g r h p (deliver (lba_size g) c q)"
  using deliver_same_plan [of q "lba_size g" c] by (auto simp: carries_def same_plan_def started_deliver simp del: deliver.simps)

text \<open>What a completion leaves in the future of the operation.\<close>

definition finished :: "homi_extents \<Rightarrow> async_request \<Rightarrow> registered_file \<Rightarrow> ptr \<Rightarrow> io_world \<Rightarrow> bool" where
  "finished H r h p wd \<longleftrightarrow> fut_done (futures wd p) \<and> result_ok H r h (fut_result (futures wd p))"

lemma started_bytes:
  assumes st: "started H g q" and fits: "request_fits g H r h" and q: "op_file (q_op q) = h"
    "op_mode (q_op q) = async_mode r p" "buf_base (q_op q) = r_buf r"
    and idle: "chunks_remaining (q_op q) = 0" "bounces_outstanding (q_op q) = 0" and good: "op_err (q_op q) = OPENDS_SUCCESS"
  shows "\<exists>es. H h = Inr es \<and>
    bytes_acc (q_op q) = of_nat (mapped_bytes (unat (r_file_offset r)) (unat (r_file_offset r) + unat (r_size r)) es)"
proof -
  obtain cs alloc as as' q0 q1 pokes where s: "fresh_op q0" "op_mode (q_op q0) = op_mode (q_op q)"
    "buf_base (q_op q0) = buf_base (q_op q)"
    "start_read_op g cs alloc (H h) as q0 = Some (as', q1)" "q = queue_poke (lba_size g) pokes q1"
    using st q(1) by (auto simp: started_def)
  have "op_inv g q"
    unfolding s(5) by (intro poke_inv) (use start_read_op_inv [OF s(4) fresh_op_inv [OF s(1)]] in blast)
  then have none: "q_inflight q = []"
    using idle by (auto simp: op_inv_def counters_ok_def chunks_of_def bounces_of_def filter_empty_conv)
  have good1: "op_err (q_op q1) = OPENDS_SUCCESS"
    using good poke_same_plan [of q1 "lba_size g" pokes] by (auto simp: s(5) same_plan_def)
  obtain es where es: "H h = Inr es"
    using s(4) good1 by (cases "H h") (auto simp: start_read_op_def split: if_splits prod.splits)
  have land: "read_landed g cs alloc es as pokes q0 q"
    using s es none by (simp add: read_landed_def)
  have "op_request cs (q_op q0) = (r_size r, r_file_offset r, r_buf r + r_buf_offset r)"
    using s(2,3) q by (simp add: op_request_def async_mode_def)
  from landed_plan(2) [OF land _ _ this _ good] show ?thesis
    using fits es by (simp add: request_fits_def)
qed

lemma complete_finishes:
  assumes c: "carries H g r h p q" and fits: "request_fits g H r h" and st: "op_state (q_op q) = FILE_OP_IN_FLIGHT"
    and idle: "chunks_remaining (q_op q) = 0" "bounces_outstanding (q_op q) = 0"
  shows "finished H r h p (snd (complete_read_op copy (q_op q) wd))"
proof (cases "op_err (q_op q) = OPENDS_SUCCESS")
  case True
  have q: "op_file (q_op q) = h" "op_mode (q_op q) = async_mode r p" "buf_base (q_op q) = r_buf r" "\<not> r_write r" "started H g q"
    using c st by (simp_all add: carries_def)
  obtain es where es: "H h = Inr es"
    "bytes_acc (q_op q) = of_nat (mapped_bytes (unat (r_file_offset r)) (unat (r_file_offset r) + unat (r_size r)) es)"
    using started_bytes [OF q(5) fits q(1-3) idle True] by blast
  obtain rc m where copies: "run_bounce_copies copy (q_op q) (mem wd) = (rc, m)"
    by fastforce
  have fin: "futures (snd (complete_read_op copy (q_op q) wd)) p =
    \<lparr>fut_done = True, fut_result = if rc < 0 then neg_err OPENDS_DEVICE_DRIVER_ERROR else bytes_acc (q_op q)\<rparr>"
    using True q(2) copies by (simp add: complete_read_op_def async_mode_def)
  have "result_ok H r h (if rc < 0 then neg_err OPENDS_DEVICE_DRIVER_ERROR else bytes_acc (q_op q))"
    using es q(4) by (auto simp: result_ok_def)
  then show ?thesis
    unfolding finished_def fin by simp
next
  case False
  have "op_mode (q_op q) = async_mode r p"
    using c by (simp add: carries_def)
  then show ?thesis
    using False by (auto simp: complete_read_op_def Let_def async_mode_def finished_def result_ok_def)
qed

lemma write_finishes:
  assumes c: "carries H g r h p q" and env: "obeys H env" and w: "r_write r"
  shows "finished H r h p (snd (dispatch_write (v_write env) (q_op q) wd))"
proof -
  have q: "op_mode (q_op q) = async_mode r p"
    using c by (simp add: carries_def)
  define n where "n = v_write env (op_file (q_op q)) (write_request (cells wd) (q_op q))"
  define x where "x = (if n < 0 then (if n = - EINVAL then neg_err OPENDS_INVALID_VALUE else neg_err OPENDS_DEVICE_DRIVER_ERROR)
    else of_int n)"
  have "n = int (unat (r_size r)) \<or> n < 0"
    using obeysD [OF env, of "op_file (q_op q)" "buf_base (q_op q) + r_buf_offset r" "r_size r" "r_file_offset r"]
    by (simp only: n_def write_request_def q async_mode_def file_op_mode.case file_op_async.select_convs)
  then have "result_ok H r h x"
  proof
    assume "n = int (unat (r_size r))"
    then have "x = r_size r"
      by (simp add: x_def)
    then show ?thesis
      using w by (simp add: result_ok_def)
  next
    assume "n < 0"
    then have "x \<in> neg_err ` {OPENDS_INVALID_VALUE, OPENDS_DEVICE_DRIVER_ERROR}"
      by (simp add: x_def)
    then show ?thesis
      unfolding result_ok_def by (intro disjI1) blast
  qed
  moreover have "futures (snd (dispatch_write (v_write env) (q_op q) wd)) p = \<lparr>fut_done = True, fut_result = x\<rparr>"
    by (simp add: dispatch_write_def n_def [symmetric] x_def q async_mode_def)
  ultimately show ?thesis
    by (simp add: finished_def)
qed

section \<open>A worker\<close>

text \<open>The request is carried by a slot of the worker, or done with, and then its future is nobody's.\<close>

definition carried :: "homi_extents \<Rightarrow> nvme_geo \<Rightarrow> async_request \<Rightarrow> registered_file \<Rightarrow> ptr \<Rightarrow> io_worker \<Rightarrow> bool" where
  "carried H g r h p w \<longleftrightarrow> (\<exists>k < 1024. carries H g r h p (file_op_queue w ! k))"

definition tracked :: "homi_extents \<Rightarrow> nvme_geo \<Rightarrow> async_request \<Rightarrow> registered_file \<Rightarrow> ptr \<Rightarrow> io_worker \<Rightarrow> io_world \<Rightarrow> bool" where
  "tracked H g r h p w wd \<longleftrightarrow> carried H g r h p w \<or> p \<notin># worker_futs w \<and> finished H r h p wd"

lemma carried_set:
  assumes "k < 1024" "carries H g r h p (file_op_queue w ! k)" "length (file_op_queue w) = 1024"
    and "k = slot_of i \<Longrightarrow> carries H g r h p q'"
  shows "carried H g r h p (set_slot i q' w)"
  unfolding carried_def set_slot_def using assms by (intro exI [of _ k]) (cases "k = slot_of i", simp_all)

lemma poke_carried:
  "carried H g r h p w \<Longrightarrow> length (file_op_queue w) = 1024 \<Longrightarrow> carried H g r h p (worker_poke (lba_size g) xs w)"
proof (induction xs arbitrary: w)
  case (Cons x xs)
  obtain i c where x: "x = (i, c)"
    by (cases x)
  obtain k where "k < 1024" "carries H g r h p (file_op_queue w ! k)"
    using Cons.prems(1) by (auto simp: carried_def)
  then have "carried H g r h p (deliver_at (lba_size g) x w)"
    unfolding x deliver_at_def prod.case
    by (rule carried_set [OF _ _ Cons.prems(2)]) (use \<open>carries _ _ _ _ _ _\<close> in \<open>simp add: slot_at_def carries_deliver del: deliver.simps\<close>)
  then show ?case
    using Cons.IH [of "deliver_at (lba_size g) x w"] Cons.prems(2)
    by (simp add: worker_poke_def x deliver_at_def set_slot_def del: deliver.simps)
qed (simp add: worker_poke_def)

lemma settled_finished:
  "settles P wd wd' \<Longrightarrow> p \<notin># P \<Longrightarrow> finished H r h p wd \<Longrightarrow> finished H r h p wd'"
  by (simp add: settles_def finished_def)

text \<open>The carrying slot is dispatched, reaped or left alone; nothing is in two slots.\<close>

lemma dispatched_carries:
  assumes d: "dispatch_pending g (v_write env) (v_read env) (q_op q) wd = Some (q', wd')" and env: "obeys H env"
    and q: "carries H g r h p q" "op_shape q"
  shows "if r_write r then op_state (q_op q') = FILE_OP_FREE \<and> finished H r h p wd' else carries H g r h p q'"
proof (cases "r_write r")
  case True
  then have w: "is_write (q_op q)"
    using q(1) by (simp add: carries_def)
  obtain op1 wd1 where dw: "dispatch_write (v_write env) (q_op q) wd = (op1, wd1)"
    by fastforce
  then have "wd' = wd1" "q_op q' = op1"
    using d w by (auto simp: dispatch_pending_def)
  then show ?thesis
    using True write_finishes [OF q(1) env True, of wd] dispatch_write_state [OF dw] dw by simp
next
  case False
  then have w: "\<not> is_write (q_op q)"
    using q(1) by (simp add: carries_def)
  define q0 where "q0 = \<lparr>q_op = reset_op (q_op q), q_stream = streams wd ! op_stream_of (q_op q), q_inflight = [], q_log = []\<rparr>"
  have "re_extents (v_read env) = H"
    using env by (simp add: obeys_def)
  then obtain as' where run: "start_read_op g (cells wd) (re_alloc (v_read env)) (H (op_file (q_op q))) (re_attempts (v_read env)) q0 = Some (as', q')"
    using d w by (auto simp: dispatch_pending_def dispatch_read_def q0_def Let_def split: option.splits)
  have fresh: "fresh_op q0"
    using q(2) by (simp add: fresh_op_def q0_def reset_op_def op_shape_def)
  have k: "kept q0 q'"
    using start_read_op_inv [OF run fresh_op_inv [OF fresh]] by blast
  have same: "op_mode (q_op q') = op_mode (q_op q0)" "buf_base (q_op q') = buf_base (q_op q0)" "op_file (q_op q') = op_file (q_op q)"
    using k by (simp_all add: kept_def q0_def reset_op_def)
  have "q' = queue_poke (lba_size g) [] q'"
    by (simp add: queue_poke_def)
  with fresh same run have "started H g q'"
    unfolding started_def by metis
  then show ?thesis
    using False q(1) k by (simp add: carries_def kept_def q0_def reset_op_def)
qed

text \<open>A step of a worker after which the future is still in the worker changes nothing of the outcome.\<close>

lemma tracked_finished:
  assumes "futs_step w wd w' wd'" "p \<notin># worker_futs w" "finished H r h p wd"
  shows "tracked H g r h p w' wd'"
  using assms settled_finished by (auto simp: futs_step_def tracked_def)

lemma slot_gone:
  assumes "length (file_op_queue w) = 1024" "count (worker_futs w) p \<le> 1"
    and "carries H g r h p (slot_at w i)" "fut_of q' = {#}"
  shows "p \<notin># worker_futs (set_slot i q' w)"
proof -
  have "worker_futs (set_slot i q' w) + {#p#} = worker_futs w"
    using set_slot_futs [OF assms(1), of i q'] assms(4) carries_fut [OF assms(3)] by simp
  then have "count (worker_futs (set_slot i q' w)) p = 0"
    using assms(2) by (metis Suc_le_mono add_mset_add_single count_add_mset le_zero_eq One_nat_def)
  then show ?thesis
    by (simp add: not_in_iff)
qed

lemma dispatched_tracked:
  assumes d: "dispatch_pending g (v_write env) (v_read env) (q_op (slot_at w i)) wd = Some (q', wd')" and env: "obeys H env"
    and ok: "worker_ok w" "count (worker_futs w) p \<le> 1" and k: "k < 1024" "carries H g r h p (file_op_queue w ! k)"
  shows "tracked H g r h p (worker_poke (lba_size g) xs (set_slot i q' w)) wd'"
proof -
  have len: "length (file_op_queue w) = 1024" "length (file_op_queue (set_slot i q' w)) = 1024"
    using ok(1) by (simp_all add: worker_ok_def ring_ok_def queue_size set_slot_def)
  note d = dispatched_carries [OF d env, of r h p, OF _ slot_shape [OF ok(1)]]
  show ?thesis
  proof (cases "k = slot_of i \<and> r_write r")
    case True
    then have "op_state (q_op q') = FILE_OP_FREE \<and> finished H r h p wd'"
      using d k by (simp add: slot_at_def)
    then show ?thesis
      using slot_gone [OF len(1) ok(2), of H g r h i q'] True k by (simp add: tracked_def fut_of_def slot_at_def)
  next
    case False
    have "carried H g r h p (set_slot i q' w)"
      by (rule carried_set [OF k len(1)]) (use False d k in \<open>auto simp: slot_at_def\<close>)
    then show ?thesis
      using poke_carried [OF _ len(2)] by (simp add: tracked_def)
  qed
qed

lemma reaped_tracked:
  assumes r: "reap_in_flight (v_copy env) (q_op (slot_at w i)) wd = (op1, wd')" "op_state (q_op (slot_at w i)) = FILE_OP_IN_FLIGHT"
    and ok: "worker_ok w" "count (worker_futs w) p \<le> 1" and fits: "request_fits g H r h"
    and k: "k < 1024" "carries H g r h p (file_op_queue w ! k)"
  shows "tracked H g r h p (set_slot i ((slot_at w i)\<lparr>q_op := op1\<rparr>) w) wd'"
proof -
  have len: "length (file_op_queue w) = 1024"
    using ok(1) by (simp add: worker_ok_def ring_ok_def queue_size)
  show ?thesis
  proof (cases "k = slot_of i \<and> chunks_remaining (q_op (slot_at w i)) = 0 \<and> bounces_outstanding (q_op (slot_at w i)) = 0")
    case True
    then have c: "complete_read_op (v_copy env) (q_op (slot_at w i)) wd = (op1, wd')" "carries H g r h p (slot_at w i)"
      using r(1) k by (simp_all add: reap_in_flight_def slot_at_def)
    then have "op_state op1 = FILE_OP_FREE" "finished H r h p wd'"
      using complete_op [of "v_copy env" "q_op (slot_at w i)" wd] True
        complete_finishes [OF c(2) fits r(2), of "v_copy env" wd] by simp_all
    then show ?thesis
      using slot_gone [OF len ok(2) c(2)] by (simp add: tracked_def fut_of_def)
  next
    case False
    then have "op1 = q_op (slot_at w i)" if "k = slot_of i"
      using that r(1) by (auto simp: reap_in_flight_def split: if_splits)
    then have "carried H g r h p (set_slot i ((slot_at w i)\<lparr>q_op := op1\<rparr>) w)"
      using k by (intro carried_set [OF k len]) (simp add: slot_at_def)
    then show ?thesis
      by (simp add: tracked_def)
  qed
qed

lemma visit_tracked:
  assumes res: "visit g env i w wd = Some (b, w', wd')" and ok: "worker_ok w" and one: "count (worker_futs w) p \<le> 1"
    and env: "obeys H env" and fits: "request_fits g H r h" and tr: "tracked H g r h p w wd"
  shows "tracked H g r h p w' wd'"
proof (cases "carried H g r h p w")
  case False
  then show ?thesis
    using tr tracked_finished [OF visit_futs [OF res ok]] by (simp add: tracked_def)
next
  case True
  then obtain k where k: "k < 1024" "carries H g r h p (file_op_queue w ! k)"
    by (auto simp: carried_def)
  show ?thesis
    using res
  proof (cases rule: visit_cases)
    case (dispatched q')
    then show ?thesis
      using dispatched_tracked [OF dispatched(2) env ok one k] by simp
  next
    case (reaped op1)
    then show ?thesis
      using reaped_tracked [OF reaped(2,1) ok one fits k] by simp
  qed (use tr in simp)
qed

lemma futs_step_count: "futs_step w wd w' wd' \<Longrightarrow> count (worker_futs w') p \<le> count (worker_futs w) p"
  by (auto simp: futs_step_def)

lemma scan_tracked:
  assumes "scan g env head i busy w wd = Some (b, w', wd')" "worker_ok w" "count (worker_futs w) p \<le> 1"
    "\<forall>k. obeys H (env k)" "request_fits g H r h" "tracked H g r h p w wd"
  shows "tracked H g r h p w' wd'"
  using assms
proof (induction g env head i busy w wd rule: scan.induct)
  case (1 g env head i busy w wd)
  show ?case
  proof (cases "i = head")
    case True
    then show ?thesis
      using 1 by (auto simp: scan.simps)
  next
    case False
    then obtain b1 w1 wd1 where one: "visit g (env i) i w wd = Some (b1, w1, wd1)"
      and rest: "scan g env head (i + 1) (busy \<or> b1) w1 wd1 = Some (b, w', wd')"
      using 1(2) by (subst (asm) scan.simps) (auto split: option.splits)
    have "tracked H g r h p w1 wd1" "count (worker_futs w1) p \<le> 1"
      using visit_tracked [OF one 1(3,4) _ 1(6,7)] 1(5) futs_step_count [OF visit_futs [OF one 1(3)], of p] 1(4) by auto
    then show ?thesis
      using 1(1) [OF False one refl refl rest visit_ok [OF one 1(3)]] 1(5,6) by blast
  qed
qed

lemma io_pass_tracked:
  assumes "io_pass g env pokes stop head w wd = Some (leave, w', wd')" "worker_ok w" "count (worker_futs w) p \<le> 1"
    "\<forall>k. obeys H (env k)" "request_fits g H r h" "tracked H g r h p w wd"
  shows "tracked H g r h p w' wd'"
proof -
  obtain busy w1 where scan: "scan g env head (queue_tail w) False w wd = Some (busy, w1, wd')"
    and w': "w' = retire head w1 \<or> w' = worker_poke (lba_size g) pokes (retire head w1)"
    using assms(1) unfolding io_pass_def Let_def by (auto split: option.splits if_splits)
  have t: "tracked H g r h p w1 wd'"
    by (rule scan_tracked [OF scan assms(2-6)])
  then have t1: "tracked H g r h p (retire head w1) wd'"
    by (simp add: tracked_def carried_def retire_def worker_futs_def)
  have "length (file_op_queue (retire head w1)) = 1024"
    using scan_futs [OF scan assms(2)] by (simp add: retire_def worker_ok_def ring_ok_def queue_size)
  then show ?thesis
    using t1 w' poke_carried [of H g r h p "retire head w1" pokes] by (auto simp: tracked_def)
qed

section \<open>The driver\<close>

definition sys_tracked :: "homi_extents \<Rightarrow> async_request \<Rightarrow> registered_file \<Rightarrow> ptr \<Rightarrow> aisio_sys \<Rightarrow> bool" where
  "sys_tracked H r h p s \<longleftrightarrow>
     (\<exists>d i. fst s = Some d \<and> i < length (workers d) \<and> carried H (geo d) r h p (workers d ! i)) \<or>
     \<not> aisio_busy s p \<and> finished H r h p (snd s)"

lemma count_le_sum: "m \<in> set ms \<Longrightarrow> count m p \<le> count (sum_list ms) p"
  by (induction ms) auto

lemma carried_busy: "carried H g r h p w \<Longrightarrow> length (file_op_queue w) = 1024 \<Longrightarrow> p \<in># worker_futs w"
proof -
  assume "carried H g r h p w" "length (file_op_queue w) = 1024"
  then obtain q where q: "q \<in> set (file_op_queue w)" "carries H g r h p q"
    by (force simp: carried_def)
  then have "count (fut_of q) p \<le> count (worker_futs w) p"
    unfolding worker_futs_def by (intro count_le_sum) simp
  then show ?thesis
    using carries_fut [OF q(2)] by (simp add: Suc_le_eq)
qed

lemma publish_carried:
  assumes ok: "worker_ok w" "has_room w" and c: "carried H g r h p w"
  shows "carried H g r h p (publish_slot (fill_slot m wr h' buf w))"
proof -
  obtain k where k: "k < 1024" "carries H g r h p (file_op_queue w ! k)"
    using c by (auto simp: carried_def)
  have ring: "ring_ok w"
    using ok(1) by (simp add: worker_ok_def)
  then have len: "length (file_op_queue w) = 1024"
    by (rule ring_okD(1))
  have "k \<noteq> slot_of (queue_head w)"
    using submit_ring(3) [OF ring ok(2)] k(2) by (auto simp: carries_def slot_at_def)
  then have "file_op_queue (publish_slot (fill_slot m wr h' buf w)) ! k = file_op_queue w ! k"
    by (simp add: publish_slot_def fill_slot_def set_slot_def)
  then show ?thesis
    using k by (auto simp: carried_def)
qed

lemma pass_tracked:
  assumes ok: "aisio_ok (Some d, wd)" and i: "i < length (workers d)" "n \<le> ring_len (workers d ! i)"
    and run: "io_pass (geo d) env pokes stop (queue_tail (workers d ! i) + of_nat n) (workers d ! i) wd = Some (leave, w', wd')"
    and env: "\<forall>k. obeys H (env k)" "request_fits (geo d) H r h"
    and c: "j < length (workers d)" "carried H (geo d) r h p (workers d ! j)"
  shows "sys_tracked H r h p (Some (d\<lparr>workers := (workers d)[i := w']\<rparr>), wd')"
proof (cases "i = j")
  case True
  have w: "worker_ok (workers d ! i)"
    using ok i(1) by (simp add: aisio_ok_def driver_ok_def)
  have sum: "driver_futs (d\<lparr>workers := (workers d)[i := w']\<rparr>) + worker_futs (workers d ! i) = driver_futs d + worker_futs w'"
    by (rule driver_futs_update [OF i(1)])
  have one: "count (driver_futs d) p \<le> 1"
    using ok by (simp add: aisio_ok_def sys_futs_def)
  have mine: "count (worker_futs (workers d ! i)) p \<le> count (driver_futs d) p"
    unfolding driver_futs_def by (rule count_le_sum) (use i(1) in simp)
  have "length (file_op_queue (workers d ! i)) = 1024"
    using w by (simp add: worker_ok_def ring_ok_def queue_size)
  then have in_w: "p \<in># worker_futs (workers d ! i)"
    using carried_busy c(2) True by blast
  have "tracked H (geo d) r h p w' wd'"
    using io_pass_tracked [OF run w _ env, of p] c(2) True one mine by (simp add: tracked_def)
  moreover have "p \<notin># driver_futs (d\<lparr>workers := (workers d)[i := w']\<rparr>)" if "p \<notin># worker_futs w'"
  proof -
    have "count (driver_futs (d\<lparr>workers := (workers d)[i := w']\<rparr>)) p + count (worker_futs (workers d ! i)) p = count (driver_futs d) p"
      using arg_cong [OF sum, of "\<lambda>M. count M p"] that by (simp add: not_in_iff)
    moreover have "0 < count (worker_futs (workers d ! i)) p"
      using in_w by simp
    ultimately have "count (driver_futs (d\<lparr>workers := (workers d)[i := w']\<rparr>)) p = 0"
      using one by linarith
    then show ?thesis
      by (simp add: not_in_iff)
  qed
  ultimately show ?thesis
    using i(1) by (auto simp: tracked_def sys_tracked_def aisio_busy_def sys_futs_def)
next
  case False
  then show ?thesis
    using c by (auto simp: sys_tracked_def intro!: exI [of _ j])
qed

lemma env_step_tracked:
  assumes st: "homi_step H F s s'" and ok: "aisio_ok s" and p: "p \<in> F"
    and fits: "\<forall>d. fst s = Some d \<longrightarrow> request_fits (geo d) H r h" and tr: "sys_tracked H r h p s"
  shows "sys_tracked H r h p s'"
proof (cases "\<not> aisio_busy s p \<and> finished H r h p (snd s)")
  case True
  then have "\<not> aisio_busy s' p" "aisio_fut s' p = aisio_fut s p"
    using aisio_step_ok [OF env_step_aisio [OF st] ok] p by (auto simp: futures_kept_def)
  then show ?thesis
    using True by (simp add: sys_tracked_def finished_def aisio_fut_def)
next
  case False
  then obtain d j where c: "fst s = Some d" "j < length (workers d)" "carried H (geo d) r h p (workers d ! j)"
    using tr by (auto simp: sys_tracked_def)
  have fit: "request_fits (geo d) H r h" and dok: "driver_ok d"
    using fits c(1) ok by (simp_all add: aisio_ok_def)
  show ?thesis
    using st
  proof (cases rule: env_step.cases)
    case (pass i d' n env pokes stop wd leave w')
    then show ?thesis
      using pass_tracked [of d wd i n env pokes stop leave w' _ H r h j p] ok c fit by auto
  next
    case (route d' wd)
    then show ?thesis
      using c by (auto simp: sys_tracked_def route_op_def intro!: exI [of _ j])
  next
    case (publish i d' m wd wr h' buf)
    have "carried H (geo d) r h p (workers (publish_op i m wr h' buf d) ! j)"
      using c publish(1,3,4) dok publish_carried [of "workers d ! i" H "geo d" r h p m wr h' buf]
      by (cases "i = j") (auto simp: publish_op_def driver_ok_def)
    then show ?thesis
      using c publish(1,2) by (auto simp: sys_tracked_def publish_op_def)
  next
    case (memory dp wd wd')
    then show ?thesis
      using c by (auto simp: sys_tracked_def)
  qed
qed

lemma env_steps_tracked:
  assumes "(homi_step H F)\<^sup>*\<^sup>* s s'" "aisio_ok s" "p \<in> F" "fst s = Some d" "request_fits (geo d) H r h" "sys_tracked H r h p s"
  shows "sys_tracked H r h p s'"
  using assms(1)
proof (induction rule: rtranclp_induct)
  case (step s1 s2)
  have steps: "(aisio_step F)\<^sup>*\<^sup>* s s1"
    by (rule env_steps_aisio [OF step(1)])
  have "\<forall>d1. fst s1 = Some d1 \<longrightarrow> geo d1 = geo d"
    using aisio_steps_setup [OF steps assms(4)] by (auto simp: same_setup_def)
  then show ?case
    using env_step_tracked [OF step(2) _ assms(3), of r h] aisio_steps_ok [OF steps assms(2)] step(3) assms(5) by simp
qed (rule assms(6))

text \<open>An accepted submission carries its request.\<close>

lemma submit_tracked:
  assumes sub: "submit_async_op others r p s = Some (e, s')" "err e = OPENDS_SUCCESS" "aisio_ok s" "\<not> aisio_busy s p"
    and oth: "\<forall>f \<in> set others. \<forall>s. (aisio_step F)\<^sup>*\<^sup>* s (f s)"
  shows "\<exists>h d d'. r_fh r = Some h \<and> fst s = Some d \<and> fst s' = Some d' \<and> geo d' = geo d \<and> sys_tracked H r h p s'"
proof -
  obtain d wd h i d1 wd1 where s: "s = (Some d, wd)" "r_fh r = Some h" "workers_ready d"
    and claim: "claim_slot_locked others (Some d, clear_future p wd) = Some (i, d1, wd1)"
    and s': "s' = (Some (publish_op i (async_mode r p) (r_write r) h (r_buf r) d1), wd1)"
    using sub(1,2) by (auto simp: submit_async_op_def opends_err_def split: option.splits prod.splits if_splits)
  have "aisio_step {} s (Some d, clear_future p wd)"
    unfolding s(1) by (rule clear_future_step) (use sub(4) s(1) in \<open>simp_all add: aisio_busy_def\<close>)
  then have ok0: "aisio_ok (Some d, clear_future p wd)"
    using aisio_step_ok sub(3) by blast
  moreover have "workers d \<noteq> []"
    using sub(3) s(1,3) by (simp add: aisio_ok_def driver_ok_def)
  ultimately have c: "(aisio_step F)\<^sup>*\<^sup>* (Some d, clear_future p wd) (Some d1, wd1)" "i < length (workers d1)" "has_room (workers d1 ! i)"
    using claim_steps [OF claim _ _ oth] by blast+
  have "worker_ok (workers d1 ! i)"
    using aisio_steps_ok [OF c(1) ok0] c(2) by (simp add: aisio_ok_def driver_ok_def)
  then have len: "length (file_op_queue (workers d1 ! i)) = 1024"
    by (simp add: worker_ok_def ring_ok_def queue_size)
  define k where "k = slot_of (queue_head (workers d1 ! i))"
  have "carries H (geo d1) r h p (file_op_queue (publish_slot (fill_slot (async_mode r p) (r_write r) h (r_buf r) (workers d1 ! i))) ! k)"
    using slot_of_less [of "queue_head (workers d1 ! i)"] len
    by (simp add: carries_def k_def publish_slot_def fill_slot_def set_slot_def slot_at_def upd_op_def fill_op_def)
  then have "carried H (geo d1) r h p (publish_slot (fill_slot (async_mode r p) (r_write r) h (r_buf r) (workers d1 ! i)))"
    unfolding carried_def k_def using slot_of_less by blast
  then have "sys_tracked H r h p s'"
    using c(2) by (auto simp: sys_tracked_def s' publish_op_def intro!: exI [of _ i])
  moreover have "geo d1 = geo d"
    using aisio_steps_setup [OF c(1)] by (auto simp: same_setup_def)
  ultimately show ?thesis
    using s s' by (auto simp: publish_op_def)
qed

lemma done_result:
  assumes "aisio_ok s" "sys_tracked H r h p s" "fut_done (aisio_fut s p)"
  shows "result_ok H r h (fut_result (aisio_fut s p))"
proof (rule ccontr)
  assume bad: "\<not> result_ok H r h (fut_result (aisio_fut s p))"
  then obtain d i where c: "fst s = Some d" "i < length (workers d)" "carried H (geo d) r h p (workers d ! i)"
    using assms(2) by (auto simp: sys_tracked_def finished_def aisio_fut_def)
  have "length (file_op_queue (workers d ! i)) = 1024"
    using assms(1) c(1,2) by (simp add: aisio_ok_def driver_ok_def worker_ok_def ring_ok_def queue_size)
  then have "p \<in># worker_futs (workers d ! i)"
    by (rule carried_busy [OF c(3)])
  moreover have "count (worker_futs (workers d ! i)) p \<le> count (driver_futs d) p"
    unfolding driver_futs_def by (rule count_le_sum) (use c(2) in simp)
  ultimately have "p \<in># sys_futs s"
    using c(1) by (simp add: sys_futs_def flip: count_greater_zero_iff)
  then show False
    using assms(1,3) by (simp add: aisio_ok_def)
qed

lemma submit_result:
  assumes sub: "submit_async_op others r p s = Some (e, s1)" "err e = OPENDS_SUCCESS" "aisio_ok s" "\<not> aisio_busy s p"
    and oth: "\<forall>f \<in> set others. \<forall>s. (homi_step H {p})\<^sup>*\<^sup>* s (f s)"
    and later: "(homi_step H {p})\<^sup>*\<^sup>* s1 s2" "fut_done (aisio_fut s2 p)"
    and req: "\<forall>d h. fst s = Some d \<longrightarrow> r_fh r = Some h \<longrightarrow> request_fits (geo d) H r h"
  shows "\<exists>h. r_fh r = Some h \<and> result_ok H r h (fut_result (aisio_fut s2 p))"
proof -
  have steps: "\<forall>f \<in> set others. \<forall>s. (aisio_step {p})\<^sup>*\<^sup>* s (f s)"
    using oth env_steps_aisio by blast
  obtain h d d' where t: "r_fh r = Some h" "fst s = Some d" "fst s1 = Some d'" "geo d' = geo d" "sys_tracked H r h p s1"
    using submit_tracked [OF sub steps] by blast
  have ok: "aisio_ok s1"
    using submit_async_op_ok [OF sub(1,3,4) _ steps] by blast
  have "aisio_ok s2"
    using aisio_steps_ok [OF env_steps_aisio [OF later(1)] ok] by blast
  then show ?thesis
    using done_result [OF _ env_steps_tracked [OF later(1) ok _ t(3) _ t(5)] later(2)] req t by simp
qed

text \<open>A synchronous call, read or write, ends with a result of its request.\<close>

lemma sync_result:
  assumes run: "(case submit_async_op others r p s of
        None \<Rightarrow> None
      | Some (e, s1) \<Rightarrow>
          if err e \<noteq> OPENDS_SUCCESS then Some (neg_err (err e), s1)
          else opends_async_await aisio_fut waits p s1) = Some (x, s')"
    and s: "aisio_ok s" "p \<notin># sys_futs s" "p \<noteq> 0"
    and oth: "\<forall>f \<in> set others. \<forall>s. (homi_step H {p})\<^sup>*\<^sup>* s (f s)" "\<forall>f \<in> set waits. \<forall>s. (homi_step H {p})\<^sup>*\<^sup>* s (f s)"
    and req: "\<forall>d h. fst s = Some d \<longrightarrow> r_fh r = Some h \<longrightarrow> request_fits (geo d) H r h"
  shows "p \<notin># sys_futs s' \<and> ((\<exists>e. e \<noteq> OPENDS_SUCCESS \<and> x = neg_err e) \<or> (\<exists>h. r_fh r = Some h \<and> result_ok H r h x))"
proof -
  have free: "\<not> aisio_busy s p"
    using s(2) by (simp add: aisio_busy_def)
  have rest: "aisio.rest_ok {p} others" "aisio.rest_ok {p} waits"
    using oth env_steps_aisio unfolding aisio.rest_ok_def by blast+
  obtain e s1 where e: "\<not> aisio_busy s' p" "submit_async_op others r p s = Some (e, s1)"
    "if err e \<noteq> OPENDS_SUCCESS then x = neg_err (err e) \<and> s' = s1 \<and> aisio_fut s' p = aisio_fut s p
     else fut_done (aisio_fut s' p) \<and> x = fut_result (aisio_fut s' p)"
    using aisio.sync_ok [OF run s(1) free s(3) _ rest] by blast
  show ?thesis
  proof (cases "err e = OPENDS_SUCCESS")
    case True
    then have "(homi_step H {p})\<^sup>*\<^sup>* s1 s'"
      using run e(2) await_steps [OF _ oth(2)] by simp
    then show ?thesis
      using submit_result [OF e(2) True s(1) free oth(1) _ _ req] e True by (simp add: aisio_busy_def)
  qed (use e in \<open>auto simp: aisio_busy_def\<close>)
qed

section \<open>How large a result can be\<close>

lemma mapped_bytes_le: "extents_disjoint es \<Longrightarrow> mapped_bytes rs re es \<le> re - rs"
proof (induction es arbitrary: rs)
  case (Cons e es)
  have "mapped_bytes rs re es = mapped_bytes (max rs (ext_stop e)) re es"
    unfolding mapped_bytes_def using Cons.prems by (intro arg_cong [of _ _ sum_list] map_cong refl) (auto simp: extents_disjoint_def)
  also have "\<dots> \<le> re - max rs (ext_stop e)"
    using Cons.prems by (intro Cons.IH) (simp add: extents_disjoint_def)
  finally show ?case
    by (auto simp: mapped_bytes_def)
qed (simp add: mapped_bytes_def)

lemma errstr_of_code: "e \<noteq> OPENDS_SUCCESS \<Longrightarrow> IS_OPENDS_ERR (- op_code e) \<and> OPENDS_ERRSTR (- op_code e) = op_message e"
  using op_code_range [of e]
  by (auto simp: IS_OPENDS_ERR_def OPENDS_BASE_ERR_def OPENDS_ERRSTR_def opends_op_status_error_def)

lemma result_ok_size:
  assumes "result_ok H r h x" "request_fits g H r h" "unat (r_size r) < 2 ^ 63"
  shows "(\<exists>e. e \<noteq> OPENDS_SUCCESS \<and> x = neg_err e) \<or> 0 \<le> sint x \<and> sint x \<le> int (unat (r_size r))"
proof -
  have small: "sint (of_nat m :: u64) = int m" if "m \<le> unat (r_size r)" for m
    using that assms(3) result_word(1) [of "int m"] by simp
  have "0 \<le> sint x \<and> sint x \<le> int (unat (r_size r))" if "H h = Inr es"
    "x = of_nat (mapped_bytes (unat (r_file_offset r)) (unat (r_file_offset r) + unat (r_size r)) es)" for es
  proof -
    have m: "mapped_bytes (unat (r_file_offset r)) (unat (r_file_offset r) + unat (r_size r)) es \<le> unat (r_size r)"
      using mapped_bytes_le [of es "unat (r_file_offset r)" "unat (r_file_offset r) + unat (r_size r)"] assms(2) that(1)
      by (simp add: request_fits_def extents_ok_def)
    show ?thesis
      unfolding that(2) small [OF m] using m by (simp only: of_nat_le_iff of_nat_0_le_iff simp_thms)
  qed
  moreover have "sint (r_size r) = int (unat (r_size r))"
    using small [OF order_refl] by simp
  ultimately show ?thesis
    using assms(1) by (auto simp: result_ok_def split: if_splits)
qed

section \<open>Properties\<close>

text \<open>
  C3: whenever the future of an accepted asynchronous operation is found done, under every interleaving
  with I/O threads and other submitters, it holds a result of that operation: a negated error, for a
  write the whole size, for a read the number of bytes of the requested range that the file's extents
  map.
\<close>

theorem async_result_exact:
  assumes "submit_async_op others r p s = Some (e, s1)" "err e = OPENDS_SUCCESS" "aisio_ok s" "\<not> aisio_busy s p"
    and "\<forall>f \<in> set others. \<forall>s. (homi_step H {p})\<^sup>*\<^sup>* s (f s)" "(homi_step H {p})\<^sup>*\<^sup>* s1 s2" "fut_done (aisio_fut s2 p)"
    and "\<forall>d h. fst s = Some d \<longrightarrow> r_fh r = Some h \<longrightarrow> request_fits (geo d) H r h"
  shows "\<exists>h. r_fh r = Some h \<and> result_ok H r h (fut_result (aisio_fut s2 p))"
  by (rule submit_result [OF assms])

text \<open>
  C33: a synchronous read that returns has left no operation behind that would write its stack frame, and
  returns a negated error or the number of bytes of the requested range that the file's extents map,
  whatever the I/O threads and other callers have done in between.
\<close>

theorem sync_read_exact:
  assumes "opends_sync_read submit_async_op aisio_fut others waits fh buf len off boff p s = Some (x, s')"
    and "aisio_ok s" "p \<notin># sys_futs s" "p \<noteq> 0"
    and "\<forall>f \<in> set others. \<forall>s. (homi_step H {p})\<^sup>*\<^sup>* s (f s)" "\<forall>f \<in> set waits. \<forall>s. (homi_step H {p})\<^sup>*\<^sup>* s (f s)"
    and "\<forall>d h. fst s = Some d \<longrightarrow> fh = Some h \<longrightarrow> geo_ok (geo d) \<and> (\<forall>es. H h = Inr es \<longrightarrow> extents_ok (geo d) es)"
    and "unat (buf + boff) + unat len < 2 ^ 64"
  shows "p \<notin># sys_futs s' \<and>
    ((\<exists>e. e \<noteq> OPENDS_SUCCESS \<and> x = neg_err e) \<or>
     (\<exists>h es. fh = Some h \<and> H h = Inr es \<and> x = of_nat (mapped_bytes (unat off) (unat off + unat len) es)))"
proof -
  let ?r = "\<lparr>r_write = False, r_fh = fh, r_buf = buf, r_size = len, r_file_offset = off, r_buf_offset = boff\<rparr>"
  have "\<forall>d h. fst s = Some d \<longrightarrow> r_fh ?r = Some h \<longrightarrow> request_fits (geo d) H ?r h"
    using assms(7,8) by (simp add: request_fits_def)
  from sync_result [OF assms(1) [unfolded opends_sync_read_def] assms(2-6) this] show ?thesis
    by (auto simp: result_ok_def)
qed

text \<open>
  C39: what a synchronous call of the aisio backend returns is what opends.h says of it: a byte count
  between 0 and the size asked for, or a negated status code, which \<open>IS_OPENDS_ERR\<close> recognises and of
  which \<open>OPENDS_ERRSTR\<close> gives the message. No value is both.
\<close>

theorem sync_results_typed:
  assumes "opends_sync_read submit_async_op aisio_fut others waits fh buf len off boff p s = Some (x, s') \<or>
      opends_sync_write submit_async_op aisio_fut others waits fh buf len off boff p s = Some (x, s')"
    and "aisio_ok s" "p \<notin># sys_futs s" "p \<noteq> 0"
    and "\<forall>f \<in> set others. \<forall>s. (homi_step H {p})\<^sup>*\<^sup>* s (f s)" "\<forall>f \<in> set waits. \<forall>s. (homi_step H {p})\<^sup>*\<^sup>* s (f s)"
    and "\<forall>d h. fst s = Some d \<longrightarrow> fh = Some h \<longrightarrow> geo_ok (geo d) \<and> (\<forall>es. H h = Inr es \<longrightarrow> extents_ok (geo d) es)"
    and "unat (buf + boff) + unat len < 2 ^ 64" "unat len < 2 ^ 63" "fst s = Some d"
  shows "if 0 \<le> sint x then sint x \<le> int (unat len)
    else IS_OPENDS_ERR (sint x) \<and> (\<exists>e. e \<noteq> OPENDS_SUCCESS \<and> OPENDS_ERRSTR (sint x) = op_message e)"
proof -
  obtain w where run: "(case submit_async_op others \<lparr>r_write = w, r_fh = fh, r_buf = buf, r_size = len, r_file_offset = off,
        r_buf_offset = boff\<rparr> p s of
        None \<Rightarrow> None
      | Some (e, s1) \<Rightarrow>
          if err e \<noteq> OPENDS_SUCCESS then Some (neg_err (err e), s1)
          else opends_async_await aisio_fut waits p s1) = Some (x, s')"
    using assms(1) unfolding opends_sync_read_def opends_sync_write_def by blast
  define r where "r = \<lparr>r_write = w, r_fh = fh, r_buf = buf, r_size = len, r_file_offset = off, r_buf_offset = boff\<rparr>"
  have fits: "request_fits (geo d) H r h" if "r_fh r = Some h" for h
    using that assms(7,8,10) by (simp add: request_fits_def r_def)
  have "(\<exists>e. e \<noteq> OPENDS_SUCCESS \<and> x = neg_err e) \<or> (\<exists>h. r_fh r = Some h \<and> result_ok H r h x)"
    using sync_result [OF run [folded r_def] assms(2-6)] fits assms(10) by simp
  then have "(\<exists>e. e \<noteq> OPENDS_SUCCESS \<and> x = neg_err e) \<or> 0 \<le> sint x \<and> sint x \<le> int (unat len)"
    using result_ok_size [OF _ fits] assms(9) by (auto simp: r_def)
  then show ?thesis
  proof (elim disjE exE conjE)
    fix e assume e: "e \<noteq> OPENDS_SUCCESS" "x = neg_err e"
    then have "sint x < 0"
      using op_code_range [of e] by (auto simp: sint_neg_err)
    then show ?thesis
      using errstr_of_code [OF e(1)] e by (auto simp: sint_neg_err)
  qed simp
qed

section \<open>Examples\<close>

text \<open>A driver with one worker and an empty queue; each turn of the wait is a pass of its thread.\<close>

definition reader_sys :: "opends_stream list \<Rightarrow> aisio_sys" where
  "reader_sys ss = (Some \<lparr>workers = [zero_worker], rr_next = 0, workers_ready = True, geo = demo_geo\<rparr>,
     idle_world\<lparr>streams := ss\<rparr>)"

definition reader_env :: visit_env where
  "reader_env = \<lparr>v_read = \<lparr>re_alloc = 65536, re_extents = (\<lambda>_. Inr demo_extents), re_attempts = [Accept]\<rparr>,
     v_copy = (\<lambda>_ _ _ m. (0, m)), v_write = (\<lambda>_ (p, n, x). int (unat n)), v_others = [(0, 0, False)]\<rparr>"

definition pass_turn :: "aisio_sys \<Rightarrow> aisio_sys" where
  "pass_turn s =
     (case s of
        (Some d, wd) \<Rightarrow>
          if workers d = [] then s
          else (case io_pass (geo d) (\<lambda>_. reader_env) [] False (queue_head (workers d ! 0)) (workers d ! 0) wd of
                  None \<Rightarrow> s
                | Some (leave, w', wd') \<Rightarrow> (Some (d\<lparr>workers := (workers d)[0 := w']\<rparr>), wd'))
      | (None, wd) \<Rightarrow> s)"

lemma pass_turn_step: "(homi_step (\<lambda>_. Inr demo_extents) F)\<^sup>*\<^sup>* s (pass_turn s)"
proof -
  have "homi_step (\<lambda>_. Inr demo_extents) F (Some d, wd) (Some (d\<lparr>workers := (workers d)[0 := w']\<rparr>), wd')"
    if "workers d \<noteq> []" "io_pass (geo d) (\<lambda>_. reader_env) [] False (queue_head (workers d ! 0)) (workers d ! 0) wd = Some (leave, w', wd')"
    for d wd leave w' wd'
    using that head_index [of "workers d ! 0"]
    by (intro env_step.pass [where n = "ring_len (workers d ! 0)" and env = "\<lambda>_. reader_env"]) (auto simp: obeys_def reader_env_def)
  then show ?thesis
    by (auto simp: pass_turn_def split: option.splits prod.splits)
qed

lemma zero_worker_idle: "worker_futs zero_worker = {#}" "worker_ok zero_worker"
proof -
  show "worker_futs zero_worker = {#}"
    by (simp add: worker_futs_def zero_worker_def zero_slot_def zero_op_def fut_of_def)
  have "state_at zero_worker i = FILE_OP_FREE" for i
    using slot_of_less [of i] by (simp add: state_at_def slot_at_def zero_worker_def queue_size zero_slot_def zero_op_def)
  then show "worker_ok zero_worker"
    by (auto simp: worker_ok_def ring_ok_def ring_len_def op_shape_def zero_worker_def zero_slot_def zero_op_def)
qed

lemma reader_sys_ok: "aisio_ok (reader_sys ss)" "sys_futs (reader_sys ss) = {#}"
  by (auto simp: aisio_ok_def driver_ok_def sys_futs_def driver_futs_def reader_sys_def zero_worker_idle)

definition reader_run :: "registered_file \<Rightarrow> opends_stream list \<Rightarrow> (u64 \<times> aisio_sys) option" where
  "reader_run h ss = opends_sync_read submit_async_op aisio_fut [] [pass_turn, pass_turn] (Some h) 8192 512 0 0 8 (reader_sys ss)"

lemma reader_value: "map_option (\<lambda>(x, s). (x, mem (snd s) i)) (reader_run h ss) = Some (512, 0)"
  by code_simp


text \<open>The same read through the asynchronous call: two passes later its future holds the result.\<close>

definition reader_req :: async_request where
  "reader_req = \<lparr>r_write = False, r_fh = Some \<lparr>fd = 3, oflags = 0\<rparr>, r_buf = 8192, r_size = 512, r_file_offset = 0, r_buf_offset = 0\<rparr>"

definition reader_async :: "(opends_error \<times> aisio_sys) option" where
  "reader_async = submit_async_op [] reader_req 8 (reader_sys [])"

lemma reader_async_value:
  "map_option (\<lambda>(e, s). (err e, aisio_fut (pass_turn (pass_turn s)) 8)) reader_async =
    Some (OPENDS_SUCCESS, \<lparr>fut_done = True, fut_result = 512\<rparr>)"
  by code_simp


section \<open>The properties at the example\<close>

lemma reader_turns: "\<forall>f \<in> set [pass_turn, pass_turn]. \<forall>s. (homi_step (\<lambda>_. Inr demo_extents) {8})\<^sup>*\<^sup>* s (f s)"
  using pass_turn_step by simp

lemma reader_driver: "fst (reader_sys ss) = Some d \<Longrightarrow> geo d = demo_geo"
  by (auto simp: reader_sys_def)

lemma reader_not_busy: "\<not> aisio_busy (reader_sys ss) p"
  by (simp add: aisio_busy_def reader_sys_ok)

lemma size_not_error: "(512 :: u64) \<noteq> neg_err e"
  by (cases e) (simp_all add: neg_err_def)

lemma async_result_exact_witness:
  "\<exists>e s1. reader_async = Some (e, s1) \<and> result_ok (\<lambda>_. Inr demo_extents) reader_req \<lparr>fd = 3, oflags = 0\<rparr> 512 \<and>
     fut_result (aisio_fut (pass_turn (pass_turn s1)) 8) = 512"
proof -
  obtain e s1 where run: "reader_async = Some (e, s1)"
    and v: "err e = OPENDS_SUCCESS" "aisio_fut (pass_turn (pass_turn s1)) 8 = \<lparr>fut_done = True, fut_result = 512\<rparr>"
    using reader_async_value by (cases reader_async) auto
  have steps: "(homi_step (\<lambda>_. Inr demo_extents) {8})\<^sup>*\<^sup>* s1 (pass_turn (pass_turn s1))"
    using pass_turn_step by (meson rtranclp_trans)
  have "\<forall>d h. fst (reader_sys []) = Some d \<longrightarrow> r_fh reader_req = Some h \<longrightarrow> request_fits (geo d) (\<lambda>_. Inr demo_extents) reader_req h"
    using reader_driver demo_geo_ok(1) demo_extents_ok by (auto simp: request_fits_def reader_req_def)
  from async_result_exact [OF run [unfolded reader_async_def] v(1) reader_sys_ok(1) reader_not_busy _ steps _ this]
  have "result_ok (\<lambda>_. Inr demo_extents) reader_req \<lparr>fd = 3, oflags = 0\<rparr> 512"
    using v(2) by (simp add: reader_req_def)
  moreover have "fut_result (aisio_fut (pass_turn (pass_turn s1)) 8) = 512"
    using v(2) by simp
  ultimately show ?thesis
    using run by blast
qed

lemma sync_read_exact_witness:
  "\<exists>s'. reader_run \<lparr>fd = 3, oflags = 0\<rparr> [] = Some (512, s') \<and> 8 \<notin># sys_futs s' \<and> of_nat (mapped_bytes 0 512 demo_extents) = (512 :: u64)"
proof -
  obtain s' where run: "reader_run \<lparr>fd = 3, oflags = 0\<rparr> [] = Some (512, s')"
    using reader_value [of 0 "\<lparr>fd = 3, oflags = 0\<rparr>" "[]"] by (cases "reader_run \<lparr>fd = 3, oflags = 0\<rparr> []") auto
  from sync_read_exact [OF run [unfolded reader_run_def] reader_sys_ok(1) _ _ _ reader_turns]
  have "8 \<notin># sys_futs s' \<and> of_nat (mapped_bytes 0 512 demo_extents) = (512 :: u64)"
    using reader_driver demo_geo_ok(1) demo_extents_ok size_not_error by (auto simp: reader_sys_ok)
  then show ?thesis
    using run by blast
qed

lemma sync_results_typed_witness: "\<exists>x s'. reader_run \<lparr>fd = 3, oflags = 0\<rparr> [] = Some (x, s') \<and> x = 512 \<and> 0 \<le> sint x \<and> sint x \<le> int (unat (512 :: u64))"
proof -
  obtain s' where run: "reader_run \<lparr>fd = 3, oflags = 0\<rparr> [] = Some (512, s')"
    using reader_value [of 0 "\<lparr>fd = 3, oflags = 0\<rparr>" "[]"] by (cases "reader_run \<lparr>fd = 3, oflags = 0\<rparr> []") auto
  obtain d where d: "fst (reader_sys []) = Some d"
    by (simp add: reader_sys_def)
  from sync_results_typed [OF disjI1 [OF run [unfolded reader_run_def]] reader_sys_ok(1) _ _ _ reader_turns _ _ _ d]
  have "sint (512 :: u64) \<le> int (unat (512 :: u64))"
    using reader_driver demo_geo_ok(1) demo_extents_ok by (auto simp: reader_sys_ok)
  moreover have "0 \<le> sint (512 :: u64)"
    by code_simp
  ultimately show ?thesis
    using run by blast
qed

end
