(* ===== verification/Async_Liveness.thy ===== *)
theory Async_Liveness
  imports Async_Results
begin

text \<open>
  Every operation that the aisio backend accepts is completed, as long as its I/O threads go on and the
  device completes the commands it has taken. Runs are infinite sequences of states; the fairness of a
  run is stated in its definition's terms, and the operation is followed in the slot that holds it.
\<close>

section \<open>The slot that holds an operation\<close>

text \<open>Slot \<open>k\<close> of worker \<open>i\<close> holds the operation \<open>q\<close>, whose future is at \<open>p\<close>.\<close>

definition held_at :: "ptr \<Rightarrow> nat \<Rightarrow> nat \<Rightarrow> qop \<Rightarrow> aisio_sys \<Rightarrow> bool" where
  "held_at p i k q s \<longleftrightarrow>
     (\<exists>d. fst s = Some d \<and> i < length (workers d) \<and> k < 1024 \<and> q = file_op_queue (workers d ! i) ! k \<and> p \<in># fut_of q)"

lemma aisio_ok_worker:
  assumes "aisio_ok s" "fst s = Some d" "i < length (workers d)"
  shows "worker_ok (workers d ! i)" "length (file_op_queue (workers d ! i)) = 1024"
proof -
  show ok: "worker_ok (workers d ! i)"
    using assms by (simp add: aisio_ok_def driver_ok_def)
  then show "length (file_op_queue (workers d ! i)) = 1024"
    by (simp add: worker_ok_def ring_ok_def queue_size)
qed

lemma sum_two:
  fixes f :: "nat \<Rightarrow> nat"
  assumes "sum f {..<n} \<le> 1" "i < n" "j < n" "0 < f i" "0 < f j"
  shows "i = j"
proof (rule ccontr)
  assume "i \<noteq> j"
  moreover have "sum f {i, j} \<le> sum f {..<n}"
    using assms(2,3) by (intro sum_mono2) auto
  ultimately show False
    using assms by simp
qed

lemma count_driver_futs: "count (driver_futs d) p = (\<Sum>i < length (workers d). count (worker_futs (workers d ! i)) p)"
  by (simp add: driver_futs_def sum_list_sum_nth count_sum atLeast0LessThan)

lemma slot_fut_le: "k < length (file_op_queue w) \<Longrightarrow> count (fut_of (file_op_queue w ! k)) p \<le> count (worker_futs w) p"
  unfolding worker_futs_def by (rule count_le_sum) simp

text \<open>No two slots hold operations with the same future, and one does if the future is busy.\<close>

lemma held_unique:
  assumes ok: "aisio_ok s" and h: "held_at p i k q s" "held_at p j l q' s"
  shows "i = j \<and> k = l \<and> q = q'"
proof -
  obtain d where d: "fst s = Some d"
    using h(1) by (auto simp: held_at_def)
  have i: "i < length (workers d)" "k < 1024" "p \<in># fut_of (file_op_queue (workers d ! i) ! k)"
    and j: "j < length (workers d)" "l < 1024" "p \<in># fut_of (file_op_queue (workers d ! j) ! l)"
    using h d by (auto simp: held_at_def)
  have len: "length (file_op_queue (workers d ! m)) = 1024" if "m < length (workers d)" for m
    by (rule aisio_ok_worker(2) [OF ok d that])
  have pos: "0 < count (worker_futs (workers d ! i)) p" "0 < count (worker_futs (workers d ! j)) p"
    using slot_fut_le [of k "workers d ! i" p] slot_fut_le [of l "workers d ! j" p] i j len
    by (simp_all flip: count_greater_zero_iff)
  have one: "(\<Sum>m < length (workers d). count (worker_futs (workers d ! m)) p) \<le> 1"
    using ok d by (simp add: aisio_ok_def sys_futs_def flip: count_driver_futs)
  have ij: "i = j"
    by (rule sum_two [OF one i(1) j(1) pos])
  have "count (worker_futs (workers d ! i)) p \<le> count (driver_futs d) p"
    unfolding driver_futs_def by (rule count_le_sum) (use i(1) in simp)
  then have "count (worker_futs (workers d ! i)) p = 1"
    using pos(1) one unfolding count_driver_futs [symmetric] by linarith
  then have "k = l"
    using one_slot [of "workers d ! i" p k l] i j len [OF i(1)] ij by simp
  then show ?thesis
    using h d ij by (auto simp: held_at_def)
qed

lemma held_busy:
  assumes "aisio_ok s"
  shows "aisio_busy s p \<longleftrightarrow> (\<exists>i k q. held_at p i k q s)"
proof
  assume "aisio_busy s p"
  then obtain d where d: "fst s = Some d" "p \<in># driver_futs d"
    by (auto simp: aisio_busy_def sys_futs_def split: option.splits)
  then have "\<exists>i < length (workers d). 0 < count (worker_futs (workers d ! i)) p"
    unfolding count_greater_zero_iff [symmetric] count_driver_futs
    by (metis (no_types, lifting) lessThan_iff not_gr_zero sum.neutral)
  then obtain i where i: "i < length (workers d)" "0 < count (worker_futs (workers d ! i)) p"
    by blast
  then have "\<exists>k < 1024. 0 < count (fut_of (file_op_queue (workers d ! i) ! k)) p"
    unfolding count_worker_futs aisio_ok_worker(2) [OF assms d(1) i(1)]
    by (metis (no_types, lifting) lessThan_iff not_gr_zero sum.neutral)
  then show "\<exists>i k q. held_at p i k q s"
    using d(1) i(1) by (auto simp: held_at_def)
next
  assume "\<exists>i k q. held_at p i k q s"
  then obtain d i k where h: "fst s = Some d" "i < length (workers d)" "k < 1024" "p \<in># fut_of (file_op_queue (workers d ! i) ! k)"
    by (auto simp: held_at_def)
  have "0 < count (worker_futs (workers d ! i)) p"
    using h(3,4) aisio_ok_worker(2) [OF assms h(1,2)] slot_fut_le [of k "workers d ! i" p] by (simp flip: count_greater_zero_iff)
  moreover have "count (worker_futs (workers d ! i)) p \<le> count (driver_futs d) p"
    unfolding driver_futs_def by (rule count_le_sum) (use h(2) in simp)
  ultimately have "0 < count (driver_futs d) p"
    by linarith
  then show "aisio_busy s p"
    using h(1) by (simp add: aisio_busy_def sys_futs_def)
qed

section \<open>What a step does to it\<close>

text \<open>Once in flight an operation stays there until it is completed, and once idle it stays idle.\<close>

definition proceeds :: "qop \<Rightarrow> qop \<Rightarrow> bool" where
  "proceeds q q' \<longleftrightarrow> (op_state (q_op q) = FILE_OP_IN_FLIGHT \<longrightarrow> op_state (q_op q') = FILE_OP_IN_FLIGHT \<and> (idle q \<longrightarrow> idle q'))"

lemma proceeds_refl [simp]: "proceeds q q"
  by (simp add: proceeds_def)

lemma proceeds_trans: "proceeds q q' \<Longrightarrow> proceeds q' q'' \<Longrightarrow> proceeds q q''"
  by (simp add: proceeds_def)

lemma fut_not_free: "p \<in># fut_of q \<Longrightarrow> op_state (q_op q) \<noteq> FILE_OP_FREE"
  by (auto simp: fut_of_def)

lemma visited_proceeds: "visited q q' \<Longrightarrow> p \<in># fut_of q' \<Longrightarrow> proceeds q q'"
  using fut_not_free [of p q'] by (cases "op_state (q_op q')") (auto simp: visited_def proceeds_def)

lemma poked_proceeds: "poked q q' \<Longrightarrow> proceeds q q'"
  by (simp add: poked_def proceeds_def)

text \<open>A pass, slot by slot.\<close>

lemma pass_slots:
  assumes run: "io_pass g env pokes stop (queue_tail w + of_nat n) w wd = Some (leave, w', wd')"
    and ok: "worker_ok w" and n: "n \<le> ring_len w" and k: "k < 1024"
  shows "if k \<in> window (queue_tail w) 0 n then visited (file_op_queue w ! k) (file_op_queue w' ! k)
    else poked (file_op_queue w ! k) (file_op_queue w' ! k)"
proof -
  obtain busy w1 where scan: "scan g env (queue_tail w + of_nat n) (queue_tail w) False w wd = Some (busy, w1, wd')"
    and w': "w' = retire (queue_tail w + of_nat n) w1 \<or> w' = worker_poke (lba_size g) pokes (retire (queue_tail w + of_nat n) w1)"
    using run unfolding io_pass_def Let_def by (auto split: option.splits if_splits)
  have ring: "ring_ok w"
    using ok by (simp add: worker_ok_def)
  have "n \<le> 1024" "queue_tail w = queue_tail w + of_nat 0"
    using n ring_okD(2) [OF ring] by simp_all
  then have rel: "slots_rel (\<lambda>s. if s \<in> window (queue_tail w) 0 n then visited else poked) w w1"
    using scan_slots [OF scan ok _ refl] by blast
  have "slots_rel (\<lambda>_. poked) (retire (queue_tail w + of_nat n) w1) w'"
    using w' poke_slots by (auto simp: slots_rel_def)
  then have "poked (file_op_queue w1 ! k) (file_op_queue w' ! k)"
    using k rel ring_okD(1) [OF ring] by (simp add: slots_rel_def retire_def)
  moreover have "(if k \<in> window (queue_tail w) 0 n then visited else poked) (file_op_queue w ! k) (file_op_queue w1 ! k)"
    using rel k ring_okD(1) [OF ring] unfolding slots_rel_def by simp
  ultimately show ?thesis
    by (auto intro: visited_poked poked_trans split: if_splits)
qed

text \<open>What occupies a slot is an operation of the ring.\<close>

lemma slot_in_ring:
  assumes "ring_ok w" "k < 1024" "op_state (q_op (file_op_queue w ! k)) \<noteq> FILE_OP_FREE"
  shows "k \<in> window (queue_tail w) 0 (ring_len w)"
proof -
  define j where "j = (k + 1024 - slot_of (queue_tail w)) mod 1024"
  have "slot_of (queue_tail w + of_nat j) = (slot_of (queue_tail w) + (k + 1024 - slot_of (queue_tail w))) mod 1024"
    by (simp add: slot_of_add j_def mod_simps)
  then have k: "slot_of (queue_tail w + of_nat j) = k"
    using slot_of_less [of "queue_tail w"] assms(2) by simp
  have "j < ring_len w"
  proof (rule ccontr)
    assume "\<not> j < ring_len w"
    then have "state_at w (queue_tail w + of_nat j) = FILE_OP_FREE"
      using ring_okD(3) [OF assms(1), of j] by (simp add: j_def)
    then show False
      using assms(3) k by (simp add: state_at_def slot_at_def)
  qed
  then show ?thesis
    using k by (auto simp: window_def)
qed

lemma slot_kept:
  assumes "if b then visited q q' else poked q q'" "p \<in># fut_of q'"
  shows "p \<in># fut_of q \<and> proceeds q q'"
proof (cases b)
  case True
  then show ?thesis
    using assms visited_proceeds mset_subset_eqD [OF visited_fut, of q q' p] by simp
next
  case False
  then show ?thesis
    using assms poked_proceeds poked_fut [of q q'] by simp
qed

lemma held_keeps:
  assumes "\<And>k. k < 1024 \<Longrightarrow> p \<in># fut_of (file_op_queue w' ! k) \<Longrightarrow>
      p \<in># fut_of (file_op_queue w ! k) \<and> proceeds (file_op_queue w ! k) (file_op_queue w' ! k)"
    and "fst s = Some d" "fst s' = Some d'" "workers d' = (workers d)[i := w']" "w = workers d ! i"
    and "held_at p j k q' s'"
  shows "\<exists>q. held_at p j k q s \<and> proceeds q q'"
  using assms by (cases "i = j") (auto simp: held_at_def nth_list_update split: if_splits)

text \<open>A step leaves the operation in its slot, or completes it.\<close>

lemma step_held:
  assumes st: "aisio_step F s s'" and ok: "aisio_ok s" and p: "p \<in> F" and h: "held_at p j k q' s'"
  shows "\<exists>q. held_at p j k q s \<and> proceeds q q'"
  using st
proof (cases rule: env_step.cases)
  case (pass i d n env pokes stop wd leave w' wd')
  have w: "worker_ok (workers d ! i)"
    using aisio_ok_worker(1) [OF ok] pass(1,3) by simp
  have slot: "p \<in># fut_of (file_op_queue (workers d ! i) ! k) \<and> proceeds (file_op_queue (workers d ! i) ! k) (file_op_queue w' ! k)"
    if "k < 1024" "p \<in># fut_of (file_op_queue w' ! k)" for k
    by (rule slot_kept [OF pass_slots [OF pass(5) w pass(4) that(1)] that(2)])
  show ?thesis
    using held_keeps [OF slot, of s d s' "d\<lparr>workers := (workers d)[i := w']\<rparr>" i j k q'] pass(1,2) h by simp
next
  case (route d wd)
  then show ?thesis
    using h by (auto simp: held_at_def)
next
  case (publish i d m wd wr h' buf)
  have w: "worker_ok (workers d ! i)"
    using aisio_ok_worker(1) [OF ok] publish(1,3) by simp
  let ?w' = "publish_slot (fill_slot m wr h' buf (workers d ! i))"
  have slot: "p \<in># fut_of (file_op_queue (workers d ! i) ! k) \<and> proceeds (file_op_queue (workers d ! i) ! k) (file_op_queue ?w' ! k)"
    if k: "k < 1024" "p \<in># fut_of (file_op_queue ?w' ! k)" for k
  proof -
    have "k \<noteq> slot_of (queue_head (workers d ! i))"
    proof
      assume eq: "k = slot_of (queue_head (workers d ! i))"
      have "fut_of (file_op_queue ?w' ! k) = mode_futs m"
        using k(1) aisio_ok_worker(2) [OF ok, of d i] publish(1,3)
        by (simp add: eq publish_slot_def fill_slot_def set_slot_def slot_at_def fut_of_def upd_op_def fill_op_def mode_futs_def)
      then show False
        using k(2) p publish(5) by auto
    qed
    then show ?thesis
      using k(2) by (simp add: publish_slot_def fill_slot_def set_slot_def)
  qed
  show ?thesis
    using held_keeps [OF slot, of s d s' "publish_op i m wr h' buf d" i j k q'] publish(1,2) h by (simp add: publish_op_def)
next
  case (memory dp wd wd')
  then show ?thesis
    using h by (auto simp: held_at_def)
qed

lemma steps_held:
  assumes "(aisio_step F)\<^sup>*\<^sup>* s s'" "aisio_ok s" "p \<in> F" "held_at p j k q' s'"
  shows "\<exists>q. held_at p j k q s \<and> proceeds q q'"
  using assms(1,4)
proof (induction arbitrary: q' rule: rtranclp_induct)
  case base
  then show ?case
    by auto
next
  case (step s1 s2)
  have "aisio_ok s1"
    using aisio_steps_ok [OF step(1) assms(2)] by simp
  then show ?case
    using step_held [OF step(2) _ assms(3) step(4)] step(3) proceeds_trans by blast
qed

section \<open>A pass over the whole ring\<close>

text \<open>The thread of worker \<open>i\<close> has passed over everything in its ring.\<close>

definition full_pass :: "nat \<Rightarrow> aisio_sys \<Rightarrow> aisio_sys \<Rightarrow> bool" where
  "full_pass i s s' \<longleftrightarrow>
     (\<exists>d wd env pokes stop leave w' wd'. s = (Some d, wd) \<and> i < length (workers d) \<and>
        io_pass (geo d) env pokes stop (queue_head (workers d ! i)) (workers d ! i) wd = Some (leave, w', wd') \<and>
        s' = (Some (d\<lparr>workers := (workers d)[i := w']\<rparr>), wd'))"

lemma full_pass_step: "full_pass i s s' \<Longrightarrow> aisio_step F s s'"
  unfolding full_pass_def head_index by (fastforce intro: env_step.pass)

text \<open>What it leaves in the ring of the operations that it found is in flight and not idle before it.\<close>

lemma full_pass_held:
  assumes fp: "full_pass i s s'" and ok: "aisio_ok s" and h: "held_at p i k q s" "held_at p i k q' s'"
  shows "op_state (q_op q') = FILE_OP_IN_FLIGHT \<and> \<not> (op_state (q_op q) = FILE_OP_IN_FLIGHT \<and> idle q)"
proof -
  obtain d wd env pokes stop leave w' wd' where s: "s = (Some d, wd)" "i < length (workers d)"
    "io_pass (geo d) env pokes stop (queue_tail (workers d ! i) + of_nat (ring_len (workers d ! i))) (workers d ! i) wd = Some (leave, w', wd')"
    "s' = (Some (d\<lparr>workers := (workers d)[i := w']\<rparr>), wd')"
    using fp unfolding full_pass_def head_index by blast
  have w: "worker_ok (workers d ! i)"
    using aisio_ok_worker(1) [OF ok] s(1,2) by simp
  have q: "q = file_op_queue (workers d ! i) ! k" "q' = file_op_queue w' ! k" "k < 1024" "p \<in># fut_of q" "p \<in># fut_of q'"
    using h s by (auto simp: held_at_def)
  have "k \<in> window (queue_tail (workers d ! i)) 0 (ring_len (workers d ! i))"
    using slot_in_ring [of "workers d ! i" k] w q(1,3) fut_not_free [OF q(4)] by (simp add: worker_ok_def)
  then have v: "visited q q'"
    using pass_slots [OF s(3) w le_refl q(3)] by (simp add: q(1,2))
  obtain a where "op_mode (q_op q) = FILE_OP_ASYNC a"
    using q(4) by (cases "op_mode (q_op q)") (auto simp: fut_of_def split: if_splits)
  then show ?thesis
    using v fut_not_free [OF q(4)] fut_not_free [OF q(5)]
    by (cases "op_state (q_op q)"; cases "op_state (q_op q')") (auto simp: visited_def split: if_splits)
qed

section \<open>Runs\<close>

text \<open>
  A run of the system, for a caller that owns the future \<open>p\<close>. It is fair if every I/O thread makes a pass
  over its ring again and again, each of which returns, and if the device goes on completing commands,
  so that again and again none of the operation's commands is in flight.
\<close>

definition homi_run :: "homi_extents \<Rightarrow> ptr \<Rightarrow> (nat \<Rightarrow> aisio_sys) \<Rightarrow> bool" where
  "homi_run H p S \<longleftrightarrow> (\<forall>k. (homi_step H {p})\<^sup>*\<^sup>* (S k) (S (Suc k)))"

definition threads_go_on :: "(nat \<Rightarrow> aisio_sys) \<Rightarrow> bool" where
  "threads_go_on S \<longleftrightarrow>
     (\<forall>d i k. fst (S 0) = Some d \<longrightarrow> i < length (workers d) \<longrightarrow> (\<exists>k' \<ge> k. full_pass i (S k') (S (Suc k'))))"

definition drained :: "ptr \<Rightarrow> aisio_sys \<Rightarrow> bool" where
  "drained p s \<longleftrightarrow> (\<forall>i k q. held_at p i k q s \<longrightarrow> op_state (q_op q) = FILE_OP_IN_FLIGHT \<longrightarrow> q_inflight q = [])"

definition device_goes_on :: "ptr \<Rightarrow> (nat \<Rightarrow> aisio_sys) \<Rightarrow> bool" where
  "device_goes_on p S \<longleftrightarrow> (\<forall>k. \<exists>k' \<ge> k. drained p (S k'))"

lemma run_steps: "homi_run H p S \<Longrightarrow> k \<le> k' \<Longrightarrow> (homi_step H {p})\<^sup>*\<^sup>* (S k) (S k')"
proof (induction k' rule: nat_induct)
  case (Suc n)
  show ?case
  proof (cases "k = Suc n")
    case False
    then have "(homi_step H {p})\<^sup>*\<^sup>* (S k) (S n)"
      using Suc by simp
    moreover have "(homi_step H {p})\<^sup>*\<^sup>* (S n) (S (Suc n))"
      using Suc.prems(1) by (simp add: homi_run_def)
    ultimately show ?thesis
      by (rule rtranclp_trans)
  qed simp
qed simp

text \<open>An operation that is held for ever stays in one slot, where it only proceeds on.\<close>

lemma held_forever:
  assumes run: "homi_run H p S" and ok: "aisio_ok (S 0)" and busy: "\<forall>k. aisio_busy (S k) p"
  obtains i k Q where "\<And>n. held_at p i k (Q n) (S n)" "\<And>m n. m \<le> n \<Longrightarrow> proceeds (Q m) (Q n)"
proof -
  have oks: "aisio_ok (S n)" for n
    using aisio_steps_ok [OF env_steps_aisio [OF run_steps [OF run, of 0 n]] ok] by simp
  obtain i k q where h: "held_at p i k q (S 0)"
    using busy held_busy [OF ok] by blast
  have at: "\<exists>q. held_at p i k q (S n)" for n
  proof -
    obtain j l q' where h': "held_at p j l q' (S n)"
      using busy held_busy [OF oks] by blast
    then obtain q0 where "held_at p j l q0 (S 0)"
      using steps_held [OF env_steps_aisio [OF run_steps [OF run, of 0 n]] ok] by blast
    then show ?thesis
      using held_unique [OF ok h] h' by blast
  qed
  define Q where "Q n = file_op_queue (workers (the (fst (S n))) ! i) ! k" for n
  have Q: "held_at p i k (Q n) (S n)" for n
    using at [of n] by (auto simp: held_at_def Q_def)
  have "proceeds (Q m) (Q n)" if le: "m \<le> n" for m n
  proof -
    obtain q where "held_at p i k q (S m)" "proceeds q (Q n)"
      using steps_held [OF env_steps_aisio [OF run_steps [OF run le]] oks _ Q] by blast
    then show ?thesis
      using held_unique [OF oks _ Q] by blast
  qed
  then show thesis
    using that Q by blast
qed

text \<open>A started operation with nothing in flight is idle.\<close>

lemma started_idle:
  assumes "started H g q" "q_inflight q = []"
  shows "idle q"
proof -
  obtain q0 q1 pokes cs alloc x as as' where q: "fresh_op q0" "start_read_op g cs alloc x as q0 = Some (as', q1)"
    "q = queue_poke (lba_size g) pokes q1"
    using assms(1) by (auto simp: started_def)
  have "op_inv g q"
    unfolding q(3) by (intro poke_inv) (use start_read_op_inv [OF q(2) fresh_op_inv [OF q(1)]] in blast)
  then show ?thesis
    using assms(2) by (simp add: idle_def op_inv_def counters_ok_def chunks_of_def bounces_of_def)
qed

text \<open>What is held in flight for a tracked request has been started for it.\<close>

lemma held_started:
  assumes "(homi_step H {p})\<^sup>*\<^sup>* s s'" "aisio_ok s" "fst s = Some d" "request_fits (geo d) H r h" "sys_tracked H r h p s"
    and h: "held_at p i k q s'" "op_state (q_op q) = FILE_OP_IN_FLIGHT"
  shows "started H (geo d) q"
proof -
  have steps: "(aisio_step {p})\<^sup>*\<^sup>* s s'"
    by (rule env_steps_aisio [OF assms(1)])
  have ok: "aisio_ok s'"
    using aisio_steps_ok [OF steps assms(2)] by simp
  obtain d' where d': "fst s' = Some d'" "geo d' = geo d"
    using aisio_steps_setup [OF steps assms(3)] by (auto simp: same_setup_def)
  have "aisio_busy s' p"
    using h(1) held_busy [OF ok] by blast
  then obtain j l where j: "j < length (workers d')" "l < 1024" "carries H (geo d') r h p (file_op_queue (workers d' ! j) ! l)"
    using env_steps_tracked [OF assms(1,2) _ assms(3-5)] d'(1) by (auto simp: sys_tracked_def carried_def)
  then have "held_at p j l (file_op_queue (workers d' ! j) ! l) s'"
    using d'(1) carries_fut [OF j(3)] by (auto simp: held_at_def)
  then show ?thesis
    using held_unique [OF ok h(1)] j(3) h(2) d'(2) by (auto simp: carries_def)
qed

lemma not_busy_finished:
  assumes "sys_tracked H r h p s" "aisio_ok s" "\<not> aisio_busy s p"
  shows "finished H r h p (snd s)"
proof (rule ccontr)
  assume "\<not> finished H r h p (snd s)"
  then obtain d i k where c: "fst s = Some d" "i < length (workers d)" "k < 1024"
    "carries H (geo d) r h p (file_op_queue (workers d ! i) ! k)"
    using assms(1) by (auto simp: sys_tracked_def carried_def)
  then have "held_at p i k (file_op_queue (workers d ! i) ! k) s"
    using carries_fut [OF c(4)] by (auto simp: held_at_def)
  then show False
    using assms(2,3) held_busy by blast
qed

text \<open>In a fair run no operation is held for ever.\<close>

lemma fair_run_ends:
  assumes run: "homi_run H p S" and ok: "aisio_ok (S 0)" and fair: "threads_go_on S" "device_goes_on p S"
    and d: "fst (S 0) = Some d" "request_fits (geo d) H r h" and tr: "sys_tracked H r h p (S 0)"
  shows "\<exists>k. \<not> aisio_busy (S k) p"
proof (rule ccontr)
  assume "\<nexists>k. \<not> aisio_busy (S k) p"
  then have busy: "\<forall>k. aisio_busy (S k) p"
    by blast
  obtain i k Q where Q: "\<And>n. held_at p i k (Q n) (S n)" "\<And>m n. m \<le> n \<Longrightarrow> proceeds (Q m) (Q n)"
    by (rule held_forever [OF run ok busy]) blast
  have oks: "aisio_ok (S n)" for n
    using aisio_steps_ok [OF env_steps_aisio [OF run_steps [OF run, of 0 n]] ok] by simp
  have i: "i < length (workers d)"
    using Q(1) [of 0] d(1) by (auto simp: held_at_def)
  obtain a where a: "full_pass i (S a) (S (Suc a))"
    using fair(1) d(1) i unfolding threads_go_on_def by blast
  have fl: "op_state (q_op (Q n)) = FILE_OP_IN_FLIGHT" if "Suc a \<le> n" for n
    using full_pass_held [OF a oks Q(1) Q(1)] Q(2) [OF that] by (simp add: proceeds_def)
  obtain b where b: "Suc a \<le> b" "drained p (S b)"
    using fair(2) unfolding device_goes_on_def by blast
  have "started H (geo d) (Q b)"
    using held_started [OF run_steps [OF run, of 0 b] ok d tr Q(1) fl [OF b(1)]] by simp
  moreover have "q_inflight (Q b) = []"
    using b(2) Q(1) fl [OF b(1)] by (auto simp: drained_def)
  ultimately have idle: "idle (Q b)"
    by (rule started_idle)
  obtain c where c: "b \<le> c" "full_pass i (S c) (S (Suc c))"
    using fair(1) d(1) i unfolding threads_go_on_def by blast
  have "idle (Q c)"
    using idle Q(2) [OF c(1)] fl [OF b(1)] by (simp add: proceeds_def)
  then show False
    using full_pass_held [OF c(2) oks Q(1) Q(1)] fl [of c] b(1) c(1) by simp
qed

section \<open>Waiting\<close>

text \<open>The states in which a caller finds itself that waits while the run goes on.\<close>

definition run_waits :: "(nat \<Rightarrow> 's) \<Rightarrow> nat \<Rightarrow> nat \<Rightarrow> ('s \<Rightarrow> 's) list" where
  "run_waits S m n = map (\<lambda>k _. S (Suc k)) [m..<n]"

lemma await_run:
  assumes "p \<noteq> 0" "m \<le> n" "fut_done (fut (S n) p)"
  shows "\<exists>k. m \<le> k \<and> k \<le> n \<and> fut_done (fut (S k) p) \<and>
    opends_async_await fut (run_waits S m n) p (S m) = Some (fut_result (fut (S k) p), S k)"
  using assms(2)
proof (induction "n - m" arbitrary: m)
  case 0
  then show ?case
    using assms(1,3) by (intro exI [of _ m]) (simp add: opends_async_await.simps run_waits_def)
next
  case (Suc d)
  have waits: "run_waits S m n = (\<lambda>_. S (Suc m)) # run_waits S (Suc m) n"
    using Suc.hyps(2) by (simp add: run_waits_def upt_rec)
  show ?case
  proof (cases "fut_done (fut (S m) p)")
    case True
    then show ?thesis
      using assms(1) Suc.prems by (intro exI [of _ m]) (simp add: opends_async_await.simps)
  next
    case False
    have "d = n - Suc m" "Suc m \<le> n"
      using Suc.hyps(2) by simp_all
    from Suc.hyps(1) [OF this] show ?thesis
      using assms(1) False unfolding waits by (auto simp: opends_async_await.simps [of fut _ p "S m"] intro: Suc_leD)
  qed
qed

section \<open>The property\<close>

text \<open>
  C29: every accepted asynchronous operation is completed, and a caller that waits for it returns. As
  long as the I/O threads make passes over their rings again and again, each of which returns, and
  the device goes on completing the commands that it has accepted, the wait ends after finitely many
  polls with a result of the operation, whatever else is submitted, routed or completed meanwhile, and
  nothing will write the future again.
\<close>

theorem accepted_op_completes:
  assumes "submit_async_op others r p s = Some (e, S 0)" "err e = OPENDS_SUCCESS" "aisio_ok s" "\<not> aisio_busy s p"
    and "\<forall>f \<in> set others. \<forall>s. (homi_step H {p})\<^sup>*\<^sup>* s (f s)"
    and "\<forall>d h. fst s = Some d \<longrightarrow> r_fh r = Some h \<longrightarrow> request_fits (geo d) H r h"
    and "homi_run H p S" "threads_go_on S" "device_goes_on p S"
  shows "\<exists>n h x k. r_fh r = Some h \<and> opends_async_await aisio_fut (run_waits S 0 n) p (S 0) = Some (x, S k) \<and>
    result_ok H r h x \<and> \<not> aisio_busy (S k) p"
proof -
  have steps: "\<forall>f \<in> set others. \<forall>s. (aisio_step {p})\<^sup>*\<^sup>* s (f s)"
    using assms(5) env_steps_aisio by blast
  obtain h d d' where t: "r_fh r = Some h" "fst s = Some d" "fst (S 0) = Some d'" "geo d' = geo d" "sys_tracked H r h p (S 0)"
    using submit_tracked [OF assms(1-4) steps] by blast
  have ok: "aisio_ok (S 0)"
    using submit_async_op_ok [OF assms(1,3,4) _ steps] by blast
  have fits: "request_fits (geo d') H r h"
    using assms(6) t by simp
  have p: "p \<noteq> 0"
    using submit_cases(1) [OF assms(1,3) steps assms(4)] assms(2) t(2) by (auto split: if_splits)
  obtain n where n: "\<not> aisio_busy (S n) p"
    using fair_run_ends [OF assms(7) ok assms(8,9) t(3) fits t(5)] by blast
  note run = run_steps [OF assms(7), of 0]
  have tr: "sys_tracked H r h p (S k)" and okk: "aisio_ok (S k)" for k
    using env_steps_tracked [OF run ok _ t(3) fits t(5)] aisio_steps_ok [OF env_steps_aisio [OF run] ok] by simp_all
  have free: "\<not> aisio_busy (S k) p" if "fut_done (aisio_fut (S k) p)" for k
    using busy_not_done [OF okk [of k]] that by blast
  have "fut_done (aisio_fut (S n) p)"
    using not_busy_finished [OF tr okk n] by (simp add: finished_def aisio_fut_def)
  from await_run [of p 0 n aisio_fut S, OF p le0 this] obtain k where k: "fut_done (aisio_fut (S k) p)"
    "opends_async_await aisio_fut (run_waits S 0 n) p (S 0) = Some (fut_result (aisio_fut (S k) p), S k)"
    by blast
  then show ?thesis
    using t(1) done_result [OF okk tr k(1)] free [OF k(1)] by blast
qed

section \<open>Example\<close>

text \<open>The read of theory Async_Results: two passes complete it, from then on its thread finds nothing.\<close>

lemma empty_pass:
  assumes "queue_head w = queue_tail w"
  shows "io_pass g env pokes False (queue_head w) w wd = Some (False, w, wd)"
  by (simp add: io_pass_def scan.simps retire_def retire_loop.simps assms Let_def)

text \<open>A run that has come to rest with an empty ring is fair.\<close>

lemma at_rest_fair:
  assumes rest: "\<And>k. 2 \<le> k \<Longrightarrow> S k = (Some d, wd)" and ok: "aisio_ok (Some d, wd)"
    and d: "length (workers d) = 1" "queue_head (workers d ! 0) = queue_tail (workers d ! 0)"
      "\<And>d0. fst (S 0) = Some d0 \<Longrightarrow> same_setup d0 d"
    and fin: "fut_done (aisio_fut (Some d, wd) p)"
  shows "threads_go_on S" "device_goes_on p S"
proof -
  have full: "full_pass 0 (Some d, wd) (Some d, wd)"
    using d(1) empty_pass [OF d(2)] unfolding full_pass_def
    by (intro exI [of _ d] exI [of _ wd] exI [of _ "workers d ! 0"] exI) (auto simp: list_update_id)
  show "threads_go_on S"
    unfolding threads_go_on_def
  proof (intro allI impI)
    fix d0 i k
    assume "fst (S 0) = Some d0" "i < length (workers d0)"
    then have "i = 0"
      using d(1,3) by (auto simp: same_setup_def)
    then show "\<exists>k' \<ge> k. full_pass i (S k') (S (Suc k'))"
      using full rest by (intro exI [of _ "max k 2"]) simp
  qed
  have "drained p (Some d, wd)"
    using busy_not_done [OF ok] held_busy [OF ok] fin by (auto simp: drained_def)
  then show "device_goes_on p S"
    using rest unfolding device_goes_on_def by (metis max.cobounded1 max.cobounded2)
qed

definition reader_path :: "aisio_sys \<Rightarrow> nat \<Rightarrow> aisio_sys" where
  "reader_path s n = (if n = 0 then s else if n = 1 then pass_turn s else pass_turn (pass_turn s))"

lemma reader_ends:
  "map_option (\<lambda>(e, s). case pass_turn (pass_turn s) of
      (Some d, wd) \<Rightarrow> length (workers d) = 1 \<and> queue_head (workers d ! 0) = queue_tail (workers d ! 0)
    | (None, wd) \<Rightarrow> False) reader_async = Some True"
  by code_simp

theorem accepted_op_completes_witness:
  "\<exists>e s1 n x s2. reader_async = Some (e, s1) \<and>
     opends_async_await aisio_fut (run_waits (reader_path s1) 0 n) 8 s1 = Some (x, s2) \<and> \<not> aisio_busy s2 8"
proof -
  obtain e s1 where run: "reader_async = Some (e, s1)"
    and v: "err e = OPENDS_SUCCESS" "aisio_fut (pass_turn (pass_turn s1)) 8 = \<lparr>fut_done = True, fut_result = 512\<rparr>"
    using reader_async_value by (cases reader_async) auto
  obtain d wd where s2: "pass_turn (pass_turn s1) = (Some d, wd)" "length (workers d) = 1"
    "queue_head (workers d ! 0) = queue_tail (workers d ! 0)"
    using reader_ends [unfolded run] by (cases "pass_turn (pass_turn s1)") (auto split: option.splits)
  define S where "S = reader_path s1"
  have S: "S 0 = s1" "S (Suc 0) = pass_turn s1" "\<And>k. 2 \<le> k \<Longrightarrow> S k = (Some d, wd)"
    by (simp_all add: S_def reader_path_def s2(1))
  have hr: "homi_run (\<lambda>_. Inr demo_extents) 8 S"
    unfolding homi_run_def
  proof
    fix k :: nat
    consider "k = 0" | "k = Suc 0" | "2 \<le> k"
      by linarith
    then show "(homi_step (\<lambda>_. Inr demo_extents) {8})\<^sup>*\<^sup>* (S k) (S (Suc k))"
      by cases (use pass_turn_step s2(1) in \<open>simp_all add: S numeral_2_eq_2 flip: s2(1)\<close>)
  qed
  have step2: "(homi_step (\<lambda>_. Inr demo_extents) {8})\<^sup>*\<^sup>* s1 (Some d, wd)"
    using run_steps [OF hr, of 0 2] by (simp add: S)
  have sub: "submit_async_op [] reader_req 8 (reader_sys []) = Some (e, S 0)"
    using run by (simp add: reader_async_def S(1))
  have none: "\<forall>f \<in> set []. \<forall>s. (homi_step (\<lambda>_. Inr demo_extents) {8})\<^sup>*\<^sup>* s (f s)"
    "\<forall>f \<in> set []. \<forall>s. (aisio_step {8})\<^sup>*\<^sup>* s (f s)"
    by simp_all
  have "aisio_ok (S 0)"
    using submit_async_op_ok [OF sub reader_sys_ok(1) reader_not_busy _ none(2)] by blast
  then have ok2: "aisio_ok (Some d, wd)"
    using aisio_steps_ok [OF env_steps_aisio [OF step2]] S(1) by simp
  have "same_setup d0 d" if "fst (S 0) = Some d0" for d0
    using aisio_steps_setup [OF env_steps_aisio [OF step2]] that S(1) by auto
  then have "threads_go_on S" "device_goes_on 8 S"
    using at_rest_fair [of S d wd 8, OF S(3) ok2] s2 v(2) by auto
  moreover have fits: "\<forall>d h. fst (reader_sys []) = Some d \<longrightarrow> r_fh reader_req = Some h \<longrightarrow> request_fits (geo d) (\<lambda>_. Inr demo_extents) reader_req h"
    using reader_driver demo_geo_ok(1) demo_extents_ok by (auto simp: request_fits_def reader_req_def)
  ultimately obtain n x k where "opends_async_await aisio_fut (run_waits S 0 n) 8 (S 0) = Some (x, S k)" "\<not> aisio_busy (S k) 8"
    using accepted_op_completes [OF sub v(1) reader_sys_ok(1) reader_not_busy none(1) fits hr] by blast
  then show ?thesis
    using run S(1) unfolding S_def by metis
qed

end
