(* ===== verification/Demo.thy ===== *)
theory Demo
  imports Driver_Props Async_Results
begin

text \<open>
  The program examples/aisio_homi_demo.c on the aisio driver: it opens the driver, registers a file,
  reads it into memory of the accelerator and compares that with what the kernel reads of the file.
  The driver calls are those of the other theories. What CUDA, the kernel and the C library answer,
  and what the I/O threads do while the program waits, are in the record \<open>demo_calls\<close>. Messages are
  not modelled, and what the program still has when it exits early is left to the system.
\<close>

section \<open>The program\<close>

text \<open>
  \<open>dc_context\<close> is what \<open>cuCtxCreate\<close> stores, if it does, \<open>dc_pread\<close> the bytes that \<open>pread\<close> delivers for a
  number of bytes at offset 0, or nothing if it fails, and \<open>dc_future\<close> the address of the future in the
  stack frame of \<open>opends_sync_read\<close>.
\<close>

record demo_calls =
  dc_context :: "ptr option"
  dc_current :: "int \<times> ptr"
  dc_cuda :: cuda_memory
  dc_env :: environ
  dc_open :: open_answers
  dc_fd :: int
  dc_fstat :: int
  dc_size :: u64
  dc_flags :: int
  dc_handle :: ptr
  dc_buf :: ptr
  dc_future :: ptr
  dc_others :: "(aisio_sys \<Rightarrow> aisio_sys) list"
  dc_waits :: "(aisio_sys \<Rightarrow> aisio_sys) list"
  dc_got :: ptr
  dc_ref :: ptr
  dc_memcpy :: int
  dc_pread :: "nat \<Rightarrow> u8 list option"

text \<open>What the program itself holds, beside what the driver holds for it.\<close>

datatype demo_res = Cuda_Context ptr | File_Descriptor int | Heap_Block ptr

record demo_state =
  lib :: aisio_proc
  own :: "demo_res multiset"

definition heap_block :: "ptr \<Rightarrow> demo_res multiset" where
  "heap_block p = (if p = 0 then {#} else {#Heap_Block p#})"

definition gpu_bytes :: "aisio_proc \<Rightarrow> ptr \<Rightarrow> nat \<Rightarrow> u8 list" where
  "gpu_bytes P p n = map (\<lambda>i. mem (world P) (unat p + i)) [0..<n]"

text \<open>\<open>opends_sync_read\<close> on the whole process.\<close>

definition proc_sync_read ::
  "(aisio_sys \<Rightarrow> aisio_sys) list \<Rightarrow> (aisio_sys \<Rightarrow> aisio_sys) list \<Rightarrow> registered_file option \<Rightarrow> ptr \<Rightarrow> u64 \<Rightarrow> u64 \<Rightarrow> u64
    \<Rightarrow> ptr \<Rightarrow> aisio_proc \<Rightarrow> (u64 \<times> aisio_proc) option" where
  "proc_sync_read others waits fh buf len file_off buf_off p P =
     (case opends_sync_read submit_async_op aisio_fut others waits fh buf len file_off buf_off p (aisio_part P) of
        None \<Rightarrow> None
      | Some (x, a, wd) \<Rightarrow>
          Some (x, case (drv P, a) of (Some d, Some d') \<Rightarrow> put_part d d' wd P | _ \<Rightarrow> P\<lparr>world := wd\<rparr>))"

text \<open>The end of a run that has succeeded.\<close>

definition demo_finish :: "demo_calls \<Rightarrow> ptr \<Rightarrow> ptr \<Rightarrow> demo_state \<Rightarrow> (int \<times> demo_state) option" where
  "demo_finish c h gbuf s =
     (case opends_free gbuf (lib s) of
        None \<Rightarrow> None
      | Some P1 \<Rightarrow>
      (case opends_handle_deregister h P1 of
        None \<Rightarrow> None
      | Some P2 \<Rightarrow>
      (case opends_driver_close P2 of
        None \<Rightarrow> None
      | Some (_, P3) \<Rightarrow>
      (case dc_context c of
        None \<Rightarrow> None
      | Some ctx \<Rightarrow>
          Some (0, \<lparr>lib = P3, own = own s - {#Cuda_Context ctx#} - heap_block (dc_got c) - heap_block (dc_ref c) -
             {#File_Descriptor (dc_fd c)#}\<rparr>)))))"

text \<open>
  The comparison of what was read. After a mismatch the first 16 bytes of both blocks are printed,
  which are undefined if the blocks are shorter.
\<close>

definition demo_compare :: "demo_calls \<Rightarrow> ptr \<Rightarrow> ptr \<Rightarrow> nat \<Rightarrow> demo_state \<Rightarrow> (int \<times> demo_state) option" where
  "demo_compare c h gbuf n s =
     (let s1 = s\<lparr>own := own s + heap_block (dc_got c) + heap_block (dc_ref c)\<rparr>
      in if dc_got c = 0 \<or> dc_ref c = 0 then Some (1, s1)
         else if dc_memcpy c \<noteq> 0 then Some (1, s1)
         else case dc_pread c n of
                None \<Rightarrow> Some (1, s1)
              | Some bs \<Rightarrow>
                  if length bs \<noteq> n then Some (1, s1)
                  else if gpu_bytes (lib s) gbuf n = bs then demo_finish c h gbuf s1
                  else if n < 16 then None
                  else Some (1, s1))"

definition demo_main :: "string list \<Rightarrow> demo_calls \<Rightarrow> aisio_proc \<Rightarrow> (int \<times> demo_state) option" where
  "demo_main argv c P =
     (if length argv \<noteq> 2 then Some (2, \<lparr>lib = P, own = {#}\<rparr>)
      else
      let s0 = \<lparr>lib = P, own = (case dc_context c of None \<Rightarrow> {#} | Some ctx \<Rightarrow> {#Cuda_Context ctx#})\<rparr>
      in (case opends_driver_open (cuda_ctx_get (dc_current c)) (cuda_host_alloc_mapped (dc_cuda c)) (dc_env c) cuda_caps
          (dc_open c) P of
        None \<Rightarrow> None
      | Some (e, P1) \<Rightarrow>
      if err e \<noteq> OPENDS_SUCCESS then Some (1, s0\<lparr>lib := P1\<rparr>)
      else if dc_fd c < 0 then Some (1, s0\<lparr>lib := P1\<rparr>)
      else
      let s1 = s0\<lparr>own := add_mset (File_Descriptor (dc_fd c)) (own s0)\<rparr>
      in if dc_fstat c < 0 then Some (1, s1\<lparr>lib := P1\<rparr>)
      else (case opends_handle_register True (dc_fd c) (dc_flags c) (dc_handle c) P1 of (e, fh, P2) \<Rightarrow>
      if err e \<noteq> OPENDS_SUCCESS then Some (1, s1\<lparr>lib := P2\<rparr>)
      else (case fh of
        None \<Rightarrow> None
      | Some (h, file) \<Rightarrow>
      (case opends_alloc (dc_buf c) (dc_size c) P2 of (gbuf, P3) \<Rightarrow>
      if gbuf = 0 then Some (1, s1\<lparr>lib := P3\<rparr>)
      else (case proc_sync_read (dc_others c) (dc_waits c) (Some file) gbuf (dc_size c) 0 0 (dc_future c) P3 of
        None \<Rightarrow> None
      | Some (n, P4) \<Rightarrow>
      if sint n < 0 then Some (1, s1\<lparr>lib := P4\<rparr>)
      else demo_compare c h gbuf (unat n) (s1\<lparr>lib := P4\<rparr>)))))))"


section \<open>The length of the table of streams\<close>

text \<open>What runs while the program waits keeps it.\<close>

definition keeps_streams :: "(aisio_sys \<Rightarrow> aisio_sys) \<Rightarrow> bool" where
  "keeps_streams f \<longleftrightarrow> (\<forall>s. length (streams (snd (f s))) = length (streams (snd s)))"

lemma claim_streams:
  "claim_slot_locked others s = Some (i, d, wd) \<Longrightarrow> \<forall>f \<in> set others. keeps_streams f \<Longrightarrow>
    length (streams wd) = length (streams (snd s))"
  by (induction others s rule: claim_slot_locked.induct)
    (auto simp: claim_slot_locked.simps keeps_streams_def split: prod.splits if_splits list.splits)

lemma submit_streams:
  assumes "submit_async_op others r p s = Some (e, s')" "\<forall>f \<in> set others. keeps_streams f"
  shows "length (streams (snd s')) = length (streams (snd s))"
  using assms claim_streams
  by (fastforce simp: submit_async_op_def clear_future_def split: prod.splits option.splits if_splits)

lemma await_streams:
  assumes "opends_async_await aisio_fut waits p s = Some (x, s')" "\<forall>f \<in> set waits. keeps_streams f"
  shows "length (streams (snd s')) = length (streams (snd s))"
proof -
  define R :: "aisio_sys \<Rightarrow> aisio_sys \<Rightarrow> bool" where "R = (\<lambda>s t. length (streams (snd t)) = length (streams (snd s)))"
  have "\<forall>f \<in> set waits. \<forall>s. R\<^sup>*\<^sup>* s (f s)"
    using assms(2) by (auto simp: R_def keeps_streams_def)
  from await_steps [OF assms(1) this] have "R\<^sup>*\<^sup>* s s'" .
  then have "R s s'"
    by (induction rule: rtranclp_induct) (simp_all add: R_def)
  then show ?thesis
    by (simp add: R_def)
qed


section \<open>The synchronous read of a process\<close>

lemma submit_setup:
  assumes "submit_async_op others r p s = Some (e, s')" "aisio_ok s" "\<not> aisio_busy s p"
    and "\<forall>f \<in> set others. \<forall>s. (aisio_step F)\<^sup>*\<^sup>* s (f s)" "fst s = Some d"
  shows "\<exists>d'. fst s' = Some d' \<and> same_setup d d'"
proof (cases "err e = OPENDS_SUCCESS")
  case True
  then obtain h i d1 wd1 where s': "(aisio_step F)\<^sup>*\<^sup>* (aisio_reset p s) (Some d1, wd1)"
    "s' = (Some (publish_op i (async_mode r p) (r_write r) h (r_buf r) d1), wd1)"
    using submit_cases(3) [OF assms(1,2,4,3)] by blast
  show ?thesis
    using aisio_steps_setup [OF s'(1), of d] assms(5) s'(2) by (auto simp: aisio_reset_def same_setup_def publish_op_def)
qed (use submit_cases(2) [OF assms(1,2,4,3)] assms(5) in \<open>simp add: same_setup_def\<close>)

lemma sync_read_state:
  assumes run: "opends_sync_read submit_async_op aisio_fut others waits fh buf len off boff p s = Some (x, s')"
    and s: "aisio_ok s" "p \<notin># sys_futs s" "p \<noteq> 0" "fst s = Some d"
    and oth: "\<forall>f \<in> set others \<union> set waits. (\<forall>s. (homi_step H {p})\<^sup>*\<^sup>* s (f s)) \<and> keeps_streams f"
  shows "aisio_ok s' \<and> (\<exists>d'. fst s' = Some d' \<and> same_setup d d') \<and> length (streams (snd s')) = length (streams (snd s))"
proof -
  have free: "\<not> aisio_busy s p"
    using s(2) by (simp add: aisio_busy_def)
  have steps: "\<forall>f \<in> set others \<union> set waits. \<forall>s. (aisio_step {p})\<^sup>*\<^sup>* s (f s)"
    using oth env_steps_aisio by blast
  then have rest: "aisio.rest_ok {p} others" "aisio.rest_ok {p} waits"
    unfolding aisio.rest_ok_def by blast+
  define r where "r = \<lparr>r_write = False, r_fh = fh, r_buf = buf, r_size = len, r_file_offset = off, r_buf_offset = boff\<rparr>"
  note run' = run [unfolded opends_sync_read_def, folded r_def]
  from aisio.sync_ok [OF run' s(1) free s(3) _ rest] have ok: "aisio_ok s'"
    by simp
  obtain e s1 where sub: "submit_async_op others r p s = Some (e, s1)"
    and w: "if err e \<noteq> OPENDS_SUCCESS then s' = s1 else opends_async_await aisio_fut waits p s1 = Some (x, s')"
    using run' that by (fastforce split: option.splits if_splits)
  obtain d1 where d1: "fst s1 = Some d1" "same_setup d d1"
    using submit_setup [OF sub s(1) free _ s(4)] steps by blast
  have len: "length (streams (snd s1)) = length (streams (snd s))"
    using submit_streams [OF sub] oth by blast
  show ?thesis
  proof (cases "err e = OPENDS_SUCCESS")
    case True
    then have aw: "opends_async_await aisio_fut waits p s1 = Some (x, s')"
      using w by simp
    then have "(aisio_step {p})\<^sup>*\<^sup>* s1 s'"
      using steps by (intro await_steps [OF aw]) blast
    then show ?thesis
      using aisio_steps_setup [OF _ d1(1)] d1(2) ok await_streams [OF aw] oth len by (auto simp: same_setup_def)
  qed (use w d1 ok len in auto)
qed

lemma proc_sync_read_result:
  assumes run: "proc_sync_read others waits fh buf len off boff p P = Some (x, P')"
    and P: "proc_inv K P" "aisio_ok (aisio_part P)" "drv P = Some d" and p: "p \<notin># sys_futs (aisio_part P)" "p \<noteq> 0"
    and oth: "\<forall>f \<in> set others \<union> set waits. (\<forall>s. (homi_step H {p})\<^sup>*\<^sup>* s (f s)) \<and> keeps_streams f"
  shows "proc_inv K P' \<and> use_count P' = use_count P \<and> drv P' \<noteq> None \<and>
    opends_sync_read submit_async_op aisio_fut others waits fh buf len off boff p (aisio_part P) = Some (x, aisio_part P')"
proof -
  obtain a wd where sync: "opends_sync_read submit_async_op aisio_fut others waits fh buf len off boff p (aisio_part P) = Some (x, a, wd)"
    and P': "P' = (case (drv P, a) of (Some d, Some d') \<Rightarrow> put_part d d' wd P | _ \<Rightarrow> P\<lparr>world := wd\<rparr>)"
    using run by (auto simp: proc_sync_read_def split: option.splits)
  have part: "fst (aisio_part P) = Some (aisio_driver.truncate d)" "snd (aisio_part P) = world P"
    using P(3) by (simp_all add: aisio_part_def)
  from sync_read_state [OF sync P(2) p part(1) oth] obtain d' where d': "a = Some d'" "aisio_ok (Some d', wd)"
    "same_setup (aisio_driver.truncate d) d'" "length (streams wd) = length (streams (world P))"
    using part(2) by auto
  then show ?thesis
    using put_part_inv [OF P(1,3) d'(3,2,4)] sync P' P(3) by (simp add: put_part_def)
qed

section \<open>The end of the program\<close>

lemma demo_finish_result:
  assumes P: "proc_inv {#R_Handle h#} (lib s)" "drv (lib s) \<noteq> None" "use_count (lib s) = 1" "h \<noteq> 0"
  obtains P' where "drv P' = None" "holds P' = {#}" "use_count P' = 0" "world P' = world (lib s)"
    "demo_finish c h gbuf s = map_option (\<lambda>ctx. (0, \<lparr>lib = P', own = own s - {#Cuda_Context ctx#} - heap_block (dc_got c) -
       heap_block (dc_ref c) - {#File_Descriptor (dc_fd c)#}\<rparr>)) (dc_context c)"
proof -
  obtain P1 where P1: "opends_free gbuf (lib s) = Some P1" "proc_inv {#R_Handle h#} P1"
    using opends_free_inv [OF P(1)] by blast
  have part1: "aisio_part P1 = aisio_part (lib s)" "use_count P1 = 1"
    using buffer_part(2) [OF P1(1)] P(3) by simp_all
  have h: "R_Handle h \<in># holds P1"
    using P1(2) by (auto simp: proc_inv_def split: option.splits)
  obtain P2 where P2: "opends_handle_deregister h P1 = Some P2" "proc_inv {#} P2" "use_count P2 = 0" "aisio_part P2 = aisio_part P1"
    using handle_deregister_inv [OF P1(2) h P(4)] part1 by (auto simp: aisio_part_def)
  have "drv P2 \<noteq> None" and world: "world P2 = world (lib s)"
    using P(2) part1 P2(4) by (auto simp: aisio_part_def)
  then have "opends_driver_close P2 = Some (opends_ok, P2\<lparr>drv := None, holds := {#}\<rparr>)"
    using close_result [OF P2(2)] by auto
  then show thesis
    using P1(1) P2 world
    by (intro that [of "P2\<lparr>drv := None, holds := {#}\<rparr>"]) (auto simp: demo_finish_def split: option.splits)
qed

section \<open>Its beginning\<close>

lemma open_device_geo:
  "open_device a d H = Some (rc, d1, H1) \<Longrightarrow> 0 \<le> rc \<Longrightarrow>
    \<exists>x ns al. oa_dev a = Some (x, ns) \<and> open_device_geometry al x = Some (geo d1)"
  unfolding open_device_def Let_def by (auto simp: EIO_def split: option.splits if_splits) blast+

lemma workers_setup_geo: "workers_setup ctx_get host_alloc a d H = Some (0, d1, H1) \<Longrightarrow> geo d1 = geo d"
  by (auto simp: workers_setup_def Let_def split: option.splits prod.splits if_splits)

lemma opened_geometry:
  assumes run: "opends_driver_open ctx_get host_alloc env caps a P = Some (e, P')" "err e = OPENDS_SUCCESS" "drv P = None"
  shows "\<exists>d x ns al. drv P' = Some d \<and> oa_dev a = Some (x, ns) \<and> open_device_geometry al x = Some (geo d)"
proof -
  have "\<exists>d H rc d1 H1 d2 H2. open_device a d H = Some (rc, d1, H1) \<and> 0 \<le> rc \<and>
      workers_setup ctx_get host_alloc a d1 H1 = Some (0, d2, H2) \<and> drv P' = Some d2"
    using run unfolding opends_driver_open_def Let_def
    by (auto simp: opends_err_def opends_err_dev_def not_less split: option.splits sum.splits prod.splits if_splits) blast
  then show ?thesis
    using open_device_geo workers_setup_geo by metis
qed

definition demo_turns :: "homi_extents \<Rightarrow> demo_calls \<Rightarrow> bool" where
  "demo_turns H c \<longleftrightarrow> dc_future c \<noteq> 0 \<and>
     (\<forall>f \<in> set (dc_others c) \<union> set (dc_waits c). (\<forall>s. (homi_step H {dc_future c})\<^sup>*\<^sup>* s (f s)) \<and> keeps_streams f)"

definition demo_file :: "demo_calls \<Rightarrow> registered_file" where
  "demo_file c = \<lparr>fd = dc_fd c, oflags = of_int (dc_flags c)\<rparr>"

definition demo_fits :: "homi_extents \<Rightarrow> demo_calls \<Rightarrow> bool" where
  "demo_fits H c \<longleftrightarrow> unat (dc_buf c) + unat (dc_size c) < 2 ^ 64 \<and> unat (dc_size c) < 2 ^ 63 \<and>
     (\<forall>x ns al g es. oa_dev (dc_open c) = Some (x, ns) \<longrightarrow> open_device_geometry al x = Some g \<longrightarrow>
        H (demo_file c) = Inr es \<longrightarrow> extents_ok g es)"

text \<open>The process when the read begins.\<close>

lemma demo_ready:
  assumes cu: "cuda_memory_ok (dc_cuda c)"
    and o: "opends_driver_open (cuda_ctx_get (dc_current c)) (cuda_host_alloc_mapped (dc_cuda c)) (dc_env c) cuda_caps
      (dc_open c) (start_proc wd) = Some (e, P1)" "err e = OPENDS_SUCCESS"
    and h: "opends_handle_register True (dc_fd c) (dc_flags c) (dc_handle c) P1 = (e', Some (h, fl), P2)"
    and b: "opends_alloc (dc_buf c) (dc_size c) P2 = (gbuf, P3)" "gbuf \<noteq> 0"
  shows "h = dc_handle c \<and> h \<noteq> 0 \<and> fl = demo_file c \<and> gbuf = dc_buf c \<and> use_count P3 = 1 \<and>
    proc_inv {#R_Handle h#} P3 \<and> aisio_ok (aisio_part P3) \<and> sys_futs (aisio_part P3) = {#} \<and>
    (\<exists>d x ns al. drv P3 = Some d \<and> oa_dev (dc_open c) = Some (x, ns) \<and> open_device_geometry al x = Some (geo d) \<and> geo_ok (geo d))"
proof -
  have start: "foreign {#}" "drv (start_proc wd) = None" "holds (start_proc wd) = {#}" "use_count (start_proc wd) = 0"
    by (simp_all add: foreign_def start_proc_def)
  obtain d1 where d1: "proc_inv {#} P1" "drv P1 = Some d1" "workers d1 = replicate (n_workers d1) zero_worker" "use_count P1 = 0"
    using cudamem.driver_open_result [OF cu start(1-3), of "cuda_ctx_get (dc_current c)" "dc_env c" cuda_caps "dc_open c"] o start(4)
    by auto
  have ok1: "aisio_ok (aisio_part P1)" and futs1: "sys_futs (aisio_part P1) = {#}"
    using opened_part_ok [OF d1(1-3)] d1(2,3) zero_worker_idle(1)
    by (simp_all add: sys_futs_def aisio_part_def driver_futs_def aisio_driver.truncate_def)
  have reg: "h = dc_handle c" "h \<noteq> 0" "fl = demo_file c" "P2 = P1\<lparr>use_count := 1, holds := add_mset (R_Handle h) (holds P1)\<rparr>"
    using h d1(4) by (auto simp: opends_handle_register_def demo_file_def split: if_splits)
  have inv2: "proc_inv {#R_Handle h#} P2" and part2: "aisio_part P2 = aisio_part P1"
    using proc_inv_handle [OF d1(1), of h 1] reg(4) by (simp_all add: aisio_part_def)
  have inv3: "proc_inv {#R_Handle h#} P3"
    using opends_alloc_inv [OF inv2, of "dc_buf c" "dc_size c"] b(1) by simp
  have part3: "aisio_part P3 = aisio_part P1" "use_count P3 = 1"
    using buffer_part(1) [OF b(1)] part2 reg(4) by simp_all
  have "gbuf = dc_buf c"
    using b by (auto simp: opends_alloc_def split: option.splits if_splits)
  moreover obtain d3 where d3: "drv P3 = Some d3" "aisio_driver.truncate d3 = aisio_driver.truncate d1"
    using part3(1) d1(2) by (auto simp: aisio_part_def)
  moreover have "geo d3 = geo d1"
    using d3(2) by (simp add: aisio_driver.truncate_def)
  moreover have "geo_ok (geo d3)"
    using inv3 d3(1) by (simp add: proc_inv_def driver_inv_def)
  ultimately show ?thesis
    using reg inv3 part3 ok1 futs1 opened_geometry [OF o start(2)] d1(2) by auto
qed

section \<open>Properties\<close>

text \<open>
  What a run that ends with 0 has done: after the opening, the registration, the allocation and the
  read all have succeeded, the bytes are compared, and all is given back.
\<close>

lemma demo_main_success:
  assumes "demo_main argv c P = Some (0, s')"
  obtains e P1 e' h fl P2 gbuf P3 n P4 s bs where
    "opends_driver_open (cuda_ctx_get (dc_current c)) (cuda_host_alloc_mapped (dc_cuda c)) (dc_env c) cuda_caps
       (dc_open c) P = Some (e, P1)" "err e = OPENDS_SUCCESS"
    "opends_handle_register True (dc_fd c) (dc_flags c) (dc_handle c) P1 = (e', Some (h, fl), P2)"
    "opends_alloc (dc_buf c) (dc_size c) P2 = (gbuf, P3)" "gbuf \<noteq> 0"
    "proc_sync_read (dc_others c) (dc_waits c) (Some fl) gbuf (dc_size c) 0 0 (dc_future c) P3 = Some (n, P4)"
    "0 \<le> sint n" "dc_pread c (unat n) = Some bs" "length bs = unat n" "gpu_bytes P4 gbuf (unat n) = bs"
    "s = \<lparr>lib = P4, own = (case dc_context c of None \<Rightarrow> {#} | Some ctx \<Rightarrow> {#Cuda_Context ctx#}) +
       {#File_Descriptor (dc_fd c)#} + heap_block (dc_got c) + heap_block (dc_ref c)\<rparr>"
    "demo_finish c h gbuf s = Some (0, s')"
  using assms
  by (auto simp: demo_main_def demo_compare_def Let_def split: option.splits prod.splits if_splits)


lemma demo_read_bytes:
  assumes sync: "opends_sync_read submit_async_op aisio_fut (dc_others c) (dc_waits c) (Some (demo_file c)) (dc_buf c) (dc_size c) 0 0
      (dc_future c) s = Some (n, s')" "0 \<le> sint n"
    and s: "aisio_ok s" "dc_future c \<notin># sys_futs s" "fst s = Some d"
    and geo: "oa_dev (dc_open c) = Some (x, ns)" "open_device_geometry al x = Some (geo d)" "geo_ok (geo d)"
    and c: "demo_turns H c" "demo_fits H c"
  shows "\<exists>es. H (demo_file c) = Inr es \<and> unat n = mapped_bytes 0 (unat (dc_size c)) es \<and> unat n \<le> unat (dc_size c)"
proof -
  define r where "r = \<lparr>r_write = False, r_fh = Some (demo_file c), r_buf = dc_buf c, r_size = dc_size c, r_file_offset = 0, r_buf_offset = 0\<rparr>"
  have fits: "request_fits (geo d) H r (demo_file c)"
    using geo c(2) by (auto simp: request_fits_def demo_fits_def r_def)
  have "(\<exists>e. e \<noteq> OPENDS_SUCCESS \<and> n = neg_err e) \<or> result_ok H r (demo_file c) n"
    using sync_result [OF sync(1) [unfolded opends_sync_read_def, folded r_def] s(1,2), of H] c(1) s(3) fits
    by (auto simp: demo_turns_def) (simp add: r_def)
  moreover have "n \<noteq> neg_err e" if "e \<noteq> OPENDS_SUCCESS" for e
    using sync(2) that op_code_range [of e] by (auto simp: sint_neg_err)
  ultimately obtain es where es: "H (demo_file c) = Inr es" "n = of_nat (mapped_bytes 0 (unat (dc_size c)) es)"
    by (auto simp: result_ok_def r_def)
  have "extents_disjoint es"
    using c(2) geo(1,2) es(1) by (auto simp: demo_fits_def extents_ok_def)
  then have le: "mapped_bytes 0 (unat (dc_size c)) es \<le> unat (dc_size c)"
    using mapped_bytes_le [of es 0 "unat (dc_size c)"] by simp
  then have "unat n = mapped_bytes 0 (unat (dc_size c)) es"
    unfolding es(2) using unat_u64_bound [of "dc_size c"] by (simp add: unsigned_of_nat take_bit_nat_eq_self)
  then show ?thesis
    using es(1) le by auto
qed



text \<open>
  The program opens its file without \<open>O_DIRECT\<close>: it then never ends with 0, and reads nothing.
\<close>

lemma demo_refused:
  assumes "cuda_memory_ok (dc_cuda c)" "of_int (dc_flags c) AND O_DIRECT = 0"
  shows "\<exists>rc s'. demo_main argv c (start_proc wd) = Some (rc, s') \<and> rc \<in> {1, 2} \<and> mem (world (lib s')) = mem wd"
proof -
  have start: "foreign {#}" "drv (start_proc wd) = None" "holds (start_proc wd) = {#}" "world (start_proc wd) = wd"
    by (simp_all add: foreign_def start_proc_def)
  obtain e P1 where o: "opends_driver_open (cuda_ctx_get (dc_current c)) (cuda_host_alloc_mapped (dc_cuda c)) (dc_env c) cuda_caps
       (dc_open c) (start_proc wd) = Some (e, P1)"
    using cudamem.driver_open_result [OF assms(1) start(1-3), of "cuda_ctx_get (dc_current c)" "dc_env c" cuda_caps "dc_open c"] by blast
  have "mem (world P1) = mem wd"
    using o start(4) unfolding opends_driver_open_def Let_def
    by (auto split: option.splits sum.splits prod.splits if_splits)
  moreover have "\<exists>e. opends_handle_register True (dc_fd c) (dc_flags c) (dc_handle c) P1 = (e, None, P1) \<and> err e \<noteq> OPENDS_SUCCESS"
    using assms(2) by (auto simp: opends_handle_register_def opends_err_def)
  ultimately show ?thesis
    using o start(4) by (auto simp: demo_main_def Let_def)
qed

section \<open>A run\<close>

definition demo_run :: demo_calls where
  "demo_run = \<lparr>dc_context = Some 77, dc_current = (0, 77), dc_cuda = demo_cuda, dc_env = demo_environ,
     dc_open = demo_answers\<lparr>oa_dev := Some (\<lparr>geo_lba_nbytes = 512, geo_nbytes = 0, geo_mdts_nbytes = 1024\<rparr>, 1)\<rparr>,
     dc_fd = 3, dc_fstat = 0, dc_size = 512, dc_flags = 16384, dc_handle = 16, dc_buf = 8192, dc_future = 8, dc_others = [],
     dc_waits = [pass_turn, pass_turn], dc_got = 24, dc_ref = 32, dc_memcpy = 0, dc_pread = (\<lambda>n. Some (replicate n 0))\<rparr>"

lemma demo_run_simps:
  "dc_context demo_run = Some 77" "dc_current demo_run = (0, 77)" "dc_cuda demo_run = demo_cuda" "dc_env demo_run = demo_environ"
  "dc_fd demo_run = 3" "dc_fstat demo_run = 0" "dc_size demo_run = 512" "dc_flags demo_run = 16384" "dc_handle demo_run = 16"
  "dc_buf demo_run = 8192" "dc_future demo_run = 8" "dc_others demo_run = []" "dc_waits demo_run = [pass_turn, pass_turn]"
  "dc_got demo_run = 24" "dc_ref demo_run = 32" "dc_memcpy demo_run = 0" "dc_pread demo_run n = Some (replicate n 0)"
  by (simp_all add: demo_run_def)

lemma pass_turn_keeps: "keeps_streams pass_turn"
  by (auto simp: keeps_streams_def pass_turn_def dest: io_pass_streams split: option.splits prod.splits)

lemma demo_run_turns: "demo_turns (\<lambda>_. Inr demo_extents) demo_run"
  using pass_turn_step pass_turn_keeps by (simp add: demo_turns_def demo_run_def)

lemma demo_run_geo:
  "open_device_geometry al \<lparr>geo_lba_nbytes = 512, geo_nbytes = 0, geo_mdts_nbytes = 1024\<rparr> = Some (demo_geo\<lparr>assume_aligned_only := al\<rparr>)"
  by (simp add: open_device_geometry_def demo_geo_def) code_simp

lemma demo_run_fits: "demo_fits (\<lambda>_. Inr demo_extents) demo_run"
  using demo_extents_ok by (simp add: demo_fits_def demo_run_def demo_answers_def demo_run_geo extents_ok_def ext_ok_def lba_bytes_def)

lemma demo_run_opens:
  obtains P d where "opends_driver_open (cuda_ctx_get (0, 77)) (cuda_host_alloc_mapped demo_cuda) demo_environ cuda_caps
     (dc_open demo_run) (start_proc idle_world) = Some (opends_ok, P)"
    "drv P = Some d" "xdev d" "bufs d = []" "aisio_part P = reader_sys (replicate MAX_STREAMS zero_stream)"
proof -
  obtain c where c: "read_env_config demo_environ cuda_caps = Inr c" "n_io_threads c = 1" "\<not> cfg_aligned_only c"
    by (simp add: read_env_config_def demo_environ_def cuda_caps_def env_int_def strtol10_def is_space_def
        digit_in_def digits_value_def env_spin_def env_mask_def env_aligned_def clamp_def
        DEFAULT_IO_THREADS_def MAX_IO_THREADS_def DEFAULT_QUEUE_DEPTH_def MAX_QUEUE_DEPTH_def DEFAULT_IDLE_SPIN_US_def
        MAX_IDLE_SPIN_US_def)
  have dev: "demo_environ ''OPENDS_HOMI_DEV'' = Some ''0000:01:00.0''"
    by (simp add: demo_environ_def)
  have geo: "demo_geo\<lparr>assume_aligned_only := False\<rparr> = demo_geo"
    by (simp add: demo_geo_def)
  show thesis
    using c geo that
    by (auto simp: opends_driver_open_def start_proc_def dev demo_run_def demo_answers_def open_device_def Let_def demo_run_geo
        workers_setup_def cuda_ctx_get_def cuda_host_alloc_mapped_def demo_cuda_def n_workers_def new_driver_def aisio_part_def
        reader_sys_def aisio_driver.truncate_def)
qed


lemma demo_run_ends: "\<exists>s'. demo_main [''demo'', ''/mnt/f''] demo_run (start_proc idle_world) = Some (0, s')"
proof -
  obtain P1 d where o: "opends_driver_open (cuda_ctx_get (0, 77)) (cuda_host_alloc_mapped demo_cuda) demo_environ cuda_caps
      (dc_open demo_run) (start_proc idle_world) = Some (opends_ok, P1)"
    and d: "drv P1 = Some d" "xdev d" "bufs d = []" "aisio_part P1 = reader_sys (replicate MAX_STREAMS zero_stream)"
    by (rule demo_run_opens)
  define h where "h = \<lparr>fd = 3, oflags = 16384\<rparr>"
  define P2 where "P2 = P1\<lparr>use_count := use_count P1 + 1, holds := add_mset (R_Handle 16) (holds P1)\<rparr>"
  have reg: "opends_handle_register True 3 16384 16 P1 = (opends_ok, Some (16, h), P2)"
    using d(1) by (simp add: opends_handle_register_def O_DIRECT_def P2_def h_def)
  have al: "opends_alloc 8192 512 P2 = (8192, snd (opends_alloc 8192 512 P2))"
    using d(1-3) by (simp add: opends_alloc_def P2_def MAX_BUF_ENTRIES_def)
  define P3 where "P3 = snd (opends_alloc 8192 512 P2)"
  have r: "use_count P3 = 1" "proc_inv {#R_Handle 16#} P3" "aisio_ok (aisio_part P3)" "sys_futs (aisio_part P3) = {#}"
      "\<exists>d. drv P3 = Some d"
    using demo_ready [of demo_run idle_world opends_ok P1 opends_ok 16 h P2 8192 P3] o reg al demo_cuda_ok
    by (simp_all add: demo_run_simps P3_def opends_ok_def) blast
  have part: "aisio_part P3 = reader_sys (replicate MAX_STREAMS zero_stream)"
    using buffer_part(1) [OF al] d(4) by (simp add: P3_def P2_def aisio_part_def)
  obtain s3 where run: "reader_run h (replicate MAX_STREAMS zero_stream) = Some (512, s3)" "\<forall>i. mem (snd s3) i = 0"
    using reader_value [of _ h "replicate MAX_STREAMS zero_stream"]
    by (cases "reader_run h (replicate MAX_STREAMS zero_stream)") auto
  obtain P4 where P4: "proc_sync_read [] [pass_turn, pass_turn] (Some h) 8192 512 0 0 8 P3 = Some (512, P4)"
    using run(1) part unfolding reader_run_def proc_sync_read_def by (cases s3) auto
  obtain d3 where d3: "drv P3 = Some d3"
    using r(5) by blast
  have "8 \<notin># sys_futs (aisio_part P3)" "\<forall>f \<in> set [] \<union> set [pass_turn, pass_turn].
      (\<forall>s. (homi_step (\<lambda>_. Inr demo_extents) {8})\<^sup>*\<^sup>* s (f s)) \<and> keeps_streams f"
    using r(4) pass_turn_step pass_turn_keeps by simp_all
  from proc_sync_read_result [OF P4 r(2,3) d3 this(1) _ this(2)]
  have p: "proc_inv {#R_Handle 16#} P4" "use_count P4 = 1" "drv P4 \<noteq> None" "aisio_part P4 = s3"
    using r(1) part run(1) by (auto simp: reader_run_def)
  have bytes: "gpu_bytes P4 8192 512 = replicate 512 0"
    using p(4) run(2) by (auto simp: gpu_bytes_def aisio_part_def intro!: replicate_eqI)
  define s where "s = \<lparr>lib = P4, own = {#File_Descriptor 3, Cuda_Context 77#} + heap_block 24 + heap_block 32\<rparr>"
  have "\<exists>s'. demo_finish demo_run 16 8192 s = Some (0, s')"
    by (rule demo_finish_result [of 16 s demo_run 8192]) (use p in \<open>simp_all add: s_def demo_run_simps\<close>)
  moreover have "demo_main [''demo'', ''/mnt/f''] demo_run (start_proc idle_world) = demo_finish demo_run 16 8192 s"
    using o reg al P4 bytes unfolding P3_def [symmetric]
    by (simp add: demo_main_def demo_compare_def Let_def s_def demo_run_simps opends_ok_def add_mset_commute)
  ultimately show ?thesis
    by simp
qed


end
