(* ===== verification/Spec2Isabelle.thy ===== *)
theory Spec2Isabelle
  imports Status Stream_Map Read_Plan Read_Liveness Io_Worker Io_Thread Stream_Gate Aisio_Clients Ref_Backend Config
    Driver_Props Backend_Props Gds_Backend Async_Results Async_Liveness Demo
begin

text \<open>
  A verification development of OpenDS, a C library for direct storage I/O between files and
  accelerator memory (include/opends.h). One API has three backends, of which a program links one:
  aisio (src/opends_aisio.c), which reads files with NVMe commands of its own, ref
  (src/opends_ref.c), on system calls, and gds (src/opends_gds.c), on NVIDIA's cuFile. The files
  src/opends_batch_async.c and src/opends_sync_async.c build the batch and the synchronous calls on the
  asynchronous ones of aisio and ref, src/opends_common.c holds the direct I/O that both use, and
  src/ds_accel.h is the table of accelerator operations that src/ds_accel_cuda.c fills in.

  How the parts of the aisio backend interact. A submission (\<open>submit_async_op\<close>, \<open>submit_stream_op\<close>)
  claims a slot in the ring of one I/O worker, fills it and publishes it. A stream submission also
  enqueues on the accelerator's stream a write and a wait on the stream's gate word, so that the
  stream stops until the operation has run. The worker's thread (\<open>io_thread_main\<close>) passes over its
  ring: it dispatches pending operations, turns a read into NVMe commands on the file's extents, with
  bounce buffers for partial blocks, completes what has nothing left in flight, and gives the free
  slots at the front back. Completion copies the bounced bytes and sets the caller's future, or stores
  the result, fills the copy descriptor and opens the gate. Callers wait for futures; batches poll them.

  THEORIES, in the order in which they build on each other

  Prelude         types, collections of facts, lemmas on words and lists; models no code.
  Status          status codes, their messages and results (opends.h, opends_internal.h,
                  opends_common.c).
  Aisio_Types     the data of the aisio backend.
  Read_Engine     \<open>start_read_op\<close> with all it calls, and the completion callbacks, as a machine that
                  logs the commands it submits.
  Read_Invariant, Read_Correct, Read_Plan, Read_Liveness
                  what the log contains: exact splits of the requested range (Read_Plan); counters
                  that agree with what is in flight, and termination (Read_Liveness).
  Op_Completion   dispatch, gate check and completion of operations.
  Read_Delivery   a completed read has put the device's bytes in place, against a model of the device
                  and of the copy kernel.
  Io_Worker       the ring and one pass of the thread, refined to a queue of operations.
  Io_Thread       the whole loop of the thread: leaving, spinning, yielding, sleeping.
  Stream_Gate     accelerator, I/O threads and submitters over a gate word as a transition system: order
                  of events, every stream drains (no deadlock, a measure on the steps left), wrap-around
                  of sequence numbers.
  Stream_Map      the hash table of streams (ds_stream_map.h), sequential and against concurrent readers.
  Direct_IO       reads and writes of any alignment on a file of blocks (opends_common.c).
  Async_Contract  the interface \<open>async_service\<close>: what asynchronous operations promise their clients.
  Batch, Batch_Correct, Sync_IO
                  the batch and the synchronous calls, proved inside that interface.
  Async_Api, Async_Props
                  submission and waiting of the aisio backend, its transition system, its
                  interpretation of the interface (\<open>aisio\<close>).
  Aisio_Clients   batches and synchronous calls on the aisio backend, from the interpretation.
  Async_Results   with what the future of an operation is completed, from submission through the worker's
                  ring to the caller; what a synchronous call returns.
  Async_Liveness  infinite runs: every accepted operation is completed and waiting for it ends, while the
                  I/O threads make passes and the device completes commands.
  Ref_Backend     asynchronous and stream calls of the ref backend, interpretation \<open>ref\<close>.
  Config          settings from the environment, with C's \<open>strtol\<close> and \<open>strtoull\<close>, processor masks.
  Resources       what the driver holds of the outside world, and which thing needs which other.
  Lifecycle, Lifecycle_Correct
                  opening and closing the driver on every path, file handles; interface
                  \<open>accel_memory\<close> of mapped host memory.
  Stream_Api, Stream_Correct
                  registration of streams and \<open>submit_stream_op\<close>; interface \<open>accel_streams\<close>.
  Accel_Cuda      the CUDA operations and their interpretations \<open>cudamem\<close> and \<open>cudastr\<close>.
  Buffers         allocation and the table of registered buffers; interface \<open>buffer_table\<close>.
  Registry        buffers and file handles together: interface \<open>file_registry\<close>, which extends
                  \<open>buffer_table\<close>, the abstract registry that every such backend simulates, and the
                  interpretation \<open>aisio_registry\<close>.
  Driver_Props    the aisio driver as a whole: states reachable by any calls and any answers.
  Ref_Driver      the rest of the ref backend, interpretations \<open>rbuf\<close> and \<open>ref_registry\<close>.
  Backend_Props   aisio and ref agree on registered buffers and files.
  Gds_Backend     the gds backend against an abstract backend that refuses or forwards.
  Demo            the program examples/aisio_homi_demo.c, composed of the calls of the aisio driver.

  HOW THE MODEL CORRESPONDS TO THE CODE

  Definitions have the names of the C functions and types, or the name with a prefix where two backends
  define the same one (\<open>ref_\<close>, \<open>gds_\<close>, \<open>aisio_\<close>). Structures are records, pointers and unsigned integers are
  words of their width, \<open>off_t\<close> and \<open>ssize_t\<close> are 64-bit words that are read signed. A \<open>None\<close> stands for
  behaviour that C leaves undefined, such as a double free, or for a loop that has not ended after the
  answers it was given; properties of Driver_Props and Aisio_Clients show that the first does not occur,
  properties of Read_Liveness, Direct_IO and Async_Props that enough answers end the loop. What the code does not define
  itself, the results of system calls, HOMI, xNVMe, CUDA and cuFile, is an argument of the definitions,
  most often a list of answers or what other threads do at each wait. The recursion on such a list is
  the only fuel there is; all other loops have a termination proof.

  Steps of other threads happen between the atomic accesses to shared words. These accesses are
  sequentially consistent in the model.

  FINDINGS

  The lemmas \<open>late_copy_loses\<close>, \<open>unaligned_chunk_submitted\<close> and \<open>short_edge_read_clears\<close> exhibit states
  in which the code does not do what it promises; the properties have the hypotheses that exclude
  them. The lemma \<open>demo_refused\<close> shows that the example program, as it opens its file, never succeeds.
  Properties of Driver_Props and a lemma of Ref_Driver state what the code does where it differs from its
  documentation: queue pairs that stay attached when opening the driver fails late, streams that can
  never be given back, allocations whose rounding wraps around.

  NOT MODELLED

  The device, the daemon that resolves extents and the GPU beyond what the sources say of them; weak
  memory; messages on stderr; the pinning of threads beyond the choice of processors. The
  Python bindings, the tests and the scripts have no logic of the library.
\<close>

end
